(* ===== verification/Go_Prelude.thy ===== *)
theory Go_Prelude
  imports Main "HOL-Library.Word"
begin

text \<open>
  Shared vocabulary of the development.

  \<^item> Bytes, and the little-endian integer codecs of Go's \<^verbatim>\<open>encoding/binary\<close>.
  \<^item> A state-and-error monad \<open>goM\<close>.  A Go method with a pointer receiver that returns
    \<^verbatim>\<open>(T, error)\<close> mutates its receiver even on the paths on which it returns an error, so a
    computation maps a state to a result \<^emph>\<open>and\<close> the state it leaves behind; an error is the
    \<open>Inl\<close> of the result.
  \<^item> Hoare-style validity \<open>validM\<close> over \<open>goM\<close>, with its rules in the collection \<open>goM_intros\<close>.
  \<^item> The \<^verbatim>\<open>int64\<close> wrap-around on \<open>int\<close>.
\<close>

unbundle bit_operations_syntax

named_theorems goM_simps \<open>unfolding rules of the state-and-error monad\<close>
named_theorems goM_intros \<open>Hoare rules of the state-and-error monad\<close>

section \<open>Bytes\<close>

type_synonym byte = "8 word"
type_synonym bytes = "8 word list"

fun le_bytes :: "nat \<Rightarrow> nat \<Rightarrow> bytes" where
  "le_bytes 0 n = []"
| "le_bytes (Suc k) n = of_nat (n mod 256) # le_bytes k (n div 256)"

fun le_nat :: "bytes \<Rightarrow> nat" where
  "le_nat [] = 0"
| "le_nat (b # bs) = unat b + 256 * le_nat bs"

lemma length_le_bytes [simp]: "length (le_bytes k n) = k"
  by (induction k n rule: le_bytes.induct) simp_all

lemma le_bytes_numeral:
  "le_bytes (numeral k) n = of_nat (n mod 256) # le_bytes (pred_numeral k) (n div 256)"
  by (subst numeral_eq_Suc) (rule le_bytes.simps)

lemma unat_byte_less [simp]: "unat (b :: byte) < 256"
  using unsigned_less [of b] by simp

lemma unat_of_nat_byte [simp]: "unat (of_nat n :: byte) = n mod 256"
  by (simp add: unat_of_nat)

lemma of_nat_byte_cong: "(of_nat m :: byte) = of_nat n \<longleftrightarrow> m mod 256 = n mod 256"
  by (metis unat_of_nat_byte word_unat_eq_iff)

lemma le_nat_le_bytes: "le_nat (le_bytes k n) = n mod 256 ^ k"
proof (induction k n rule: le_bytes.induct)
  case (1 n)
  then show ?case by simp
next
  case (2 k n)
  then show ?case by (simp add: mod_mult2_eq)
qed

lemma le_nat_le_bytes_less: "n < 256 ^ k \<Longrightarrow> le_nat (le_bytes k n) = n"
  by (simp add: le_nat_le_bytes)

lemma le_nat_bound: "le_nat bs < 256 ^ length bs"
proof (induction bs)
  case Nil
  then show ?case by simp
next
  case (Cons b bs)
  have "unat b + 256 * le_nat bs < 256 * (le_nat bs + 1)"
    using unat_byte_less [of b] by simp
  also have "\<dots> \<le> 256 * 256 ^ length bs"
    using Cons.IH by (intro mult_le_mono) auto
  finally show ?case by simp
qed

lemma le_bytes_le_nat: "le_bytes (length bs) (le_nat bs) = bs"
proof (induction bs)
  case Nil
  then show ?case by simp
next
  case (Cons b bs)
  have "(of_nat (unat b + 256 * le_nat bs) :: byte) = b"
    by (metis mod_less mod_mult_self2 unat_byte_less unat_of_nat_byte word_unat_eq_iff)
  moreover have "(unat b + 256 * le_nat bs) div 256 = le_nat bs"
    using unat_byte_less [of b] by simp
  ultimately show ?case using Cons.IH by (simp add: of_nat_byte_cong)
qed

lemma le_nat_append: "le_nat (xs @ ys) = le_nat xs + 256 ^ length xs * le_nat ys"
  by (induction xs) (simp_all add: algebra_simps)

lemma le_nat_inj: "length xs = length ys \<Longrightarrow> le_nat xs = le_nat ys \<Longrightarrow> xs = ys"
  by (metis le_bytes_le_nat)

lemma digit_less_nat:
  assumes "a < B" "x < m" 
  shows "a + B * x < B * (m :: nat)"
proof -
  have "a + B * x < B * Suc x" using assms(1) by simp
  also have "\<dots> \<le> B * m" using assms(2) by (intro mult_le_mono) auto
  finally show ?thesis .
qed

lemma byte_high: "128 \<le> x \<Longrightarrow> x < 256 \<Longrightarrow> 128 + x mod 128 = (x :: nat)"
  by (subst mod_if) auto

lemma bit_byte7: "bit (b :: byte) 7 \<longleftrightarrow> \<not> unat b < 128"
proof -
  have "bit (unat b) 7 \<longleftrightarrow> bit b 7" by (simp add: bit_unsigned_iff)
  moreover have "bit (unat b) 7 \<longleftrightarrow> odd (unat b div 128)" by (simp add: bit_iff_odd)
  moreover have "odd (unat b div 128) \<longleftrightarrow> \<not> unat b < 128"
  proof (cases "unat b < 128")
    case False
    then have "unat b div 128 = 1"
      using unat_byte_less [of b] by (intro div_nat_eqI) simp_all
    then show ?thesis using False by simp
  qed simp
  ultimately show ?thesis by simp
qed

lemma byte_msb: "(b :: byte) AND 0x80 = 0 \<longleftrightarrow> unat b < 128"
  using and_exp_eq_0_iff_not_bit [of b 7] by (simp add: bit_byte7)

lemma unat_and_7f: "unat ((b :: byte) AND 0x7f) = unat b mod 128"
proof -
  have "unat (b AND 0x7f) = unat b AND unat (0x7f :: byte)" by (rule unsigned_and_eq)
  also have "\<dots> = unat b AND mask 7" by (simp add: mask_eq_exp_minus_1)
  also have "\<dots> = unat b mod 128" by (simp only: take_bit_eq_mask [symmetric] take_bit_eq_mod) simp
  finally show ?thesis .
qed

lemma or_push_bit_add:
  fixes a b :: "'a :: linordered_euclidean_semiring_bit_operations"
  assumes "take_bit k a = a"
  shows "a OR push_bit k b = a + push_bit k b"
proof -
  have "take_bit k a AND push_bit k b = 0"
    by (rule bit_eqI) (auto simp: bit_simps)
  with assms show ?thesis by (metis disjunctive_add_eq_or)
qed

lemma unat_or_80:
  assumes "unat (b :: byte) < 128"
  shows "unat (b OR 0x80) = unat b + 128"
proof -
  have "unat (b OR 0x80) = unat b OR unat (0x80 :: byte)" by (rule unsigned_or_eq)
  also have "\<dots> = unat b OR push_bit 7 1" by (simp add: push_bit_eq_mult)
  also have "\<dots> = unat b + push_bit 7 1"
    using assms by (intro or_push_bit_add) (simp add: take_bit_eq_mod)
  finally show ?thesis by (simp add: push_bit_eq_mult)
qed

lemma le_nat_snoc: "v \<noteq> [] \<Longrightarrow> le_nat v = le_nat (butlast v) + 256 ^ (length v - 1) * unat (last v)"
  using le_nat_append [of "butlast v" "[last v]"] by simp

lemma le_nat_msb:
  assumes "v \<noteq> []"
  shows "unat (last v) < 128 \<longleftrightarrow> le_nat v < 128 * 256 ^ (length v - 1)"
proof -
  have b: "le_nat (butlast v) < 256 ^ (length v - 1)" using le_nat_bound [of "butlast v"] by simp
  note s = le_nat_snoc [OF assms]
  show ?thesis
  proof
    assume "unat (last v) < 128"
    then show "le_nat v < 128 * 256 ^ (length v - 1)"
      using digit_less_nat [OF b] unfolding s by (simp only: mult.commute)
  next
    assume a: "le_nat v < 128 * 256 ^ (length v - 1)"
    show "unat (last v) < 128"
    proof (rule ccontr)
      assume "\<not> unat (last v) < 128"
      then have "256 ^ (length v - 1) * 128 \<le> 256 ^ (length v - 1) * unat (last v)"
        by (intro mult_le_mono) auto
      with a show False unfolding s by (simp only: mult.commute)
    qed
  qed
qed

section \<open>The state-and-error monad\<close>

type_synonym ('s, 'e, 'a) goM = "'s \<Rightarrow> ('e + 'a) \<times> 's"

definition returnM :: "'a \<Rightarrow> ('s, 'e, 'a) goM" where
  "returnM x = (\<lambda>s. (Inr x, s))"

definition raiseM :: "'e \<Rightarrow> ('s, 'e, 'a) goM" where
  "raiseM e = (\<lambda>s. (Inl e, s))"

definition bindM :: "('s, 'e, 'a) goM \<Rightarrow> ('a \<Rightarrow> ('s, 'e, 'b) goM) \<Rightarrow> ('s, 'e, 'b) goM" where
  "bindM m f = (\<lambda>s. case m s of (Inl e, s') \<Rightarrow> (Inl e, s') | (Inr x, s') \<Rightarrow> f x s')"

text \<open>Read from the state, overwrite the state, and stop with an error when a guard holds.\<close>

definition getM :: "('s \<Rightarrow> 'a) \<Rightarrow> ('s, 'e, 'a) goM" where
  "getM f = (\<lambda>s. (Inr (f s), s))"

definition modifyM :: "('s \<Rightarrow> 's) \<Rightarrow> ('s, 'e, unit) goM" where
  "modifyM f = (\<lambda>s. (Inr (), f s))"

definition failIfM :: "bool \<Rightarrow> 'e \<Rightarrow> ('s, 'e, unit) goM" where
  "failIfM b e = (if b then raiseM e else returnM ())"

text \<open>Run a pure fallible function, and run a computation on one field of the state.\<close>

definition liftM :: "'e + 'a \<Rightarrow> ('s, 'e, 'a) goM" where
  "liftM r = (\<lambda>s. (r, s))"

definition zoomM :: "('s \<Rightarrow> 't) \<Rightarrow> ('t \<Rightarrow> 's \<Rightarrow> 's) \<Rightarrow> ('t, 'e, 'a) goM \<Rightarrow> ('s, 'e, 'a) goM" where
  "zoomM sel upd m = (\<lambda>s. let (r, t) = m (sel s) in (r, upd t s))"

text \<open>Repeat a computation a number of times, collecting its results in order.\<close>

primrec repeatM :: "nat \<Rightarrow> ('s, 'e, 'a) goM \<Rightarrow> ('s, 'e, 'a list) goM" where
  "repeatM 0 m = returnM []"
| "repeatM (Suc n) m = bindM m (\<lambda>x. bindM (repeatM n m) (\<lambda>xs. returnM (x # xs)))"

lemma returnM_apply [goM_simps]: "returnM x s = (Inr x, s)"
  by (simp add: returnM_def)

lemma raiseM_apply [goM_simps]: "raiseM e s = (Inl e, s)"
  by (simp add: raiseM_def)

lemma bindM_apply [goM_simps]:
  "bindM m f s = (case m s of (r, s') \<Rightarrow> (case r of Inl e \<Rightarrow> (Inl e, s') | Inr x \<Rightarrow> f x s'))"
  by (simp add: bindM_def split: prod.split sum.split)

lemma getM_apply [goM_simps]: "getM f s = (Inr (f s), s)"
  by (simp add: getM_def)

lemma modifyM_apply [goM_simps]: "modifyM f s = (Inr (), f s)"
  by (simp add: modifyM_def)

lemma failIfM_apply [goM_simps]: "failIfM b e s = (if b then (Inl e, s) else (Inr (), s))"
  by (simp add: failIfM_def raiseM_def returnM_def)

lemma liftM_apply [goM_simps]: "liftM r s = (r, s)"
  by (simp add: liftM_def)

lemma zoomM_apply [goM_simps]:
  "zoomM sel upd m s = (case m (sel s) of (r, t) \<Rightarrow> (r, upd t s))"
  by (simp add: zoomM_def)

lemma bindM_Inr: "m s = (Inr x, s') \<Longrightarrow> bindM m f s = f x s'"
  by (simp add: bindM_apply)

lemma bindM_Inl: "m s = (Inl e, s') \<Longrightarrow> bindM m f s = (Inl e, s')"
  by (simp add: bindM_apply)

lemma bindM_eq_Inr:
  "bindM m f s = (Inr y, s'') \<longleftrightarrow> (\<exists>x s'. m s = (Inr x, s') \<and> f x s' = (Inr y, s''))"
  by (auto simp: bindM_apply split: prod.splits sum.splits)

lemma guardM_eq_Inr:
  "(if b then raiseM e else m) s = (Inr x, s') \<longleftrightarrow> \<not> b \<and> m s = (Inr x, s')"
  by (simp add: raiseM_apply)

lemma repeatM_Suc_Inr:
  "m s = (Inr x, s') \<Longrightarrow> repeatM n m s' = (Inr xs, s'') \<Longrightarrow>
   repeatM (Suc n) m s = (Inr (x # xs), s'')"
  by (simp add: bindM_Inr returnM_apply)

lemma repeatM_Suc_Inl: "m s = (Inl e, s') \<Longrightarrow> repeatM (Suc n) m s = (Inl e, s')"
  by (simp add: bindM_Inl)

lemma repeatM_Suc_Inr_Inl:
  "m s = (Inr x, s') \<Longrightarrow> repeatM n m s' = (Inl e, s'') \<Longrightarrow> repeatM (Suc n) m s = (Inl e, s'')"
  by (simp add: bindM_Inr bindM_Inl)

lemma bindM_returnM [simp]: "bindM (returnM x) f = f x"
  by (simp add: fun_eq_iff goM_simps)

lemma bindM_raiseM [simp]: "bindM (raiseM e) f = raiseM e"
  by (simp add: fun_eq_iff goM_simps)

lemma bindM_assoc: "bindM (bindM m f) g = bindM m (\<lambda>x. bindM (f x) g)"
  by (simp add: fun_eq_iff goM_simps split: prod.split sum.split)

subsection \<open>Hoare-style validity\<close>

text \<open>
  \<open>validM P m Q E\<close>: from a state satisfying \<open>P\<close>, \<open>m\<close> either returns a result and state
  satisfying \<open>Q\<close> or raises an error and leaves a state satisfying \<open>E\<close>.
\<close>

definition validM ::
  "('s \<Rightarrow> bool) \<Rightarrow> ('s, 'e, 'a) goM \<Rightarrow> ('a \<Rightarrow> 's \<Rightarrow> bool) \<Rightarrow> ('e \<Rightarrow> 's \<Rightarrow> bool) \<Rightarrow> bool" where
  "validM P m Q E \<longleftrightarrow>
     (\<forall>s. P s \<longrightarrow> (case m s of (Inl e, s') \<Rightarrow> E e s' | (Inr x, s') \<Rightarrow> Q x s'))"

lemma validM_I:
  assumes "\<And>s e s'. P s \<Longrightarrow> m s = (Inl e, s') \<Longrightarrow> E e s'"
    and "\<And>s x s'. P s \<Longrightarrow> m s = (Inr x, s') \<Longrightarrow> Q x s'"
  shows "validM P m Q E"
  using assms by (auto simp: validM_def split: prod.split sum.split)

lemma validM_D_Inr: "validM P m Q E \<Longrightarrow> P s \<Longrightarrow> m s = (Inr x, s') \<Longrightarrow> Q x s'"
  by (fastforce simp: validM_def)

lemma validM_D_Inl: "validM P m Q E \<Longrightarrow> P s \<Longrightarrow> m s = (Inl e, s') \<Longrightarrow> E e s'"
  by (fastforce simp: validM_def)

lemma validM_weaken:
  assumes "validM P' m Q' E'"
    and "\<And>s. P s \<Longrightarrow> P' s"
    and "\<And>x s. Q' x s \<Longrightarrow> Q x s"
    and "\<And>e s. E' e s \<Longrightarrow> E e s"
  shows "validM P m Q E"
  using assms by (fastforce simp: validM_def split: prod.splits sum.splits)

lemma validM_pre: "validM P' m Q E \<Longrightarrow> (\<And>s. P s \<Longrightarrow> P' s) \<Longrightarrow> validM P m Q E"
  by (rule validM_weaken)

lemma validM_returnM [goM_intros]: "(\<And>s. P s \<Longrightarrow> Q x s) \<Longrightarrow> validM P (returnM x) Q E"
  by (simp add: validM_def goM_simps)

lemma validM_raiseM [goM_intros]: "(\<And>s. P s \<Longrightarrow> E e s) \<Longrightarrow> validM P (raiseM e) Q E"
  by (simp add: validM_def goM_simps)

lemma validM_bindM:
  assumes "validM P m R E" and "\<And>x. validM (R x) (f x) Q E"
  shows "validM P (bindM m f) Q E"
  using assms by (fastforce simp: validM_def goM_simps split: prod.splits sum.splits)

lemma validM_getM [goM_intros]: "(\<And>s. P s \<Longrightarrow> Q (f s) s) \<Longrightarrow> validM P (getM f) Q E"
  by (simp add: validM_def goM_simps)

lemma validM_modifyM [goM_intros]: "(\<And>s. P s \<Longrightarrow> Q () (f s)) \<Longrightarrow> validM P (modifyM f) Q E"
  by (simp add: validM_def goM_simps)

lemma validM_failIfM [goM_intros]:
  "(\<And>s. P s \<Longrightarrow> b \<Longrightarrow> E e s) \<Longrightarrow> (\<And>s. P s \<Longrightarrow> \<not> b \<Longrightarrow> Q () s) \<Longrightarrow> validM P (failIfM b e) Q E"
  by (simp add: validM_def goM_simps)

lemma validM_if [goM_intros]:
  "(b \<Longrightarrow> validM P m Q E) \<Longrightarrow> (\<not> b \<Longrightarrow> validM P m' Q E) \<Longrightarrow> validM P (if b then m else m') Q E"
  by simp

section \<open>The Go type int64\<close>

text \<open>
  An \<^verbatim>\<open>int64\<close> is an \<open>int\<close>; \<open>int64 x\<close> is the value the Go conversion or the wrapping
  arithmetic of the language gives.
\<close>

definition int64 :: "int \<Rightarrow> int" where
  "int64 x = (x + 2 ^ 63) mod 2 ^ 64 - 2 ^ 63"

lemma int64_id: "- (2 ^ 63) \<le> x \<Longrightarrow> x < 2 ^ 63 \<Longrightarrow> int64 x = x"
  by (simp add: int64_def)

lemma int64_range: "- (2 ^ 63) \<le> int64 x" "int64 x < 2 ^ 63"
  by (simp_all add: int64_def)

lemma int64_nonneg: "0 \<le> x \<Longrightarrow> x < 2 ^ 63 \<Longrightarrow> int64 x = x"
  by (rule int64_id) auto

lemma int64_uminus: "0 \<le> x \<Longrightarrow> x \<le> 2 ^ 63 \<Longrightarrow> int64 (- x) = - x"
  by (rule int64_id) auto

section \<open>Lists\<close>

lemma take_snoc_nth: "i < length xs \<Longrightarrow> take i xs @ [xs ! i] = take (Suc i) xs"
  by (simp add: take_Suc_conv_app_nth)

lemma list_eq_butlast_last: "xs \<noteq> [] \<Longrightarrow> xs = butlast xs @ [last xs]"
  by simp

end
