(* ===== verification/Script_Error.thy ===== *)
theory Script_Error
  imports Go_Prelude
begin

text \<open>
  The errors of the script package (\<^verbatim>\<open>src/txscript/error.go\<close>).  \<open>ScriptError c\<close> is the
  \<^verbatim>\<open>Error\<close> struct with code \<open>c\<close>; its human-readable description is not kept.
  \<open>PlainError\<close> is an error that is not of the type \<^verbatim>\<open>Error\<close> (\<^verbatim>\<open>fmt.Errorf\<close>), and
  \<open>GoPanic\<close> is a run-time panic of the Go program: an index or a slice bound out of range.
\<close>

datatype (plugins only: code) ErrorCode =
    ErrInternal | ErrInvalidFlags | ErrInvalidIndex | ErrUnsupportedAddress
  | ErrNotMultisigScript | ErrTooManyRequiredSigs | ErrTooMuchNullData | ErrEarlyReturn
  | ErrEmptyStack | ErrEvalFalse | ErrScriptUnfinished | ErrInvalidProgramCounter
  | ErrScriptTooBig | ErrElementTooBig | ErrTooManyOperations | ErrStackOverflow
  | ErrInvalidPubKeyCount | ErrInvalidSignatureCount | ErrNumberTooBig | ErrVerify
  | ErrEqualVerify | ErrNumEqualVerify | ErrCheckSigVerify | ErrCheckMultiSigVerify
  | ErrDisabledOpcode | ErrReservedOpcode | ErrMalformedPush | ErrInvalidStackOperation
  | ErrUnbalancedConditional | ErrMinimalData | ErrInvalidSigHashType | ErrSigTooShort
  | ErrSigTooLong | ErrSigInvalidSeqID | ErrSigInvalidDataLen | ErrSigMissingSTypeID
  | ErrSigMissingSLen | ErrSigInvalidSLen | ErrSigInvalidRIntID | ErrSigZeroRLen
  | ErrSigNegativeR | ErrSigTooMuchRPadding | ErrSigInvalidSIntID | ErrSigZeroSLen
  | ErrSigNegativeS | ErrSigTooMuchSPadding | ErrSigHighS | ErrNotPushOnly | ErrSigNullDummy
  | ErrPubKeyType | ErrCleanStack | ErrNullFail | ErrWitnessMalleated | ErrWitnessMalleatedP2SH
  | ErrDiscourageUpgradableNOPs | ErrNegativeLockTime | ErrUnsatisfiedLockTime | ErrMinimalIf
  | ErrDiscourageUpgradableWitnessProgram | ErrWitnessProgramEmpty | ErrWitnessProgramMismatch
  | ErrWitnessProgramWrongLength | ErrWitnessUnexpected | ErrWitnessPubKeyType

datatype script_err = ScriptError ErrorCode | PlainError | GoPanic

definition scriptError :: "ErrorCode \<Rightarrow> script_err" where
  "scriptError c = ScriptError c"

definition IsErrorCode :: "script_err \<Rightarrow> ErrorCode \<Rightarrow> bool" where
  "IsErrorCode err c = (case err of ScriptError c' \<Rightarrow> c' = c | _ \<Rightarrow> False)"

lemma scriptError_neq_panic [simp]: "scriptError c \<noteq> GoPanic" "GoPanic \<noteq> scriptError c"
  by (simp_all add: scriptError_def)

lemma scriptError_inject [simp]: "scriptError c = scriptError d \<longleftrightarrow> c = d"
  by (simp add: scriptError_def)

section \<open>Fallible pure code\<close>

text \<open>
  Sequencing of functions that return a value or an error, the index expression \<^verbatim>\<open>b[i]\<close>, and
  the slice expression \<^verbatim>\<open>b[i:j]\<close>, which panic when out of range.
\<close>

definition bindE :: "'e + 'a \<Rightarrow> ('a \<Rightarrow> 'e + 'b) \<Rightarrow> 'e + 'b" where
  "bindE r f = (case r of Inl e \<Rightarrow> Inl e | Inr x \<Rightarrow> f x)"

definition indexE :: "'a list \<Rightarrow> nat \<Rightarrow> script_err + 'a" where
  "indexE b i = (if i < length b then Inr (b ! i) else Inl GoPanic)"

definition sliceE :: "'a list \<Rightarrow> nat \<Rightarrow> nat \<Rightarrow> script_err + 'a list" where
  "sliceE b i j = (if i \<le> j \<and> j \<le> length b then Inr (drop i (take j b)) else Inl GoPanic)"

lemma bindE_simps [simp]: "bindE (Inl e) f = Inl e" "bindE (Inr x) f = f x"
  by (simp_all add: bindE_def)

lemma indexE_ok [simp]: "i < length b \<Longrightarrow> indexE b i = Inr (b ! i)"
  by (simp add: indexE_def)

lemma sliceE_ok [simp]: "i \<le> j \<Longrightarrow> j \<le> length b \<Longrightarrow> sliceE b i j = Inr (drop i (take j b))"
  by (simp add: sliceE_def)

lemma bindE_Inr_iff: "bindE r f = Inr y \<longleftrightarrow> (\<exists>x. r = Inr x \<and> f x = Inr y)"
  by (cases r) simp_all

lemma indexE_Inr_iff: "indexE b i = Inr x \<longleftrightarrow> i < length b \<and> x = b ! i"
  by (auto simp: indexE_def)

lemma sliceE_Inr_iff: "sliceE b i j = Inr x \<longleftrightarrow> i \<le> j \<and> j \<le> length b \<and> x = drop i (take j b)"
  by (auto simp: sliceE_def)

lemma ifE_Inr_iff: "(if c then Inl e else m) = Inr y \<longleftrightarrow> \<not> c \<and> m = Inr y"
  by simp

lemmas pureE_iff = bindE_Inr_iff indexE_Inr_iff sliceE_Inr_iff ifE_Inr_iff

text \<open>
  A result that is not a panic.
\<close>

definition safeE :: "script_err + 'a \<Rightarrow> bool" where
  "safeE r = (r \<noteq> Inl GoPanic)"

lemma safeE_simps [simp]: "safeE (Inr x)" "safeE (Inl e) \<longleftrightarrow> e \<noteq> GoPanic"
  by (simp_all add: safeE_def)

lemma safeE_bindE: "safeE r \<Longrightarrow> (\<And>x. r = Inr x \<Longrightarrow> safeE (f x)) \<Longrightarrow> safeE (bindE r f)"
  by (cases r) (simp_all add: safeE_def)

lemma safeE_indexE: "i < length b \<Longrightarrow> safeE (indexE b i)"
  by simp

lemma safeE_sliceE: "i \<le> j \<Longrightarrow> j \<le> length b \<Longrightarrow> safeE (sliceE b i j)"
  by simp

lemma safeE_if: "(c \<Longrightarrow> safeE x) \<Longrightarrow> (\<not> c \<Longrightarrow> safeE y) \<Longrightarrow> safeE (if c then x else y)"
  by simp

end
