(* ===== verification/Wire_Codec.thy ===== *)
theory Wire_Codec
  imports Go_Prelude
begin

text \<open>
  The primitive encodings of the wire protocol (\<^verbatim>\<open>src/wire/common.go\<close>).

  A reader (\<^verbatim>\<open>io.Reader\<close>) is the list of bytes not yet read, so a decoder is a computation
  over that list; a decoder that fails has consumed what was left.  A writer is a
  \<^verbatim>\<open>bytes.Buffer\<close>, whose writes never fail, so an encoder is the list of bytes it appends.  The
  free lists of buffers (\<^verbatim>\<open>binaryFreeList\<close>, \<^verbatim>\<open>scriptFreeList\<close>) recycle storage and have no
  effect on what is read or written.

  The locale \<open>codec\<close> is the contract every pair of a reader and a writer of the package has to
  meet; \<open>canonical_codec\<close> adds that a value has only one accepted encoding.
\<close>

section \<open>Readers\<close>

datatype wire_err = EOF | UnexpectedEOF | MessageError | WirePanic

type_synonym 'a readM = "(bytes, wire_err, 'a) goM"

definition ReadFull :: "nat \<Rightarrow> bytes readM" where
  "ReadFull n = (\<lambda>r. if n \<le> length r then (Inr (take n r), drop n r)
                     else (Inl (if r = [] then EOF else UnexpectedEOF), []))"

definition Uint8 :: "byte readM" where
  "Uint8 = bindM (ReadFull 1) (\<lambda>buf. returnM (hd buf))"

definition Uint16 :: "16 word readM" where
  "Uint16 = bindM (ReadFull 2) (\<lambda>buf. returnM (of_nat (le_nat buf)))"

definition Uint32 :: "32 word readM" where
  "Uint32 = bindM (ReadFull 4) (\<lambda>buf. returnM (of_nat (le_nat buf)))"

definition Uint64 :: "64 word readM" where
  "Uint64 = bindM (ReadFull 8) (\<lambda>buf. returnM (of_nat (le_nat buf)))"

definition PutUint8 :: "byte \<Rightarrow> bytes" where
  "PutUint8 val = [val]"

definition PutUint16 :: "16 word \<Rightarrow> bytes" where
  "PutUint16 val = le_bytes 2 (unat val)"

definition PutUint32 :: "32 word \<Rightarrow> bytes" where
  "PutUint32 val = le_bytes 4 (unat val)"

definition PutUint64 :: "64 word \<Rightarrow> bytes" where
  "PutUint64 val = le_bytes 8 (unat val)"

section \<open>Typed elements\<close>

text \<open>
  \<^verbatim>\<open>readElement\<close> and \<^verbatim>\<open>writeElement\<close> switch on the dynamic type of their argument.  The
  types they treat specially are the constructors below; signed integers are kept as the word
  of their two's complement.  A time is its number of seconds since the epoch.
\<close>

datatype (plugins only: code) element =
    ElInt16 "16 word" | ElUint16 "16 word" | ElInt32 "32 word" | ElUint32 "32 word"
  | ElInt64 "64 word" | ElUint64 "64 word" | ElBool bool
  | ElUint32Time int | ElInt64Time int
  | ElBytes4 bytes | ElCommand bytes | ElBytes16 bytes
  | ElHash bytes | ElHash64 bytes | ElHash33 bytes
  | ElServiceFlag "64 word" | ElInvType "32 word" | ElBitcoinNet "32 word"
  | ElBloomUpdateType byte | ElRejectCode byte

datatype (plugins only: code) element_kind =
    KInt16 | KUint16 | KInt32 | KUint32 | KInt64 | KUint64 | KBool | KUint32Time | KInt64Time
  | KBytes4 | KCommand | KBytes16 | KHash | KHash64 | KHash33
  | KServiceFlag | KInvType | KBitcoinNet | KBloomUpdateType | KRejectCode

definition CommandSize :: nat where "CommandSize = 12"
definition HashSize :: nat where "HashSize = 32"
definition Hash64Size :: nat where "Hash64Size = 64"
definition Hash33Size :: nat where "Hash33Size = 33"

fun readElement :: "element_kind \<Rightarrow> element readM" where
  "readElement KInt16 = bindM Uint16 (\<lambda>rv. returnM (ElInt16 rv))"
| "readElement KUint16 = bindM Uint16 (\<lambda>rv. returnM (ElUint16 rv))"
| "readElement KInt32 = bindM Uint32 (\<lambda>rv. returnM (ElInt32 rv))"
| "readElement KUint32 = bindM Uint32 (\<lambda>rv. returnM (ElUint32 rv))"
| "readElement KInt64 = bindM Uint64 (\<lambda>rv. returnM (ElInt64 rv))"
| "readElement KUint64 = bindM Uint64 (\<lambda>rv. returnM (ElUint64 rv))"
| "readElement KBool = bindM Uint8 (\<lambda>rv. returnM (ElBool (if rv = 0x00 then False else True)))"
| "readElement KUint32Time = bindM Uint32 (\<lambda>rv. returnM (ElUint32Time (uint rv)))"
| "readElement KInt64Time = bindM Uint64 (\<lambda>rv. returnM (ElInt64Time (sint rv)))"
| "readElement KBytes4 = bindM (ReadFull 4) (\<lambda>e. returnM (ElBytes4 e))"
| "readElement KCommand = bindM (ReadFull CommandSize) (\<lambda>e. returnM (ElCommand e))"
| "readElement KBytes16 = bindM (ReadFull 16) (\<lambda>e. returnM (ElBytes16 e))"
| "readElement KHash = bindM (ReadFull HashSize) (\<lambda>e. returnM (ElHash e))"
| "readElement KHash64 = bindM (ReadFull Hash64Size) (\<lambda>e. returnM (ElHash64 e))"
| "readElement KHash33 = bindM (ReadFull Hash33Size) (\<lambda>e. returnM (ElHash33 e))"
| "readElement KServiceFlag = bindM Uint64 (\<lambda>rv. returnM (ElServiceFlag rv))"
| "readElement KInvType = bindM Uint32 (\<lambda>rv. returnM (ElInvType rv))"
| "readElement KBitcoinNet = bindM Uint32 (\<lambda>rv. returnM (ElBitcoinNet rv))"
| "readElement KBloomUpdateType = bindM Uint8 (\<lambda>rv. returnM (ElBloomUpdateType rv))"
| "readElement KRejectCode = bindM Uint8 (\<lambda>rv. returnM (ElRejectCode rv))"

fun readElements :: "element_kind list \<Rightarrow> element list readM" where
  "readElements [] = returnM []"
| "readElements (k # ks) =
     bindM (readElement k) (\<lambda>e. bindM (readElements ks) (\<lambda>es. returnM (e # es)))"

text \<open>
  \<^verbatim>\<open>writeElement\<close> has no case for the two time types; they reach \<^verbatim>\<open>binary.Write\<close>, which
  rejects them.
\<close>

fun writeElement :: "element \<Rightarrow> bytes option" where
  "writeElement (ElInt16 e) = Some (PutUint16 e)"
| "writeElement (ElUint16 e) = Some (PutUint16 e)"
| "writeElement (ElInt32 e) = Some (PutUint32 e)"
| "writeElement (ElUint32 e) = Some (PutUint32 e)"
| "writeElement (ElInt64 e) = Some (PutUint64 e)"
| "writeElement (ElUint64 e) = Some (PutUint64 e)"
| "writeElement (ElBool e) = Some (if e then PutUint8 0x01 else PutUint8 0x00)"
| "writeElement (ElUint32Time e) = None"
| "writeElement (ElInt64Time e) = None"
| "writeElement (ElBytes4 e) = Some e"
| "writeElement (ElCommand e) = Some e"
| "writeElement (ElBytes16 e) = Some e"
| "writeElement (ElHash e) = Some e"
| "writeElement (ElHash64 e) = Some e"
| "writeElement (ElHash33 e) = Some e"
| "writeElement (ElServiceFlag e) = Some (PutUint64 e)"
| "writeElement (ElInvType e) = Some (PutUint32 e)"
| "writeElement (ElBitcoinNet e) = Some (PutUint32 e)"
| "writeElement (ElBloomUpdateType e) = Some (PutUint8 e)"
| "writeElement (ElRejectCode e) = Some (PutUint8 e)"

fun writeElements :: "element list \<Rightarrow> bytes option" where
  "writeElements [] = Some []"
| "writeElements (e # es) =
     (case writeElement e of None \<Rightarrow> None
      | Some w \<Rightarrow> (case writeElements es of None \<Rightarrow> None | Some ws \<Rightarrow> Some (w @ ws)))"

section \<open>Variable length integers, strings and byte arrays\<close>

definition ReadVarInt :: "64 word readM" where
  "ReadVarInt = bindM Uint8 (\<lambda>discriminant.
     if discriminant = 0xff then
       bindM Uint64 (\<lambda>sv. if sv < 0x100000000 then raiseM MessageError else returnM sv)
     else if discriminant = 0xfe then
       bindM Uint32 (\<lambda>sv. let rv = ucast sv :: 64 word in
         if rv < 0x10000 then raiseM MessageError else returnM rv)
     else if discriminant = 0xfd then
       bindM Uint16 (\<lambda>sv. let rv = ucast sv :: 64 word in
         if rv < 0xfd then raiseM MessageError else returnM rv)
     else returnM (ucast discriminant))"

definition WriteVarInt :: "64 word \<Rightarrow> bytes" where
  "WriteVarInt val =
     (if val < 0xfd then PutUint8 (ucast val)
      else if val \<le> 0xffff then PutUint8 0xfd @ PutUint16 (ucast val)
      else if val \<le> 0xffffffff then PutUint8 0xfe @ PutUint32 (ucast val)
      else PutUint8 0xff @ PutUint64 val)"

definition VarIntSerializeSize :: "64 word \<Rightarrow> nat" where
  "VarIntSerializeSize val =
     (if val < 0xfd then 1 else if val \<le> 0xffff then 3 else if val \<le> 0xffffffff then 5 else 9)"

definition MaxMessagePayload :: nat where
  "MaxMessagePayload = 1024 * 1024 * 32"

definition ReadVarString :: "bytes readM" where
  "ReadVarString = bindM ReadVarInt (\<lambda>count.
     if unat count > MaxMessagePayload then raiseM MessageError else ReadFull (unat count))"

definition WriteVarString :: "bytes \<Rightarrow> bytes" where
  "WriteVarString str = WriteVarInt (of_nat (length str)) @ str"

definition ReadVarBytes :: "nat \<Rightarrow> bytes readM" where
  "ReadVarBytes maxAllowed = bindM ReadVarInt (\<lambda>count.
     if unat count > maxAllowed then raiseM MessageError else ReadFull (unat count))"

definition WriteVarBytes :: "bytes \<Rightarrow> bytes" where
  "WriteVarBytes bs = WriteVarInt (of_nat (length bs)) @ bs"

section \<open>The contract of a reader and a writer\<close>

locale codec =
  fixes enc :: "'a \<Rightarrow> bytes"
    and dec :: "'a readM"
    and ok :: "'a \<Rightarrow> bool"
  assumes dec_enc: "ok x \<Longrightarrow> dec (enc x @ rest) = (Inr x, rest)"
begin

lemma dec_list:
  "list_all ok xs \<Longrightarrow> repeatM (length xs) dec (concat (map enc xs) @ rest) = (Inr xs, rest)"
proof (induction xs)
  case Nil
  then show ?case by (simp add: returnM_apply)
next
  case (Cons x xs)
  then have "dec (enc x @ (concat (map enc xs) @ rest)) = (Inr x, concat (map enc xs) @ rest)"
    by (simp add: dec_enc)
  moreover have "repeatM (length xs) dec (concat (map enc xs) @ rest) = (Inr xs, rest)"
    using Cons by simp
  ultimately have "repeatM (Suc (length xs)) dec (enc x @ (concat (map enc xs) @ rest))
      = (Inr (x # xs), rest)"
    by (rule repeatM_Suc_Inr)
  then show ?case by simp
qed

lemma enc_inj: "ok x \<Longrightarrow> ok y \<Longrightarrow> enc x @ r = enc y @ r' \<Longrightarrow> x = y \<and> r = r'"
proof -
  assume "ok x" and "ok y" and eq: "enc x @ r = enc y @ r'"
  have "dec (enc x @ r) = (Inr x, r)"
    using \<open>ok x\<close> by (rule dec_enc)
  moreover have "dec (enc x @ r) = (Inr y, r')"
    unfolding eq using \<open>ok y\<close> by (rule dec_enc)
  ultimately show "x = y \<and> r = r'" by simp
qed

end

locale canonical_codec = codec +
  assumes enc_dec: "dec bs = (Inr x, rest) \<Longrightarrow> ok x \<and> bs = enc x @ rest"
begin

lemma dec_iff: "dec bs = (Inr x, rest) \<longleftrightarrow> ok x \<and> bs = enc x @ rest"
proof
  assume "dec bs = (Inr x, rest)"
  then show "ok x \<and> bs = enc x @ rest" by (rule enc_dec)
next
  assume "ok x \<and> bs = enc x @ rest"
  then show "dec bs = (Inr x, rest)" by (simp only: dec_enc)
qed

lemma dec_list_iff:
  "repeatM n dec bs = (Inr xs, rest)
   \<longleftrightarrow> length xs = n \<and> list_all ok xs \<and> bs = concat (map enc xs) @ rest"
proof
  assume "repeatM n dec bs = (Inr xs, rest)"
  then show "length xs = n \<and> list_all ok xs \<and> bs = concat (map enc xs) @ rest"
  proof (induction n arbitrary: bs xs)
    case 0
    then show ?case by (simp add: returnM_apply)
  next
    case (Suc n)
    then obtain x r ys where "dec bs = (Inr x, r)" and
      ys: "repeatM n dec r = (Inr ys, rest)" "xs = x # ys"
      by (auto simp: bindM_eq_Inr returnM_apply)
    then show ?case using Suc.IH [OF ys(1)] by (simp add: dec_iff)
  qed
next
  assume "length xs = n \<and> list_all ok xs \<and> bs = concat (map enc xs) @ rest"
  then show "repeatM n dec bs = (Inr xs, rest)" using dec_list by blast
qed

end

section \<open>The primitive readers and writers meet the contract\<close>

lemma ReadFull_append [goM_simps]: "length w = n \<Longrightarrow> ReadFull n (w @ rest) = (Inr w, rest)"
  by (simp add: ReadFull_def)

lemma ReadFull_short:
  "length r < n \<Longrightarrow> ReadFull n r = (Inl (if r = [] then EOF else UnexpectedEOF), [])"
  by (simp add: ReadFull_def)

lemma ReadFull_Inr: "ReadFull n r = (Inr w, rest) \<longleftrightarrow> length w = n \<and> r = w @ rest"
  by (auto simp: ReadFull_def)

lemma Uint8_Inr: "Uint8 r = (Inr v, rest) \<longleftrightarrow> r = PutUint8 v @ rest"
  by (auto simp: Uint8_def bindM_eq_Inr ReadFull_Inr returnM_apply PutUint8_def length_Suc_conv
      intro!: exI [of _ "[v]"])

lemma read_word_Inr:
  fixes v :: "'a::len word"
  assumes len: "(256::nat) ^ k = 2 ^ LENGTH('a)"
  shows "bindM (ReadFull k) (\<lambda>buf. returnM (of_nat (le_nat buf))) r = (Inr v, rest)
    \<longleftrightarrow> r = le_bytes k (unat v) @ rest"
proof
  assume "bindM (ReadFull k) (\<lambda>buf. returnM (of_nat (le_nat buf))) r = (Inr v, rest)"
  then obtain w where w: "length w = k" "r = w @ rest" "v = of_nat (le_nat w)"
    by (auto simp: bindM_eq_Inr ReadFull_Inr returnM_apply)
  then have "le_nat w < 2 ^ LENGTH('a)"
    using le_nat_bound [of w] len by simp
  then have "unat v = le_nat w"
    using w by (simp add: unat_of_nat)
  then show "r = le_bytes k (unat v) @ rest"
    using w le_bytes_le_nat [of w] by simp
next
  assume r: "r = le_bytes k (unat v) @ rest"
  have "unat v < 256 ^ k"
    unfolding len by (rule unsigned_less)
  then have "of_nat (le_nat (le_bytes k (unat v))) = v"
    by (simp add: le_nat_le_bytes_less)
  then show "bindM (ReadFull k) (\<lambda>buf. returnM (of_nat (le_nat buf))) r = (Inr v, rest)"
    by (simp add: r bindM_apply ReadFull_append returnM_apply)
qed

lemma Uint16_Inr: "Uint16 r = (Inr v, rest) \<longleftrightarrow> r = PutUint16 v @ rest"
  unfolding Uint16_def PutUint16_def by (rule read_word_Inr) simp

lemma Uint32_Inr: "Uint32 r = (Inr v, rest) \<longleftrightarrow> r = PutUint32 v @ rest"
  unfolding Uint32_def PutUint32_def by (rule read_word_Inr) simp

lemma Uint64_Inr: "Uint64 r = (Inr v, rest) \<longleftrightarrow> r = PutUint64 v @ rest"
  unfolding Uint64_def PutUint64_def by (rule read_word_Inr) simp

interpretation u8: canonical_codec PutUint8 Uint8 "\<lambda>_. True"
  by unfold_locales (simp_all add: Uint8_Inr)

interpretation u16: canonical_codec PutUint16 Uint16 "\<lambda>_. True"
  by unfold_locales (simp_all add: Uint16_Inr)

interpretation u32: canonical_codec PutUint32 Uint32 "\<lambda>_. True"
  by unfold_locales (simp_all add: Uint32_Inr)

interpretation u64: canonical_codec PutUint64 Uint64 "\<lambda>_. True"
  by unfold_locales (simp_all add: Uint64_Inr)

lemmas read_prim_Inr = Uint8_Inr Uint16_Inr Uint32_Inr Uint64_Inr ReadFull_Inr

text \<open>The discriminant of a variable length integer is a function of its value.\<close>

lemma unat_ucast_less:
  "unat (v :: 'b::len word) < 2 ^ LENGTH('a::len) \<Longrightarrow> unat (ucast v :: 'a word) = unat v"
  by (simp add: unsigned_ucast_eq take_bit_nat_eq_self)

lemma unat_ucast_wide:
  "LENGTH('b::len) \<le> LENGTH('a::len) \<Longrightarrow> unat (ucast (v :: 'b word) :: 'a word) = unat v"
  by (rule unat_ucast_less) (rule less_le_trans [OF unsigned_less], simp)

lemma ucast_less_inv:
  fixes v :: "'b::len word"
  assumes "unat v < 2 ^ LENGTH('a::len)" "LENGTH('a) \<le> LENGTH('b)"
  shows "ucast (ucast v :: 'a word) = v"
  using assms by (simp add: word_unat_eq_iff unat_ucast_wide unat_ucast_less)

lemma ucast_wide_inv:
  "LENGTH('b::len) \<le> LENGTH('a::len) \<Longrightarrow> ucast (ucast (v :: 'b word) :: 'a word) = v"
  by (simp add: word_unat_eq_iff unat_ucast_wide unat_ucast_less)

lemma ReadVarInt_WriteVarInt: "ReadVarInt (WriteVarInt v @ rest) = (Inr v, rest)"
proof -
  consider (one) "unat v < 0xfd" | (two) "0xfd \<le> unat v" "unat v \<le> 0xffff"
    | (four) "0xffff < unat v" "unat v \<le> 0xffffffff" | (eight) "0xffffffff < unat v"
    by linarith
  then show ?thesis
  proof cases
    case one
    have "ucast v < (0xfd :: byte)"
      using one by (simp add: word_less_nat_alt unat_ucast_less)
    then have "ucast v \<noteq> (0xff :: byte)" "ucast v \<noteq> (0xfe :: byte)" "ucast v \<noteq> (0xfd :: byte)"
      by (auto simp: word_less_nat_alt)
    moreover have "ucast (ucast v :: byte) = v"
      using one by (intro ucast_less_inv) simp_all
    moreover have "v < 0xfd" using one by (simp add: word_less_nat_alt)
    ultimately show ?thesis
      by (simp add: ReadVarInt_def WriteVarInt_def bindM_apply u8.dec_enc returnM_apply)
  next
    case two
    have "ucast (ucast v :: 16 word) = v"
      using two by (intro ucast_less_inv) simp_all
    moreover have "\<not> v < 0xfd" "v \<le> 0xffff"
      using two by (simp_all add: word_less_nat_alt word_le_nat_alt)
    ultimately show ?thesis
      by (simp add: ReadVarInt_def WriteVarInt_def bindM_apply u8.dec_enc u16.dec_enc returnM_apply)
  next
    case four
    have "ucast (ucast v :: 32 word) = v"
      using four by (intro ucast_less_inv) simp_all
    moreover have "\<not> v < 0xfd" "\<not> v < 0x10000" "\<not> v \<le> 0xffff" "v \<le> 0xffffffff"
      using four by (simp_all add: word_less_nat_alt word_le_nat_alt)
    ultimately show ?thesis
      by (simp add: ReadVarInt_def WriteVarInt_def bindM_apply u8.dec_enc u32.dec_enc returnM_apply)
  next
    case eight
    then have "\<not> v < 0xfd" "\<not> v \<le> 0xffff" "\<not> v \<le> 0xffffffff" "\<not> v < 0x100000000"
      by (simp_all add: word_less_nat_alt word_le_nat_alt)
    then show ?thesis
      by (simp add: ReadVarInt_def WriteVarInt_def bindM_apply u8.dec_enc u64.dec_enc returnM_apply)
  qed
qed

lemma ReadVarInt_canonical:
  assumes "ReadVarInt bs = (Inr v, rest)"
  shows "bs = WriteVarInt v @ rest"
proof -
  from assms obtain d r where d: "bs = PutUint8 d @ r" and
    k: "(if d = 0xff then
       bindM Uint64 (\<lambda>sv. if sv < 0x100000000 then raiseM MessageError else returnM sv)
     else if d = 0xfe then
       bindM Uint32 (\<lambda>sv. let rv = ucast sv :: 64 word in
         if rv < 0x10000 then raiseM MessageError else returnM rv)
     else if d = 0xfd then
       bindM Uint16 (\<lambda>sv. let rv = ucast sv :: 64 word in
         if rv < 0xfd then raiseM MessageError else returnM rv)
     else returnM (ucast d)) r = (Inr v, rest)"
    unfolding ReadVarInt_def bindM_eq_Inr Uint8_Inr by blast
  consider "d = 0xff" | "d = 0xfe" | "d = 0xfd" | "d \<noteq> 0xff" "d \<noteq> 0xfe" "d \<noteq> 0xfd" by blast
  then show ?thesis
  proof cases
    case 1
    with k have "\<not> v < 0x100000000" "r = PutUint64 v @ rest"
      by (auto simp: bindM_eq_Inr Uint64_Inr returnM_apply raiseM_apply split: if_splits)
    then show ?thesis
      using 1 d by (auto simp: WriteVarInt_def word_less_nat_alt word_le_nat_alt)
  next
    case 2
    with k obtain sv where sv: "v = ucast sv" "\<not> v < 0x10000" "r = PutUint32 sv @ rest"
      by (auto simp: bindM_eq_Inr Uint32_Inr returnM_apply raiseM_apply Let_def split: if_splits)
    have "unat v < 2 ^ 32" using unsigned_less [of sv, where ?'a = nat] sv(1)
      by (simp add: unat_ucast_wide)
    moreover have "ucast v = sv" using sv(1) by (simp add: ucast_wide_inv)
    ultimately show ?thesis
      using 2 d sv(2,3) by (auto simp: WriteVarInt_def word_less_nat_alt word_le_nat_alt)
  next
    case 3
    with k obtain sv where sv: "v = ucast sv" "\<not> v < 0xfd" "r = PutUint16 sv @ rest"
      by (auto simp: bindM_eq_Inr Uint16_Inr returnM_apply raiseM_apply Let_def split: if_splits)
    have "unat v < 2 ^ 16" using unsigned_less [of sv, where ?'a = nat] sv(1)
      by (simp add: unat_ucast_wide)
    moreover have "ucast v = sv" using sv(1) by (simp add: ucast_wide_inv)
    ultimately show ?thesis
      using 3 d sv(2,3) by (auto simp: WriteVarInt_def word_less_nat_alt word_le_nat_alt)
  next
    case 4
    with k have v: "v = ucast d" "r = rest" by (simp_all add: returnM_apply)
    have "unat d \<noteq> 0xff" "unat d \<noteq> 0xfe" "unat d \<noteq> 0xfd"
      using 4 by (simp_all add: word_unat_eq_iff)
    then have "unat d < 0xfd"
      using unat_byte_less [of d] by linarith
    then have "unat v < 0xfd"
      using v(1) by (simp add: unat_ucast_wide)
    moreover have "ucast v = d" using v(1) by (simp add: ucast_wide_inv)
    ultimately show ?thesis
      using d v(2) by (simp add: WriteVarInt_def word_less_nat_alt)
  qed
qed

interpretation varint: canonical_codec WriteVarInt ReadVarInt "\<lambda>_. True"
  by unfold_locales (simp_all add: ReadVarInt_WriteVarInt ReadVarInt_canonical)

lemma length_WriteVarInt: "length (WriteVarInt v) = VarIntSerializeSize v"
  by (simp add: WriteVarInt_def VarIntSerializeSize_def PutUint8_def PutUint16_def PutUint32_def
      PutUint64_def)

text \<open>Byte arrays with a length prefix, bounded by the caller or by the largest payload.\<close>

definition var_ok :: "nat \<Rightarrow> bytes \<Rightarrow> bool" where
  "var_ok m bs \<longleftrightarrow> length bs \<le> m \<and> length bs < 2 ^ 64"

lemma ReadVarBytes_Inr:
  "ReadVarBytes m r = (Inr bs, rest) \<longleftrightarrow> var_ok m bs \<and> r = WriteVarBytes bs @ rest"
proof
  assume "ReadVarBytes m r = (Inr bs, rest)"
  then obtain c where c: "r = WriteVarInt c @ bs @ rest" "unat c \<le> m" "length bs = unat c"
    by (auto simp: ReadVarBytes_def bindM_eq_Inr varint.dec_iff ReadFull_Inr raiseM_apply
        split: if_splits)
  moreover have "unat c < 2 ^ 64" using unsigned_less [of c, where ?'a = nat] by simp
  ultimately show "var_ok m bs \<and> r = WriteVarBytes bs @ rest"
    by (simp add: var_ok_def WriteVarBytes_def)
next
  assume a: "var_ok m bs \<and> r = WriteVarBytes bs @ rest"
  then have "unat (of_nat (length bs) :: 64 word) = length bs"
    by (simp add: var_ok_def unat_of_nat)
  then show "ReadVarBytes m r = (Inr bs, rest)"
    using a by (simp add: var_ok_def ReadVarBytes_def WriteVarBytes_def bindM_apply varint.dec_enc
        ReadFull_append)
qed

interpretation varbytes: canonical_codec WriteVarBytes "ReadVarBytes m" "var_ok m" for m
  by unfold_locales (simp_all add: ReadVarBytes_Inr)

lemma ReadVarString_eq: "ReadVarString = ReadVarBytes MaxMessagePayload"
  by (simp add: ReadVarString_def ReadVarBytes_def)

lemma WriteVarString_eq: "WriteVarString = WriteVarBytes"
  by (simp add: fun_eq_iff WriteVarString_def WriteVarBytes_def)

interpretation varstring: canonical_codec WriteVarString ReadVarString "var_ok MaxMessagePayload"
  unfolding ReadVarString_eq WriteVarString_eq by (rule varbytes.canonical_codec_axioms)

lemma length_WriteVarBytes:
  "length (WriteVarBytes bs) = VarIntSerializeSize (of_nat (length bs)) + length bs"
  by (simp add: WriteVarBytes_def length_WriteVarInt)

text \<open>Typed elements: the kind of an element and the size its array types fix.\<close>

fun kind_of :: "element \<Rightarrow> element_kind" where
  "kind_of (ElInt16 _) = KInt16" | "kind_of (ElUint16 _) = KUint16"
| "kind_of (ElInt32 _) = KInt32" | "kind_of (ElUint32 _) = KUint32"
| "kind_of (ElInt64 _) = KInt64" | "kind_of (ElUint64 _) = KUint64" | "kind_of (ElBool _) = KBool"
| "kind_of (ElUint32Time _) = KUint32Time" | "kind_of (ElInt64Time _) = KInt64Time"
| "kind_of (ElBytes4 _) = KBytes4" | "kind_of (ElCommand _) = KCommand"
| "kind_of (ElBytes16 _) = KBytes16" | "kind_of (ElHash _) = KHash"
| "kind_of (ElHash64 _) = KHash64" | "kind_of (ElHash33 _) = KHash33"
| "kind_of (ElServiceFlag _) = KServiceFlag" | "kind_of (ElInvType _) = KInvType"
| "kind_of (ElBitcoinNet _) = KBitcoinNet" | "kind_of (ElBloomUpdateType _) = KBloomUpdateType"
| "kind_of (ElRejectCode _) = KRejectCode"

fun element_ok :: "element \<Rightarrow> bool" where
  "element_ok (ElBytes4 e) = (length e = 4)"
| "element_ok (ElCommand e) = (length e = CommandSize)"
| "element_ok (ElBytes16 e) = (length e = 16)"
| "element_ok (ElHash e) = (length e = HashSize)"
| "element_ok (ElHash64 e) = (length e = Hash64Size)"
| "element_ok (ElHash33 e) = (length e = Hash33Size)"
| "element_ok _ = True"

lemma readElement_writeElement:
  "element_ok e \<Longrightarrow> writeElement e = Some w \<Longrightarrow> readElement (kind_of e) (w @ rest) = (Inr e, rest)"
  by (cases e) (auto simp: bindM_apply returnM_apply u8.dec_enc u16.dec_enc u32.dec_enc u64.dec_enc
      ReadFull_append)

lemma readElements_writeElements:
  "list_all element_ok es \<Longrightarrow> writeElements es = Some w \<Longrightarrow>
   readElements (map kind_of es) (w @ rest) = (Inr es, rest)"
proof (induction es arbitrary: w)
  case Nil
  then show ?case by (simp add: returnM_apply)
next
  case (Cons e es)
  then obtain w1 w2 where w: "writeElement e = Some w1" "writeElements es = Some w2" "w = w1 @ w2"
    by (auto split: option.splits)
  then have "readElement (kind_of e) (w1 @ w2 @ rest) = (Inr e, w2 @ rest)"
    using Cons.prems by (intro readElement_writeElement) simp_all
  moreover have "readElements (map kind_of es) (w2 @ rest) = (Inr es, rest)"
    using Cons w by simp
  ultimately show ?case
    using w(3) by (simp add: bindM_apply returnM_apply)
qed

section \<open>Properties\<close>

text \<open>
  C26: reading a variable length integer succeeds with value \<open>v\<close> exactly on the input that starts
  with the bytes \<^verbatim>\<open>WriteVarInt\<close> emits for \<open>v\<close>, and it consumes exactly those bytes, whose
  number is what \<^verbatim>\<open>VarIntSerializeSize\<close> announces.  So the encoding round-trips and every
  non-canonical encoding is rejected.
\<close>

theorem varint_canonical_roundtrip:
  "(ReadVarInt bs = (Inr v, rest) \<longleftrightarrow> bs = WriteVarInt v @ rest) \<and>
   length (WriteVarInt v) = VarIntSerializeSize v"
  by (simp add: varint.dec_iff length_WriteVarInt)

text \<open>
  \<^verbatim>\<open>ReadVarBytes\<close> accepts exactly the length-prefixed encodings of the byte arrays
  within the limit it is given, and returns the array \<^verbatim>\<open>WriteVarBytes\<close> was given; a longer
  announced length is refused with a message error without reading the array.
\<close>

theorem varbytes_roundtrip_bounded:
  "(ReadVarBytes m r = (Inr bs, rest) \<longleftrightarrow>
      length bs \<le> m \<and> length bs < 2 ^ 64 \<and> r = WriteVarBytes bs @ rest) \<and>
   ReadVarBytes m (WriteVarInt c @ s) =
     (if unat c > m then (Inl MessageError, s) else ReadFull (unat c) s)"
proof
  show "ReadVarBytes m r = (Inr bs, rest) \<longleftrightarrow>
      length bs \<le> m \<and> length bs < 2 ^ 64 \<and> r = WriteVarBytes bs @ rest"
    by (simp add: ReadVarBytes_Inr var_ok_def)
  show "ReadVarBytes m (WriteVarInt c @ s) =
     (if unat c > m then (Inl MessageError, s) else ReadFull (unat c) s)"
    by (simp add: ReadVarBytes_def bindM_apply varint.dec_enc raiseM_apply)
qed

text \<open>
  a sequence of typed elements, of any of the eighteen types that can be written, whose
  fixed-size arrays have their declared sizes, is read back by \<^verbatim>\<open>readElements\<close> from what
  \<^verbatim>\<open>writeElements\<close> wrote, and the reader stops right behind it.
\<close>

theorem elements_roundtrip:
  "list_all element_ok es \<Longrightarrow> writeElements es = Some w \<Longrightarrow>
   readElements (map kind_of es) (w @ rest) = (Inr es, rest)"
  by (rule readElements_writeElements)

theorem elements_roundtrip_witness:
  "readElements [KUint16, KBool, KBytes4, KInt32]
     ([0x34, 0x12, 1, 1, 2, 3, 4, 0xfe, 0xff, 0xff, 0xff] @ [9])
   = (Inr [ElUint16 0x1234, ElBool True, ElBytes4 [1, 2, 3, 4], ElInt32 0xfffffffe], [9])"
proof -
  let ?es = "[ElUint16 0x1234, ElBool True, ElBytes4 [1, 2, 3, 4], ElInt32 0xfffffffe]"
  have "list_all element_ok ?es" by simp
  moreover have "writeElements ?es = Some [0x34, 0x12, 1, 1, 2, 3, 4, 0xfe, 0xff, 0xff, 0xff]"
    by (simp add: PutUint16_def PutUint32_def PutUint8_def le_bytes_numeral)
  ultimately show ?thesis
    using elements_roundtrip [of ?es _ "[9]"] by simp
qed

end
