(* ===== verification/Go_Sha.thy ===== *)
theory Go_Sha
  imports Go_Prelude
begin

text \<open>
  The two hash functions of the Go standard library that the node uses,
  \<^verbatim>\<open>sha256.Sum256\<close> and \<^verbatim>\<open>sha1.Sum\<close>, as executable functions on bytes, and the
  helpers of \<^verbatim>\<open>src/chaincfg/chainhash/hashfuncs.go\<close> built on the first.
\<close>

unbundle bit_operations_syntax

section \<open>Blocks\<close>

definition be_bytes :: "nat \<Rightarrow> nat \<Rightarrow> bytes" where
  "be_bytes k n = rev (le_bytes k n)"

definition be_word :: "bytes \<Rightarrow> 32 word" where
  "be_word bs = of_nat (le_nat (rev bs))"

text \<open>A one bit, zeros, and the length in bits fill the message up to a multiple of 64 bytes.\<close>

definition sha_pad :: "bytes \<Rightarrow> bytes" where
  "sha_pad msg = msg @ [0x80] @ replicate ((119 - length msg mod 64) mod 64) 0
     @ be_bytes 8 (8 * length msg)"

function sha_chunks :: "nat \<Rightarrow> 'a list \<Rightarrow> 'a list list" where
  "sha_chunks k xs = (if k = 0 \<or> length xs < k then [] else take k xs # sha_chunks k (drop k xs))"
  by pat_completeness auto
termination by (relation "measure (\<lambda>(k, xs). length xs)") auto

section \<open>SHA-256\<close>

text \<open>The round constants, in decimal.\<close>

definition sha256_K :: "32 word list" where
  "sha256_K = [
    1116352408, 1899447441, 3049323471, 3921009573, 961987163, 1508970993, 2453635748, 2870763221,
    3624381080, 310598401, 607225278, 1426881987, 1925078388, 2162078206, 2614888103, 3248222580,
    3835390401, 4022224774, 264347078, 604807628, 770255983, 1249150122, 1555081692, 1996064986,
    2554220882, 2821834349, 2952996808, 3210313671, 3336571891, 3584528711, 113926993, 338241895,
    666307205, 773529912, 1294757372, 1396182291, 1695183700, 1986661051, 2177026350, 2456956037,
    2730485921, 2820302411, 3259730800, 3345764771, 3516065817, 3600352804, 4094571909, 275423344,
    430227734, 506948616, 659060556, 883997877, 958139571, 1322822218, 1537002063, 1747873779,
    1955562222, 2024104815, 2227730452, 2361852424, 2428436474, 2756734187, 3204031479, 3329325298]"

definition sha256_init :: "32 word list" where
  "sha256_init = [0x6a09e667, 0xbb67ae85, 0x3c6ef372, 0xa54ff53a,
     0x510e527f, 0x9b05688c, 0x1f83d9ab, 0x5be0cd19]"

text \<open>The message schedule is kept with the latest word first.\<close>

fun sha256_expand :: "nat \<Rightarrow> 32 word list \<Rightarrow> 32 word list" where
  "sha256_expand 0 w = rev w"
| "sha256_expand (Suc n) w =
     (let v1 = w ! 1; t1 = word_rotr 17 v1 XOR word_rotr 19 v1 XOR drop_bit 10 v1;
          v2 = w ! 14; t2 = word_rotr 7 v2 XOR word_rotr 18 v2 XOR drop_bit 3 v2
      in sha256_expand n ((t1 + w ! 6 + t2 + w ! 15) # w))"

fun sha256_round :: "32 word list \<Rightarrow> 32 word \<times> 32 word \<Rightarrow> 32 word list" where
  "sha256_round [a, b, c, d, e, f, g, h] (k, w) =
     (let t1 = h + (word_rotr 6 e XOR word_rotr 11 e XOR word_rotr 25 e)
               + ((e AND f) XOR (NOT e AND g)) + k + w;
          t2 = (word_rotr 2 a XOR word_rotr 13 a XOR word_rotr 22 a)
               + ((a AND b) XOR (a AND c) XOR (b AND c))
      in [t1 + t2, a, b, c, d + t1, e, f, g])"
| "sha256_round st kw = st"

definition sha256_block :: "32 word list \<Rightarrow> bytes \<Rightarrow> 32 word list" where
  "sha256_block st block =
     (let w = sha256_expand 48 (rev (map be_word (sha_chunks 4 block)))
      in map2 (+) st (foldl sha256_round st (zip sha256_K w)))"

definition Sum256 :: "bytes \<Rightarrow> bytes" where
  "Sum256 msg = concat (map (\<lambda>w. be_bytes 4 (unat w))
     (foldl sha256_block sha256_init (sha_chunks 64 (sha_pad msg))))"

section \<open>SHA-1\<close>

definition sha1_init :: "32 word list" where
  "sha1_init = [0x67452301, 0xefcdab89, 0x98badcfe, 0x10325476, 0xc3d2e1f0]"

fun sha1_expand :: "nat \<Rightarrow> 32 word list \<Rightarrow> 32 word list" where
  "sha1_expand 0 w = rev w"
| "sha1_expand (Suc n) w =
     sha1_expand n (word_rotl 1 (w ! 2 XOR w ! 7 XOR w ! 13 XOR w ! 15) # w)"

fun sha1_round :: "32 word list \<Rightarrow> nat \<times> 32 word \<Rightarrow> 32 word list" where
  "sha1_round [a, b, c, d, e] (i, w) =
     (let (f, k) = (if i < 20 then ((b AND c) OR (NOT b AND d), 0x5a827999)
                    else if i < 40 then (b XOR c XOR d, 0x6ed9eba1)
                    else if i < 60 then (((b OR c) AND d) OR (b AND c), 0x8f1bbcdc)
                    else (b XOR c XOR d, 0xca62c1d6))
      in [word_rotl 5 a + f + e + w + k, a, word_rotl 30 b, c, d])"
| "sha1_round st iw = st"

definition sha1_block :: "32 word list \<Rightarrow> bytes \<Rightarrow> 32 word list" where
  "sha1_block st block =
     (let w = sha1_expand 64 (rev (map be_word (sha_chunks 4 block)))
      in map2 (+) st (foldl sha1_round st (zip [0..<80] w)))"

definition Sha1Sum :: "bytes \<Rightarrow> bytes" where
  "Sha1Sum msg = concat (map (\<lambda>w. be_bytes 4 (unat w))
     (foldl sha1_block sha1_init (sha_chunks 64 (sha_pad msg))))"

section \<open>The helpers of chainhash\<close>

definition HashB :: "bytes \<Rightarrow> bytes" where
  "HashB b = Sum256 b"

definition HashH :: "bytes \<Rightarrow> bytes" where
  "HashH b = Sum256 b"

definition DoubleHashB :: "bytes \<Rightarrow> bytes" where
  "DoubleHashB b = (let first = Sum256 b in Sum256 first)"

definition DoubleHashH :: "bytes \<Rightarrow> bytes" where
  "DoubleHashH b = (let first = Sum256 b in Sum256 first)"

section \<open>Sizes\<close>

lemma length_be_bytes [simp]: "length (be_bytes k n) = k"
  by (simp add: be_bytes_def)

lemma length_sha256_round: "length st = 8 \<Longrightarrow> length (sha256_round st kw) = 8"
  by (cases "(st, kw)" rule: sha256_round.cases) (simp_all add: Let_def)

lemma length_sha1_round: "length st = 5 \<Longrightarrow> length (sha1_round st iw) = 5"
  by (cases "(st, iw)" rule: sha1_round.cases) (simp_all add: Let_def)

lemma length_foldl:
  "(\<And>st x. length st = n \<Longrightarrow> length (f st x) = n) \<Longrightarrow> length st = n \<Longrightarrow> length (foldl f st xs) = n"
  by (induction xs arbitrary: st) simp_all

lemma length_sha256_block: "length st = 8 \<Longrightarrow> length (sha256_block st b) = 8"
  by (simp add: sha256_block_def length_foldl [OF length_sha256_round] Let_def)

lemma length_sha1_block: "length st = 5 \<Longrightarrow> length (sha1_block st b) = 5"
  by (simp add: sha1_block_def length_foldl [OF length_sha1_round] Let_def)

lemma length_Sum256 [simp]: "length (Sum256 msg) = 32"
proof -
  have "length (foldl sha256_block sha256_init (sha_chunks 64 (sha_pad msg))) = 8"
    by (rule length_foldl [OF length_sha256_block]) (simp_all add: sha256_init_def)
  then show ?thesis by (simp add: Sum256_def length_concat comp_def sum_list_triv)
qed

lemma length_Sha1Sum [simp]: "length (Sha1Sum msg) = 20"
proof -
  have "length (foldl sha1_block sha1_init (sha_chunks 64 (sha_pad msg))) = 5"
    by (rule length_foldl [OF length_sha1_block]) (simp_all add: sha1_init_def)
  then show ?thesis by (simp add: Sha1Sum_def length_concat comp_def sum_list_triv)
qed

lemma length_DoubleHash [simp]: "length (DoubleHashB b) = 32" "length (DoubleHashH b) = 32"
  by (simp_all add: DoubleHashB_def DoubleHashH_def)

declare sha_chunks.simps [simp del]

end
