(* ===== verification/Wire_Tx.thy ===== *)
theory Wire_Tx
  imports Wire_Codec Go_Sha
begin

text \<open>
  Transactions and their encodings (\<^verbatim>\<open>src/wire/msgtx.go\<close>).

  A 64-bit amount, a 32-bit version, sequence number and lock time are words.  A hash is the
  list of its 32 bytes.  A \<^verbatim>\<open>nil\<close> slice and an empty slice are both the empty list.  The decoder
  models the move of every script into one contiguous buffer: scripts become slices of that
  buffer, and a slice expression beyond the end of the buffer is the panic \<open>WirePanic\<close>.
\<close>

section \<open>Types\<close>

datatype MessageEncoding = BaseEncoding | WitnessEncoding

record OutPoint =
  Hash :: bytes
  Index :: "32 word"

record TxIn =
  PreviousOutPoint :: OutPoint
  SignatureScript :: bytes
  Witness :: "bytes list"
  Sequence :: "32 word"

record TxOut =
  Value :: "64 word"
  PkScript :: bytes

record MsgTx =
  Version :: "32 word"
  TxIns :: "TxIn list"
  TxOuts :: "TxOut list"
  LockTime :: "32 word"

definition MaxTxInSequenceNum :: "32 word" where "MaxTxInSequenceNum = 0xffffffff"
definition MaxPrevOutIndex :: "32 word" where "MaxPrevOutIndex = 0xffffffff"
definition SequenceLockTimeDisabled :: "32 word" where "SequenceLockTimeDisabled = push_bit 31 1"
definition SequenceLockTimeIsSeconds :: "32 word" where "SequenceLockTimeIsSeconds = push_bit 22 1"
definition SequenceLockTimeMask :: "32 word" where "SequenceLockTimeMask = 0x0000ffff"
definition SequenceLockTimeGranularity :: nat where "SequenceLockTimeGranularity = 9"
definition minTxInPayload :: nat where "minTxInPayload = 9 + HashSize"
definition maxTxInPerMessage :: nat where
  "maxTxInPerMessage = (MaxMessagePayload div minTxInPayload) + 1"
definition MinTxOutPayload :: nat where "MinTxOutPayload = 9"
definition maxTxOutPerMessage :: nat where
  "maxTxOutPerMessage = (MaxMessagePayload div MinTxOutPayload) + 1"
definition minTxPayload :: nat where "minTxPayload = 10"
definition maxWitnessItemsPerInput :: nat where "maxWitnessItemsPerInput = 500000"
definition maxWitnessItemSize :: nat where "maxWitnessItemSize = 11000"
definition witessMarkerBytes :: bytes where "witessMarkerBytes = [0x00, 0x01]"

definition NewOutPoint :: "bytes \<Rightarrow> 32 word \<Rightarrow> OutPoint" where
  "NewOutPoint hash index = \<lparr>Hash = hash, Index = index\<rparr>"

definition NewTxIn :: "OutPoint \<Rightarrow> bytes \<Rightarrow> bytes list \<Rightarrow> TxIn" where
  "NewTxIn prevOut signatureScript witness =
     \<lparr>PreviousOutPoint = prevOut, SignatureScript = signatureScript, Witness = witness,
      Sequence = MaxTxInSequenceNum\<rparr>"

definition NewTxOut :: "64 word \<Rightarrow> bytes \<Rightarrow> TxOut" where
  "NewTxOut value pkScript = \<lparr>Value = value, PkScript = pkScript\<rparr>"

definition NewMsgTx :: "32 word \<Rightarrow> MsgTx" where
  "NewMsgTx version = \<lparr>Version = version, TxIns = [], TxOuts = [], LockTime = 0\<rparr>"

definition AddTxIn :: "TxIn \<Rightarrow> MsgTx \<Rightarrow> MsgTx" where
  "AddTxIn ti msg = msg\<lparr>TxIns := TxIns msg @ [ti]\<rparr>"

definition AddTxOut :: "TxOut \<Rightarrow> MsgTx \<Rightarrow> MsgTx" where
  "AddTxOut to msg = msg\<lparr>TxOuts := TxOuts msg @ [to]\<rparr>"

section \<open>Sizes\<close>

definition TxIn_SerializeSize :: "TxIn \<Rightarrow> nat" where
  "TxIn_SerializeSize t =
     40 + VarIntSerializeSize (of_nat (length (SignatureScript t))) + length (SignatureScript t)"

definition TxWitness_SerializeSize :: "bytes list \<Rightarrow> nat" where
  "TxWitness_SerializeSize t =
     foldl (\<lambda>n witItem. n + VarIntSerializeSize (of_nat (length witItem)) + length witItem)
       (VarIntSerializeSize (of_nat (length t))) t"

definition TxOut_SerializeSize :: "TxOut \<Rightarrow> nat" where
  "TxOut_SerializeSize t =
     8 + VarIntSerializeSize (of_nat (length (PkScript t))) + length (PkScript t)"

definition HasWitness :: "MsgTx \<Rightarrow> bool" where
  "HasWitness msg = list_ex (\<lambda>txIn. length (Witness txIn) \<noteq> 0) (TxIns msg)"

definition baseSize :: "MsgTx \<Rightarrow> nat" where
  "baseSize msg =
     (let n = 8 + VarIntSerializeSize (of_nat (length (TxIns msg)))
                + VarIntSerializeSize (of_nat (length (TxOuts msg)));
          n = foldl (\<lambda>n txIn. n + TxIn_SerializeSize txIn) n (TxIns msg)
      in foldl (\<lambda>n txOut. n + TxOut_SerializeSize txOut) n (TxOuts msg))"

definition MsgTx_SerializeSize :: "MsgTx \<Rightarrow> nat" where
  "MsgTx_SerializeSize msg =
     (let n = baseSize msg in
      if HasWitness msg
      then foldl (\<lambda>n txin. n + TxWitness_SerializeSize (Witness txin)) (n + 2) (TxIns msg)
      else n)"

definition MsgTx_SerializeSizeStripped :: "MsgTx \<Rightarrow> nat" where
  "MsgTx_SerializeSizeStripped msg = baseSize msg"

section \<open>Encoding\<close>

definition writeOutPoint :: "OutPoint \<Rightarrow> bytes" where
  "writeOutPoint op = Hash op @ PutUint32 (Index op)"

definition writeTxIn :: "TxIn \<Rightarrow> bytes" where
  "writeTxIn ti = writeOutPoint (PreviousOutPoint ti) @ WriteVarBytes (SignatureScript ti)
                    @ PutUint32 (Sequence ti)"

definition WriteTxOut :: "TxOut \<Rightarrow> bytes" where
  "WriteTxOut to = PutUint64 (Value to) @ WriteVarBytes (PkScript to)"

definition writeTxWitness :: "bytes list \<Rightarrow> bytes" where
  "writeTxWitness wit = WriteVarInt (of_nat (length wit)) @ concat (map WriteVarBytes wit)"

definition MsgTx_BtcEncode :: "MessageEncoding \<Rightarrow> MsgTx \<Rightarrow> bytes" where
  "MsgTx_BtcEncode enc msg =
     (let doWitness = (enc = WitnessEncoding \<and> HasWitness msg) in
      PutUint32 (Version msg)
      @ (if doWitness then witessMarkerBytes else [])
      @ WriteVarInt (of_nat (length (TxIns msg)))
      @ concat (map writeTxIn (TxIns msg))
      @ WriteVarInt (of_nat (length (TxOuts msg)))
      @ concat (map WriteTxOut (TxOuts msg))
      @ (if doWitness then concat (map (\<lambda>ti. writeTxWitness (Witness ti)) (TxIns msg)) else [])
      @ PutUint32 (LockTime msg))"

definition MsgTx_Serialize :: "MsgTx \<Rightarrow> bytes" where
  "MsgTx_Serialize msg = MsgTx_BtcEncode WitnessEncoding msg"

definition MsgTx_SerializeNoWitness :: "MsgTx \<Rightarrow> bytes" where
  "MsgTx_SerializeNoWitness msg = MsgTx_BtcEncode BaseEncoding msg"

definition TxHash :: "MsgTx \<Rightarrow> bytes" where
  "TxHash msg = DoubleHashH (MsgTx_SerializeNoWitness msg)"

definition WitnessHash :: "MsgTx \<Rightarrow> bytes" where
  "WitnessHash msg =
     (if HasWitness msg then DoubleHashH (MsgTx_Serialize msg) else TxHash msg)"

text \<open>\<^verbatim>\<open>MsgTx.Copy\<close> builds every part anew; a copied empty script is \<^verbatim>\<open>nil\<close>.\<close>

definition TxIn_copy :: "TxIn \<Rightarrow> TxIn" where
  "TxIn_copy oldTxIn =
     \<lparr>PreviousOutPoint = \<lparr>Hash = Hash (PreviousOutPoint oldTxIn),
                          Index = Index (PreviousOutPoint oldTxIn)\<rparr>,
      SignatureScript = (if length (SignatureScript oldTxIn) > 0 then SignatureScript oldTxIn else []),
      Witness = (if length (Witness oldTxIn) \<noteq> 0 then map (\<lambda>oldItem. oldItem) (Witness oldTxIn) else []),
      Sequence = Sequence oldTxIn\<rparr>"

definition TxOut_copy :: "TxOut \<Rightarrow> TxOut" where
  "TxOut_copy oldTxOut =
     \<lparr>Value = Value oldTxOut,
      PkScript = (if length (PkScript oldTxOut) > 0 then PkScript oldTxOut else [])\<rparr>"

definition MsgTx_Copy :: "MsgTx \<Rightarrow> MsgTx" where
  "MsgTx_Copy msg =
     \<lparr>Version = Version msg, TxIns = map TxIn_copy (TxIns msg), TxOuts = map TxOut_copy (TxOuts msg),
      LockTime = LockTime msg\<rparr>"

section \<open>Decoding\<close>

definition readOutPoint :: "OutPoint readM" where
  "readOutPoint = bindM (ReadFull HashSize) (\<lambda>h. bindM Uint32 (\<lambda>i.
     returnM \<lparr>Hash = h, Index = i\<rparr>))"

definition readScript :: "nat \<Rightarrow> bytes readM" where
  "readScript maxAllowed = bindM ReadVarInt (\<lambda>count.
     if unat count > maxAllowed then raiseM MessageError else ReadFull (unat count))"

definition readTxIn :: "TxIn readM" where
  "readTxIn = bindM readOutPoint (\<lambda>op. bindM (readScript MaxMessagePayload) (\<lambda>script.
     bindM Uint32 (\<lambda>seq.
     returnM \<lparr>PreviousOutPoint = op, SignatureScript = script, Witness = [], Sequence = seq\<rparr>)))"

definition readTxOut :: "TxOut readM" where
  "readTxOut = bindM Uint64 (\<lambda>value. bindM (readScript MaxMessagePayload) (\<lambda>script.
     returnM \<lparr>Value = value, PkScript = script\<rparr>))"

text \<open>The body of the loop over the inputs that reads their witnesses.\<close>

definition readTxWitness :: "bytes list readM" where
  "readTxWitness = bindM ReadVarInt (\<lambda>witCount.
     if unat witCount > maxWitnessItemsPerInput then raiseM MessageError
     else repeatM (unat witCount) (readScript maxWitnessItemSize))"

text \<open>
  The contiguous buffer.  \<open>copyAt\<close> is \<^verbatim>\<open>copy(scripts[offset:], script)\<close>; \<open>relocate\<close> copies a
  sequence of scripts and returns the bounds of the slices that replace them.
\<close>

definition copyAt :: "bytes \<Rightarrow> nat \<Rightarrow> bytes \<Rightarrow> bytes" where
  "copyAt buf off src = take off buf @ take (length buf - off) src @ drop (off + length src) buf"

fun relocate :: "bytes \<Rightarrow> nat \<Rightarrow> bytes list \<Rightarrow> bytes \<times> nat \<times> (nat \<times> nat) list" where
  "relocate buf off [] = (buf, off, [])"
| "relocate buf off (s # ss) =
     (let e = off + length s; (buf', off', locs) = relocate (copyAt buf off s) e ss
      in (buf', off', (off, e) # locs))"

fun relocateTxIns ::
  "bytes \<Rightarrow> nat \<Rightarrow> TxIn list \<Rightarrow> bytes \<times> nat \<times> (nat \<times> nat) list list" where
  "relocateTxIns buf off [] = (buf, off, [])"
| "relocateTxIns buf off (ti # tis) =
     (let (buf1, off1, locs) = relocate buf off (SignatureScript ti # Witness ti);
          (buf2, off2, locss) = relocateTxIns buf1 off1 tis
      in (buf2, off2, locs # locss))"

definition sliceOf :: "bytes \<Rightarrow> nat \<times> nat \<Rightarrow> bytes" where
  "sliceOf buf loc = drop (fst loc) (take (snd loc) buf)"

definition sliceTxIn :: "bytes \<Rightarrow> TxIn \<Rightarrow> (nat \<times> nat) list \<Rightarrow> TxIn" where
  "sliceTxIn buf ti locs =
     ti\<lparr>SignatureScript := sliceOf buf (hd locs), Witness := map (sliceOf buf) (tl locs)\<rparr>"

definition sliceTxOut :: "bytes \<Rightarrow> TxOut \<Rightarrow> nat \<times> nat \<Rightarrow> TxOut" where
  "sliceTxOut buf to loc = to\<lparr>PkScript := sliceOf buf loc\<rparr>"

definition relocateScripts :: "nat \<Rightarrow> MsgTx \<Rightarrow> MsgTx readM" where
  "relocateScripts totalScriptSize msg =
     (let (buf1, off1, ilocs) = relocateTxIns (replicate totalScriptSize 0) 0 (TxIns msg);
          (scripts, off2, olocs) = relocate buf1 off1 (map PkScript (TxOuts msg))
      in if list_all (\<lambda>loc. snd loc \<le> totalScriptSize) (concat ilocs @ olocs)
         then returnM (msg\<lparr>TxIns := map2 (sliceTxIn scripts) (TxIns msg) ilocs,
                           TxOuts := map2 (sliceTxOut scripts) (TxOuts msg) olocs\<rparr>)
         else raiseM WirePanic)"

text \<open>
  \<^verbatim>\<open>totalScriptSize\<close> is summed up while reading; the limits on counts and sizes keep it far
  below the range of its 64 bits.
\<close>

definition totalScriptSize :: "TxIn list \<Rightarrow> TxOut list \<Rightarrow> bytes list list \<Rightarrow> nat" where
  "totalScriptSize ins outs wits =
     sum_list (map (\<lambda>ti. length (SignatureScript ti)) ins)
     + sum_list (map (\<lambda>to. length (PkScript to)) outs)
     + sum_list (map (\<lambda>w. sum_list (map length w)) wits)"

definition decodeBody :: "MessageEncoding \<Rightarrow> 32 word \<Rightarrow> byte \<Rightarrow> 64 word \<Rightarrow> MsgTx readM" where
  "decodeBody enc version flag count =
     (if unat count > maxTxInPerMessage then raiseM MessageError
      else bindM (repeatM (unat count) readTxIn) (\<lambda>txIns.
        bindM ReadVarInt (\<lambda>count.
          if unat count > maxTxOutPerMessage then raiseM MessageError
          else bindM (repeatM (unat count) readTxOut) (\<lambda>txOuts.
            bindM (if flag \<noteq> 0 \<and> enc = WitnessEncoding
                   then repeatM (length txIns) readTxWitness
                   else returnM (map Witness txIns)) (\<lambda>wits.
              bindM Uint32 (\<lambda>lockTime.
                relocateScripts (totalScriptSize txIns txOuts wits)
                  \<lparr>Version = version,
                   TxIns = map2 (\<lambda>ti w. ti\<lparr>Witness := w\<rparr>) txIns wits,
                   TxOuts = txOuts, LockTime = lockTime\<rparr>))))))"

definition MsgTx_BtcDecode :: "MessageEncoding \<Rightarrow> MsgTx readM" where
  "MsgTx_BtcDecode enc =
     bindM Uint32 (\<lambda>version. bindM ReadVarInt (\<lambda>count.
       if count = 0 \<and> enc = WitnessEncoding then
         bindM (ReadFull 1) (\<lambda>flag.
           if hd flag \<noteq> 0x01 then raiseM MessageError
           else bindM ReadVarInt (\<lambda>count. decodeBody enc version (hd flag) count))
       else decodeBody enc version 0x00 count))"

definition MsgTx_Deserialize :: "MsgTx readM" where
  "MsgTx_Deserialize = MsgTx_BtcDecode WitnessEncoding"

definition MsgTx_DeserializeNoWitness :: "MsgTx readM" where
  "MsgTx_DeserializeNoWitness = MsgTx_BtcDecode BaseEncoding"

section \<open>The contiguous buffer is transparent\<close>

lemma length_copyAt [simp]: "off + length s \<le> length buf \<Longrightarrow> length (copyAt buf off s) = length buf"
  by (simp add: copyAt_def)

lemma take_copyAt:
  "off + length s \<le> length buf \<Longrightarrow> take (off + length s) (copyAt buf off s) = take off buf @ s"
  by (simp add: copyAt_def)

lemma relocate_spec:
  assumes "relocate buf off ss = (buf', off', locs)"
    and "off + sum_list (map length ss) \<le> length buf"
  shows "length buf' = length buf \<and> off' = off + sum_list (map length ss) \<and>
    take off' buf' = take off buf @ concat ss \<and> length locs = length ss \<and>
    list_all (\<lambda>loc. snd loc \<le> off') locs \<and>
    (\<forall>b. take off' b = take off' buf' \<longrightarrow> map (sliceOf b) locs = ss)"
  using assms
proof (induction buf off ss arbitrary: locs rule: relocate.induct)
  case (1 buf off)
  then show ?case by simp
next
  case (2 buf off s ss)
  let ?e = "off + length s"
  from 2(2) obtain locs' where
    r: "relocate (copyAt buf off s) ?e ss = (buf', off', locs')" and l: "locs = (off, ?e) # locs'"
    by (auto simp: Let_def split: prod.splits)
  have le: "?e \<le> length buf" and room: "?e + sum_list (map length ss) \<le> length (copyAt buf off s)"
    using 2(3) by simp_all
  note IH = 2(1) [OF refl r room]
  have "take off' buf' = take ?e (copyAt buf off s) @ concat ss" using IH by blast
  then have t: "take off' buf' = take off buf @ s @ concat ss"
    by (simp only: take_copyAt [OF le] append_assoc)
  have "sliceOf b (off, ?e) = s" if b: "take off' b = take off' buf'" for b
  proof -
    have "take ?e b = take ?e (take off' b)" using IH by simp
    also have "\<dots> = take ?e (take off buf @ s @ concat ss)" using b t by simp
    also have "\<dots> = take off buf @ s" using le by simp
    finally show ?thesis using le by (simp add: sliceOf_def)
  qed
  then show ?case
    using IH le l t by (auto simp: list_all_iff)
qed

definition txin_scripts :: "TxIn \<Rightarrow> bytes list" where
  "txin_scripts ti = SignatureScript ti # Witness ti"

definition script_bytes :: "TxIn list \<Rightarrow> nat" where
  "script_bytes tis = sum_list (map (\<lambda>ti. sum_list (map length (txin_scripts ti))) tis)"

lemma relocateTxIns_spec:
  assumes "relocateTxIns buf off tis = (buf', off', locss)"
    and "off + script_bytes tis \<le> length buf"
  shows "length buf' = length buf \<and> off' = off + script_bytes tis \<and>
    take off buf' = take off buf \<and>
    list_all (list_all (\<lambda>loc. snd loc \<le> off')) locss \<and>
    (\<forall>b. take off' b = take off' buf' \<longrightarrow> map2 (sliceTxIn b) tis locss = tis)"
  using assms
proof (induction buf off tis arbitrary: locss rule: relocateTxIns.induct)
  case (1 buf off)
  then show ?case by (simp add: script_bytes_def)
next
  case (2 buf off ti tis)
  from 2(2) obtain buf1 off1 locs locss' where
    r1: "relocate buf off (txin_scripts ti) = (buf1, off1, locs)" and
    r2: "relocateTxIns buf1 off1 tis = (buf', off', locss')" and l: "locss = locs # locss'"
    by (auto simp: Let_def txin_scripts_def split: prod.splits)
  have room: "off + sum_list (map length (txin_scripts ti)) \<le> length buf"
    using 2(3) by (simp add: script_bytes_def)
  note S = relocate_spec [OF r1 room]
  have "off1 + script_bytes tis \<le> length buf1"
    using S 2(3) by (simp add: script_bytes_def)
  note IH = 2(1) [OF r1 [unfolded txin_scripts_def, symmetric] refl refl r2 this]
  have off1: "off \<le> off1" "off1 \<le> off'" using S IH by simp_all
  have "sliceTxIn b ti locs = ti" if b: "take off' b = take off' buf'" for b
  proof -
    have "take off1 b = take off1 (take off' b)" using off1 by (simp add: min_absorb2)
    also have "\<dots> = take off1 buf'" using b off1 by (simp add: min_absorb2)
    also have "\<dots> = take off1 buf1" using IH by simp
    finally have "map (sliceOf b) locs = txin_scripts ti" using S by blast
    moreover have "locs \<noteq> []" using S by (auto simp: txin_scripts_def)
    ultimately show ?thesis
      by (cases locs) (simp_all add: sliceTxIn_def txin_scripts_def)
  qed
  moreover have "take off buf' = take off buf"
  proof -
    have "take off buf' = take off (take off1 buf')" using off1 by (simp add: min_absorb2)
    also have "\<dots> = take off (take off1 buf1)" using IH by simp
    also have "take off1 buf1 = take off buf @ concat (txin_scripts ti)" using S by blast
    also have "take off (take off buf @ concat (txin_scripts ti)) = take off buf"
      using room by simp
    finally show ?thesis .
  qed
  ultimately show ?case
    using S IH l off1 by (auto simp: list_all_iff script_bytes_def)
qed

lemma relocateScripts_id:
  assumes "n = script_bytes (TxIns msg) + sum_list (map (\<lambda>to. length (PkScript to)) (TxOuts msg))"
  shows "relocateScripts n msg = returnM msg"
proof -
  obtain buf1 off1 ilocs where r1: "relocateTxIns (replicate n 0) 0 (TxIns msg) = (buf1, off1, ilocs)"
    by (metis prod_cases3)
  obtain scripts off2 olocs where
    r2: "relocate buf1 off1 (map PkScript (TxOuts msg)) = (scripts, off2, olocs)"
    by (metis prod_cases3)
  have S1: "length buf1 = n" "off1 = script_bytes (TxIns msg)"
      "list_all (list_all (\<lambda>loc. snd loc \<le> off1)) ilocs"
      "\<And>b. take off1 b = take off1 buf1 \<Longrightarrow> map2 (sliceTxIn b) (TxIns msg) ilocs = TxIns msg"
    using relocateTxIns_spec [OF r1] assms by auto
  then have "off1 + sum_list (map length (map PkScript (TxOuts msg))) \<le> length buf1"
    using assms by (simp add: comp_def)
  note S2 = relocate_spec [OF r2 this]
  have off2: "off1 \<le> off2" "off2 = n" using S2 S1 assms by (simp_all add: comp_def)
  have "take off1 scripts = take off1 (take off2 scripts)" using off2 by (simp add: min_absorb2)
  also have "take off2 scripts = take off1 buf1 @ concat (map PkScript (TxOuts msg))"
    using S2 by blast
  also have "take off1 (take off1 buf1 @ concat (map PkScript (TxOuts msg))) = take off1 buf1"
    using S1(1) off2 by simp
  finally have ins: "map2 (sliceTxIn scripts) (TxIns msg) ilocs = TxIns msg" by (rule S1)
  have "map (sliceOf scripts) olocs = map PkScript (TxOuts msg)" using S2 by blast
  then have outs: "map2 (sliceTxOut scripts) (TxOuts msg) olocs = TxOuts msg"
    by (auto simp: list_eq_iff_nth_eq sliceTxOut_def)
  have "list_all (\<lambda>loc. snd loc \<le> off2) olocs" using S2 by blast
  moreover have "list_all (\<lambda>loc. snd loc \<le> n) locs" if "locs \<in> set ilocs" for locs
    using S1(3) that off2 by (fastforce simp only: list_all_iff)
  ultimately have "list_all (\<lambda>loc. snd loc \<le> n) (concat ilocs @ olocs)"
    using off2(2) by (auto simp: list_all_iff)
  then show ?thesis
    using ins outs by (simp add: relocateScripts_def r1 r2)
qed

lemma script_bytes_map2:
  assumes "length wits = length tis"
  shows "script_bytes (map2 (\<lambda>ti w. ti\<lparr>Witness := w\<rparr>) tis wits) =
    sum_list (map (\<lambda>ti. length (SignatureScript ti)) tis)
    + sum_list (map (\<lambda>w. sum_list (map length w)) wits)"
  using assms
  by (induction tis wits rule: list_induct2') (simp_all add: script_bytes_def txin_scripts_def)

lemma relocate_decoded:
  assumes "length wits = length tis"
  shows "relocateScripts (totalScriptSize tis outs wits)
      \<lparr>Version = v, TxIns = map2 (\<lambda>ti w. ti\<lparr>Witness := w\<rparr>) tis wits, TxOuts = outs, LockTime = l\<rparr>
    = returnM \<lparr>Version = v, TxIns = map2 (\<lambda>ti w. ti\<lparr>Witness := w\<rparr>) tis wits, TxOuts = outs,
        LockTime = l\<rparr>"
  by (rule relocateScripts_id) (simp add: totalScriptSize_def script_bytes_map2 [OF assms])

section \<open>The parts of a transaction\<close>

definition outpoint_ok :: "OutPoint \<Rightarrow> bool" where
  "outpoint_ok op \<longleftrightarrow> length (Hash op) = HashSize"

definition txin_ok :: "TxIn \<Rightarrow> bool" where
  "txin_ok ti \<longleftrightarrow> outpoint_ok (PreviousOutPoint ti) \<and> length (SignatureScript ti) \<le> MaxMessagePayload"

definition txout_ok :: "TxOut \<Rightarrow> bool" where
  "txout_ok to \<longleftrightarrow> length (PkScript to) \<le> MaxMessagePayload"

definition witness_ok :: "bytes list \<Rightarrow> bool" where
  "witness_ok w \<longleftrightarrow> length w \<le> maxWitnessItemsPerInput
     \<and> list_all (\<lambda>item. length item \<le> maxWitnessItemSize) w"

definition noWitness :: "TxIn \<Rightarrow> TxIn" where
  "noWitness ti = ti\<lparr>Witness := []\<rparr>"

lemma var_ok_small: "m < 2 ^ 64 \<Longrightarrow> var_ok m bs \<longleftrightarrow> length bs \<le> m"
  by (auto simp: var_ok_def)

lemma unat_of_nat_small: "n < 2 ^ 64 \<Longrightarrow> unat (of_nat n :: 64 word) = n"
  by (simp add: unat_of_nat)

lemma readScript_eq: "readScript = ReadVarBytes"
  by (simp add: fun_eq_iff readScript_def ReadVarBytes_def)

lemma readScript_Inr:
  "m < 2 ^ 64 \<Longrightarrow> readScript m r = (Inr bs, rest) \<longleftrightarrow> length bs \<le> m \<and> r = WriteVarBytes bs @ rest"
  by (simp add: readScript_eq varbytes.dec_iff var_ok_small)

interpretation outpoint: canonical_codec writeOutPoint readOutPoint outpoint_ok
proof unfold_locales
  show "readOutPoint (writeOutPoint x @ rest) = (Inr x, rest)" if "outpoint_ok x" for x rest
    using that by (simp add: readOutPoint_def writeOutPoint_def outpoint_ok_def bindM_apply
        ReadFull_append u32.dec_enc returnM_apply)
  show "outpoint_ok x \<and> bs = writeOutPoint x @ rest" if "readOutPoint bs = (Inr x, rest)"
    for bs x rest
    using that by (auto simp: readOutPoint_def writeOutPoint_def outpoint_ok_def bindM_eq_Inr
        ReadFull_Inr u32.dec_iff returnM_apply)
qed

lemma MaxMessagePayload_small: "MaxMessagePayload < 2 ^ 64"
  by (simp add: MaxMessagePayload_def)

lemma readScript_WriteVarBytes:
  "length bs \<le> MaxMessagePayload \<Longrightarrow>
   readScript MaxMessagePayload (WriteVarBytes bs @ rest) = (Inr bs, rest)"
  by (simp add: readScript_Inr [OF MaxMessagePayload_small])

interpretation txin: canonical_codec writeTxIn readTxIn "\<lambda>ti. txin_ok ti \<and> Witness ti = []"
proof unfold_locales
  fix bs x rest
  have "readTxIn bs = (Inr x, rest) \<longleftrightarrow> (txin_ok x \<and> Witness x = []) \<and> bs = writeTxIn x @ rest"
    by (cases x) (auto simp: readTxIn_def writeTxIn_def txin_ok_def bindM_eq_Inr outpoint.dec_iff
        readScript_Inr [OF MaxMessagePayload_small] u32.dec_iff returnM_apply)
  then show "readTxIn bs = (Inr x, rest) \<Longrightarrow> (txin_ok x \<and> Witness x = []) \<and> bs = writeTxIn x @ rest"
    by blast
next
  fix x rest
  assume "txin_ok x \<and> Witness x = []"
  then show "readTxIn (writeTxIn x @ rest) = (Inr x, rest)"
    by (cases x) (simp add: readTxIn_def writeTxIn_def txin_ok_def bindM_apply outpoint.dec_enc
        readScript_WriteVarBytes u32.dec_enc returnM_apply)
qed

interpretation txout: canonical_codec WriteTxOut readTxOut txout_ok
proof unfold_locales
  fix bs x rest
  show "readTxOut bs = (Inr x, rest) \<Longrightarrow> txout_ok x \<and> bs = WriteTxOut x @ rest"
    by (auto simp: readTxOut_def WriteTxOut_def txout_ok_def bindM_eq_Inr
        readScript_Inr [OF MaxMessagePayload_small] u64.dec_iff returnM_apply)
next
  fix x rest
  assume "txout_ok x"
  then show "readTxOut (WriteTxOut x @ rest) = (Inr x, rest)"
    by (simp add: readTxOut_def WriteTxOut_def txout_ok_def bindM_apply u64.dec_enc
        readScript_WriteVarBytes returnM_apply)
qed

lemma readTxWitness_Inr:
  "readTxWitness bs = (Inr w, rest) \<longleftrightarrow> witness_ok w \<and> bs = writeTxWitness w @ rest"
proof
  assume "readTxWitness bs = (Inr w, rest)"
  then obtain c where c: "bs = WriteVarInt c @ concat (map WriteVarBytes w) @ rest"
      "unat c \<le> maxWitnessItemsPerInput" "length w = unat c"
      "list_all (var_ok maxWitnessItemSize) w"
    by (auto simp: readTxWitness_def bindM_eq_Inr varint.dec_iff readScript_eq varbytes.dec_list_iff
        raiseM_apply split: if_splits)
  then show "witness_ok w \<and> bs = writeTxWitness w @ rest"
    by (simp add: witness_ok_def writeTxWitness_def list_all_iff var_ok_def)
next
  assume a: "witness_ok w \<and> bs = writeTxWitness w @ rest"
  then have "unat (of_nat (length w) :: 64 word) = length w"
    by (intro unat_of_nat_small) (simp add: witness_ok_def maxWitnessItemsPerInput_def)
  moreover have "list_all (var_ok maxWitnessItemSize) w"
    using a by (auto simp: witness_ok_def list_all_iff var_ok_def maxWitnessItemSize_def)
  ultimately show "readTxWitness bs = (Inr w, rest)"
    using a by (simp add: witness_ok_def writeTxWitness_def readTxWitness_def bindM_apply
        varint.dec_enc readScript_eq varbytes.dec_list)
qed

interpretation witness: canonical_codec writeTxWitness readTxWitness witness_ok
  by unfold_locales (simp_all add: readTxWitness_Inr)

section \<open>Whole transactions\<close>

definition tx_ok :: "MsgTx \<Rightarrow> bool" where
  "tx_ok tx \<longleftrightarrow> length (TxIns tx) \<le> maxTxInPerMessage \<and> length (TxOuts tx) \<le> maxTxOutPerMessage
     \<and> list_all txin_ok (TxIns tx) \<and> list_all txout_ok (TxOuts tx)
     \<and> list_all (\<lambda>ti. witness_ok (Witness ti)) (TxIns tx)"

definition stripped :: "MsgTx \<Rightarrow> MsgTx" where
  "stripped tx = tx\<lparr>TxIns := map noWitness (TxIns tx)\<rparr>"

definition body_bytes :: "bool \<Rightarrow> MsgTx \<Rightarrow> bytes" where
  "body_bytes w tx =
     concat (map writeTxIn (TxIns tx)) @ WriteVarInt (of_nat (length (TxOuts tx)))
     @ concat (map WriteTxOut (TxOuts tx))
     @ (if w then concat (map (\<lambda>ti. writeTxWitness (Witness ti)) (TxIns tx)) else [])
     @ PutUint32 (LockTime tx)"

lemma writeTxIn_noWitness [simp]: "writeTxIn (noWitness ti) = writeTxIn ti"
  by (simp add: writeTxIn_def noWitness_def)

lemma noWitness_simps [simp]:
  "Witness (noWitness ti) = []" "txin_ok (noWitness ti) = txin_ok ti"
  "SignatureScript (noWitness ti) = SignatureScript ti"
  by (simp_all add: noWitness_def txin_ok_def)

lemma noWitness_id: "Witness ti = [] \<Longrightarrow> noWitness ti = ti"
  by (simp add: noWitness_def)

lemma not_HasWitness: "\<not> HasWitness tx \<longleftrightarrow> list_all (\<lambda>ti. Witness ti = []) (TxIns tx)"
  by (auto simp: HasWitness_def list_all_iff list_ex_iff)

lemma map2_Witness:
  "map2 (\<lambda>ti w. ti\<lparr>Witness := w\<rparr>) (map noWitness tis) (map Witness tis) = tis"
  by (induction tis) (simp_all add: noWitness_def)

lemma map2_Witness_nil:
  "list_all (\<lambda>ti. Witness ti = []) tis \<Longrightarrow>
   map2 (\<lambda>ti w. ti\<lparr>Witness := w\<rparr>) tis (map Witness tis) = tis"
  by (induction tis) simp_all

lemma map2_Witness_parts:
  assumes "length ws = length tis"
  shows "map Witness (map2 (\<lambda>ti w. ti\<lparr>Witness := w\<rparr>) tis ws) = ws"
    and "list_all (\<lambda>ti. Witness ti = []) tis \<Longrightarrow>
         map noWitness (map2 (\<lambda>ti w. ti\<lparr>Witness := w\<rparr>) tis ws) = tis"
  using assms by (induction tis ws rule: list_induct2') (simp_all add: noWitness_def)

lemma max_counts_small: "maxTxInPerMessage < 2 ^ 64" "maxTxOutPerMessage < 2 ^ 64"
  by (simp_all add: maxTxInPerMessage_def maxTxOutPerMessage_def MaxMessagePayload_def
      minTxInPayload_def MinTxOutPayload_def HashSize_def)

definition witnessed :: "MessageEncoding \<Rightarrow> byte \<Rightarrow> bool" where
  "witnessed enc flag \<longleftrightarrow> flag \<noteq> 0 \<and> enc = WitnessEncoding"

lemma map_writeTxIn_noWitness: "map writeTxIn (map noWitness tis) = map writeTxIn tis"
  by simp

lemma decodeBody_encode:
  assumes ok: "tx_ok tx" and v: "v = Version tx"
    and nw: "witnessed enc flag \<or> \<not> HasWitness tx"
    and c: "unat c = length (TxIns tx)"
  shows "decodeBody enc v flag c (body_bytes (witnessed enc flag) tx @ rest) = (Inr tx, rest)"
proof -
  let ?w = "witnessed enc flag" and ?ins = "map noWitness (TxIns tx)"
  let ?wit = "if ?w then concat (map (\<lambda>ti. writeTxWitness (Witness ti)) (TxIns tx)) else []"
  let ?ob = "concat (map WriteTxOut (TxOuts tx))"
  have limits: "unat c \<le> maxTxInPerMessage" "length (TxOuts tx) \<le> maxTxOutPerMessage"
    using ok c by (simp_all add: tx_ok_def)
  have outs: "unat (of_nat (length (TxOuts tx)) :: 64 word) = length (TxOuts tx)"
    using limits max_counts_small by (intro unat_of_nat_small) linarith
  have "repeatM (length ?ins) readTxIn (concat (map writeTxIn ?ins) @ r) = (Inr ?ins, r)" for r
    using ok by (intro txin.dec_list) (simp add: tx_ok_def list_all_iff)
  then have ins: "repeatM (unat c) readTxIn (concat (map writeTxIn (TxIns tx)) @ r) = (Inr ?ins, r)"
    for r using c by (simp only: map_writeTxIn_noWitness length_map)
  have outr: "repeatM (length (TxOuts tx)) readTxOut (?ob @ r) = (Inr (TxOuts tx), r)" for r
    using ok by (intro txout.dec_list) (simp add: tx_ok_def)
  have "repeatM (length (map Witness (TxIns tx))) readTxWitness
      (concat (map writeTxWitness (map Witness (TxIns tx))) @ r) = (Inr (map Witness (TxIns tx)), r)"
    for r
    using ok by (intro witness.dec_list) (simp add: tx_ok_def list_all_iff)
  then have wits: "(if flag \<noteq> 0 \<and> enc = WitnessEncoding then repeatM (length ?ins) readTxWitness
      else returnM (map Witness ?ins)) (?wit @ r) = (Inr (map Witness (TxIns tx)), r)" for r
    using nw by (auto simp: witnessed_def comp_def returnM_apply not_HasWitness list_all_iff)
  have "length (map Witness (TxIns tx)) = length ?ins" by simp
  note rel = relocate_decoded [OF this, of "TxOuts tx" "Version tx" "LockTime tx", unfolded map2_Witness]
  have "decodeBody enc v flag c (concat (map writeTxIn (TxIns tx))
      @ WriteVarInt (of_nat (length (TxOuts tx))) @ ?ob @ ?wit @ PutUint32 (LockTime tx) @ rest)
    = (Inr tx, rest)"
    using limits outs v
    by (simp add: decodeBody_def bindM_apply ins varint.dec_enc outr wits u32.dec_enc
        map2_Witness rel returnM_apply del: length_map)
  then show ?thesis by (simp add: body_bytes_def)
qed

lemma decodeBody_sound:
  assumes d: "decodeBody enc v flag c r = (Inr tx, rest)"
  shows "tx_ok tx \<and> Version tx = v \<and> (witnessed enc flag \<or> \<not> HasWitness tx)
    \<and> unat c = length (TxIns tx) \<and> r = body_bytes (witnessed enc flag) tx @ rest"
proof -
  from d have lim: "unat c \<le> maxTxInPerMessage"
    by (auto simp: decodeBody_def guardM_eq_Inr)
  from d obtain ins r1 oc r2 outs r3 wits r4 l r5 where
    ins: "repeatM (unat c) readTxIn r = (Inr ins, r1)" and
    oc: "ReadVarInt r1 = (Inr oc, r2)" "unat oc \<le> maxTxOutPerMessage" and
    outs: "repeatM (unat oc) readTxOut r2 = (Inr outs, r3)" and
    wits: "(if flag \<noteq> 0 \<and> enc = WitnessEncoding then repeatM (length ins) readTxWitness
      else returnM (map Witness ins)) r3 = (Inr wits, r4)" and
    l: "Uint32 r4 = (Inr l, r5)" and
    tx: "relocateScripts (totalScriptSize ins outs wits)
        \<lparr>Version = v, TxIns = map2 (\<lambda>ti w. ti\<lparr>Witness := w\<rparr>) ins wits, TxOuts = outs, LockTime = l\<rparr> r5
      = (Inr tx, rest)"
    unfolding decodeBody_def bindM_eq_Inr guardM_eq_Inr not_less by blast
  have I: "length ins = unat c" "list_all txin_ok ins" "list_all (\<lambda>ti. Witness ti = []) ins"
      "r = concat (map writeTxIn ins) @ r1"
    using ins by (auto simp: txin.dec_list_iff list_all_iff)
  have O: "r1 = WriteVarInt oc @ r2" "length outs = unat oc" "list_all txout_ok outs"
      "r2 = concat (map WriteTxOut outs) @ r3"
    using oc outs by (auto simp: varint.dec_iff txout.dec_list_iff)
  have W: "length wits = length ins" "list_all witness_ok wits"
      "r3 = (if witnessed enc flag then concat (map writeTxWitness wits) else []) @ r4"
      "witnessed enc flag \<or> list_all (\<lambda>w. w = []) wits"
    using wits I(3) by (auto simp: witnessed_def witness.dec_list_iff returnM_apply list_all_iff
        witness_ok_def split: if_splits)
  have t: "tx = \<lparr>Version = v, TxIns = map2 (\<lambda>ti w. ti\<lparr>Witness := w\<rparr>) ins wits, TxOuts = outs,
      LockTime = l\<rparr>" "rest = r5"
    using tx by (simp_all add: relocate_decoded [OF W(1)] returnM_apply)
  have P: "map Witness (TxIns tx) = wits" "map noWitness (TxIns tx) = ins"
      "length (TxIns tx) = unat c"
    using map2_Witness_parts [OF W(1)] I(1,3) W(1) by (simp_all add: t)
  have "list_all txin_ok (map noWitness (TxIns tx))" "list_all witness_ok (map Witness (TxIns tx))"
    using I(2) W(2) P by simp_all
  then have "tx_ok tx"
    using lim oc(2) O(2,3) P(3) by (simp add: tx_ok_def t list_all_iff)
  moreover have "map writeTxIn (TxIns tx) = map writeTxIn ins"
    using P(2) map_writeTxIn_noWitness by metis
  moreover have "map (\<lambda>ti. writeTxWitness (Witness ti)) (TxIns tx) = map writeTxWitness wits"
    using P(1) by (auto simp: comp_def)
  moreover have "witnessed enc flag \<or> \<not> HasWitness tx"
    using W(4) P(1) by (auto simp: not_HasWitness list_all_iff)
  ultimately show ?thesis
    using I(4) O W(3) l P(3) by (simp add: body_bytes_def t(2) u32.dec_iff) (simp add: t(1))
qed

lemma encode_base:
  "MsgTx_BtcEncode BaseEncoding tx =
     PutUint32 (Version tx) @ WriteVarInt (of_nat (length (TxIns tx))) @ body_bytes False tx"
  by (simp add: MsgTx_BtcEncode_def body_bytes_def Let_def)

definition flagged_bytes :: "MsgTx \<Rightarrow> bytes" where
  "flagged_bytes tx = PutUint32 (Version tx) @ witessMarkerBytes
     @ WriteVarInt (of_nat (length (TxIns tx))) @ body_bytes True tx"

lemma encode_witness:
  "MsgTx_BtcEncode WitnessEncoding tx =
     (if HasWitness tx then flagged_bytes tx else MsgTx_BtcEncode BaseEncoding tx)"
  by (simp add: MsgTx_BtcEncode_def body_bytes_def flagged_bytes_def Let_def)

lemma ins_count: "tx_ok tx \<Longrightarrow> unat (of_nat (length (TxIns tx)) :: 64 word) = length (TxIns tx)"
  using max_counts_small by (intro unat_of_nat_small) (simp add: tx_ok_def)

lemma count_of: "unat (c :: 64 word) = n \<Longrightarrow> c = of_nat n"
  by auto

lemma ins_count_0:
  "tx_ok tx \<Longrightarrow> (of_nat (length (TxIns tx)) :: 64 word) = 0 \<longleftrightarrow> TxIns tx = []"
proof -
  assume "tx_ok tx"
  then have "(of_nat (length (TxIns tx)) :: 64 word) = 0 \<longleftrightarrow> length (TxIns tx) = 0"
    using ins_count [of tx] unat_eq_0 [of "of_nat (length (TxIns tx)) :: 64 word"] by simp
  then show ?thesis by simp
qed

lemma WriteVarInt_0: "WriteVarInt 0 = [0]"
  by (simp add: WriteVarInt_def PutUint8_def)

lemma decode_base_iff:
  "MsgTx_BtcDecode BaseEncoding bs = (Inr tx, rest)
   \<longleftrightarrow> tx_ok tx \<and> \<not> HasWitness tx \<and> bs = MsgTx_BtcEncode BaseEncoding tx @ rest"
proof
  assume "MsgTx_BtcDecode BaseEncoding bs = (Inr tx, rest)"
  then obtain v c r where r: "bs = PutUint32 v @ WriteVarInt c @ r"
      "decodeBody BaseEncoding v 0x00 c r = (Inr tx, rest)"
    by (auto simp: MsgTx_BtcDecode_def bindM_eq_Inr u32.dec_iff varint.dec_iff)
  then show "tx_ok tx \<and> \<not> HasWitness tx \<and> bs = MsgTx_BtcEncode BaseEncoding tx @ rest"
    using decodeBody_sound [OF r(2)] count_of [of c] by (auto simp: encode_base witnessed_def)
next
  assume a: "tx_ok tx \<and> \<not> HasWitness tx \<and> bs = MsgTx_BtcEncode BaseEncoding tx @ rest"
  have "decodeBody BaseEncoding (Version tx) 0x00 (of_nat (length (TxIns tx)))
      (body_bytes False tx @ rest) = (Inr tx, rest)"
    using decodeBody_encode [of tx _ BaseEncoding 0 "of_nat (length (TxIns tx))" rest] a
    by (simp add: witnessed_def ins_count)
  then show "MsgTx_BtcDecode BaseEncoding bs = (Inr tx, rest)"
    using a by (simp add: MsgTx_BtcDecode_def encode_base bindM_apply u32.dec_enc varint.dec_enc)
qed

lemma decode_witness_iff:
  "MsgTx_BtcDecode WitnessEncoding bs = (Inr tx, rest)
   \<longleftrightarrow> tx_ok tx \<and> (bs = flagged_bytes tx @ rest \<or>
        TxIns tx \<noteq> [] \<and> \<not> HasWitness tx \<and> bs = MsgTx_BtcEncode BaseEncoding tx @ rest)"
    (is "?D \<longleftrightarrow> tx_ok tx \<and> (?F \<or> ?B)")
proof
  assume ?D
  then obtain v c r where r: "bs = PutUint32 v @ WriteVarInt c @ r" and
      d: "(if c = 0 then bindM (ReadFull 1) (\<lambda>flag. if hd flag \<noteq> 0x01 then raiseM MessageError
             else bindM ReadVarInt (decodeBody WitnessEncoding v (hd flag)))
           else decodeBody WitnessEncoding v 0x00 c) r = (Inr tx, rest)"
    by (auto simp: MsgTx_BtcDecode_def bindM_eq_Inr u32.dec_iff varint.dec_iff)
  show "tx_ok tx \<and> (?F \<or> ?B)"
  proof (cases "c = 0")
    case True
    with d obtain f r1 c1 r2 where f: "length f = 1" "r = f @ r1" "hd f = 0x01"
        "r1 = WriteVarInt c1 @ r2" "decodeBody WitnessEncoding v 0x01 c1 r2 = (Inr tx, rest)"
      by (auto simp: bindM_eq_Inr guardM_eq_Inr ReadFull_Inr varint.dec_iff)
    then have "f = [0x01]" by (cases f) auto
    then show ?thesis
      using decodeBody_sound [OF f(5)] f r True count_of [of c1]
      by (auto simp: flagged_bytes_def witnessed_def WriteVarInt_0 witessMarkerBytes_def)
  next
    case False
    with d have b: "decodeBody WitnessEncoding v 0x00 c r = (Inr tx, rest)" by simp
    then have "TxIns tx \<noteq> []"
      using decodeBody_sound [OF b] False by (auto simp: unat_eq_0)
    then show ?thesis
      using decodeBody_sound [OF b] r count_of [of c] by (auto simp: encode_base witnessed_def)
  qed
next
  assume a: "tx_ok tx \<and> (?F \<or> ?B)"
  show ?D
  proof (cases ?F)
    case True
    have "decodeBody WitnessEncoding (Version tx) 0x01 (of_nat (length (TxIns tx)))
        (body_bytes True tx @ rest) = (Inr tx, rest)"
      using decodeBody_encode [of tx _ WitnessEncoding 1 "of_nat (length (TxIns tx))" rest] a
      by (simp add: witnessed_def ins_count)
    moreover have "bs = PutUint32 (Version tx) @ WriteVarInt 0 @ [0x01]
        @ WriteVarInt (of_nat (length (TxIns tx))) @ body_bytes True tx @ rest"
      using True by (simp add: flagged_bytes_def WriteVarInt_0 witessMarkerBytes_def)
    ultimately show ?thesis
      by (simp add: MsgTx_BtcDecode_def bindM_apply u32.dec_enc varint.dec_enc
          ReadFull_append [of "[0x01]", simplified])
  next
    case False
    with a have B: ?B and ok: "tx_ok tx" by blast+
    then have "decodeBody WitnessEncoding (Version tx) 0x00 (of_nat (length (TxIns tx)))
        (body_bytes False tx @ rest) = (Inr tx, rest)"
      using decodeBody_encode [of tx _ WitnessEncoding 0 "of_nat (length (TxIns tx))" rest]
      by (simp add: witnessed_def ins_count)
    then show ?thesis
      using B ok by (simp add: MsgTx_BtcDecode_def encode_base bindM_apply u32.dec_enc
          varint.dec_enc ins_count_0)
  qed
qed

lemma encode_base_stripped: "MsgTx_BtcEncode BaseEncoding (stripped tx) = MsgTx_BtcEncode BaseEncoding tx"
  by (simp add: encode_base body_bytes_def stripped_def comp_def)

lemma tx_ok_stripped: "tx_ok tx \<Longrightarrow> tx_ok (stripped tx)"
  by (simp add: tx_ok_def stripped_def list_all_iff witness_ok_def)

lemma not_HasWitness_stripped: "\<not> HasWitness (stripped tx)"
  by (simp add: not_HasWitness stripped_def list_all_iff)

interpretation tx_base: canonical_codec "MsgTx_BtcEncode BaseEncoding" "MsgTx_BtcDecode BaseEncoding"
    "\<lambda>tx. tx_ok tx \<and> \<not> HasWitness tx"
  by unfold_locales (simp_all add: decode_base_iff)

interpretation tx_wit: codec "MsgTx_BtcEncode WitnessEncoding" "MsgTx_BtcDecode WitnessEncoding"
    "\<lambda>tx. tx_ok tx \<and> TxIns tx \<noteq> []"
  by unfold_locales (auto simp: decode_witness_iff encode_witness)

section \<open>Sizes and totality\<close>

lemma foldl_add: "foldl (\<lambda>n x. n + f x) (a :: nat) xs = a + sum_list (map f xs)"
  by (induction xs arbitrary: a) simp_all

lemma length_writeTxIn: "outpoint_ok (PreviousOutPoint ti) \<Longrightarrow> length (writeTxIn ti) = TxIn_SerializeSize ti"
  by (simp add: writeTxIn_def writeOutPoint_def TxIn_SerializeSize_def outpoint_ok_def
      length_WriteVarBytes PutUint32_def HashSize_def)

lemma length_WriteTxOut: "length (WriteTxOut to) = TxOut_SerializeSize to"
  by (simp add: WriteTxOut_def TxOut_SerializeSize_def length_WriteVarBytes PutUint64_def)

lemma length_writeTxWitness: "length (writeTxWitness w) = TxWitness_SerializeSize w"
proof -
  have "TxWitness_SerializeSize w = VarIntSerializeSize (of_nat (length w))
      + sum_list (map (\<lambda>i. VarIntSerializeSize (of_nat (length i)) + length i) w)"
    unfolding TxWitness_SerializeSize_def
    by (subst foldl_add [symmetric]) (simp add: add.assoc)
  then show ?thesis
    by (simp add: writeTxWitness_def length_WriteVarInt length_concat length_WriteVarBytes comp_def)
qed

lemma length_encode:
  assumes "list_all (\<lambda>ti. outpoint_ok (PreviousOutPoint ti)) (TxIns tx)"
  shows "length (MsgTx_BtcEncode BaseEncoding tx) = MsgTx_SerializeSizeStripped tx"
    and "length (MsgTx_BtcEncode WitnessEncoding tx) = MsgTx_SerializeSize tx"
proof -
  have ins: "sum_list (map (\<lambda>ti. length (writeTxIn ti)) (TxIns tx))
      = sum_list (map TxIn_SerializeSize (TxIns tx))"
    using assms by (intro arg_cong [of _ _ sum_list] map_cong) (auto simp: list_all_iff length_writeTxIn)
  show base: "length (MsgTx_BtcEncode BaseEncoding tx) = MsgTx_SerializeSizeStripped tx"
    by (simp add: encode_base body_bytes_def MsgTx_SerializeSizeStripped_def baseSize_def foldl_add
        length_WriteVarInt length_concat length_WriteTxOut comp_def ins PutUint32_def Let_def)
  show "length (MsgTx_BtcEncode WitnessEncoding tx) = MsgTx_SerializeSize tx"
    using base
    by (simp add: encode_witness flagged_bytes_def encode_base body_bytes_def MsgTx_SerializeSize_def
        MsgTx_SerializeSizeStripped_def foldl_add length_concat length_writeTxWitness comp_def
        witessMarkerBytes_def Let_def)
qed

definition panic_free :: "'a readM \<Rightarrow> bool" where
  "panic_free m \<longleftrightarrow> (\<forall>s. fst (m s) \<noteq> Inl WirePanic)"

lemma panic_free_bind:
  assumes "panic_free m" and "\<And>x s s'. m s = (Inr x, s') \<Longrightarrow> panic_free (f x)"
  shows "panic_free (bindM m f)"
  unfolding panic_free_def
proof
  fix s
  obtain y s' where m: "m s = (y, s')" by (cases "m s")
  then show "fst (bindM m f s) \<noteq> Inl WirePanic"
  proof (cases y)
    case (Inl e)
    then show ?thesis using assms(1) m by (auto simp: panic_free_def bindM_apply dest: spec [of _ s])
  next
    case (Inr x)
    then have "panic_free (f x)" using assms(2) m by blast
    then show ?thesis using m Inr by (simp add: panic_free_def bindM_apply)
  qed
qed

lemma panic_free_basic [intro!]:
  "panic_free (ReadFull n)" "panic_free (returnM x)" "panic_free (raiseM MessageError)"
  by (simp_all add: panic_free_def ReadFull_def returnM_apply raiseM_apply)

lemma panic_free_if: "panic_free a \<Longrightarrow> panic_free b \<Longrightarrow> panic_free (if c then a else b)"
  by simp

lemma panic_free_prim [intro!]:
  "panic_free Uint8" "panic_free Uint16" "panic_free Uint32" "panic_free Uint64"
  unfolding Uint8_def Uint16_def Uint32_def Uint64_def by (intro panic_free_bind panic_free_basic)+

lemma panic_free_ReadVarInt [intro!]: "panic_free ReadVarInt"
  unfolding ReadVarInt_def Let_def
  by (intro panic_free_bind panic_free_if panic_free_prim panic_free_basic)

lemma panic_free_readScript [intro!]: "panic_free (readScript n)"
  unfolding readScript_def
  by (intro panic_free_bind panic_free_if panic_free_ReadVarInt panic_free_basic)

lemma panic_free_repeatM: "panic_free m \<Longrightarrow> panic_free (repeatM n m)"
  by (induction n) (auto intro!: panic_free_bind)

lemma panic_free_parts [intro!]:
  "panic_free readTxIn" "panic_free readTxOut" "panic_free readTxWitness"
  unfolding readTxIn_def readOutPoint_def readTxOut_def readTxWitness_def
  by (intro panic_free_bind panic_free_if panic_free_repeatM panic_free_readScript
      panic_free_ReadVarInt panic_free_prim panic_free_basic)+

lemma wits_length:
  assumes "(if b then repeatM (length ins) readTxWitness else returnM (map Witness ins)) s = (Inr wits, s')"
  shows "length wits = length ins"
  using assms by (auto simp: witness.dec_list_iff returnM_apply split: if_splits)

lemma panic_free_decodeBody [intro!]: "panic_free (decodeBody enc v flag c)"
  unfolding decodeBody_def
  by (intro panic_free_bind panic_free_if panic_free_repeatM panic_free_ReadVarInt panic_free_prim
      panic_free_basic panic_free_parts) (simp add: relocate_decoded wits_length panic_free_basic)

lemma panic_free_decode: "panic_free (MsgTx_BtcDecode enc)"
  unfolding MsgTx_BtcDecode_def
  by (intro panic_free_bind panic_free_if panic_free_decodeBody panic_free_ReadVarInt panic_free_prim
      panic_free_basic)

section \<open>Properties\<close>

text \<open>
  with the base encoding the decoder accepts exactly the encodings of transactions without
  witness data whose counts and script sizes respect the limits, and returns that transaction:
  decoding inverts encoding, and no two byte strings decode to the same transaction.
\<close>

theorem tx_base_decode_iff:
  "MsgTx_DeserializeNoWitness bs = (Inr tx, rest) \<longleftrightarrow>
     tx_ok tx \<and> \<not> HasWitness tx \<and> bs = MsgTx_SerializeNoWitness tx @ rest"
  by (simp add: MsgTx_DeserializeNoWitness_def MsgTx_SerializeNoWitness_def decode_base_iff)

text \<open>
  C21: a transaction with at least one input, within the limits, is recovered with its witnesses
  by \<^verbatim>\<open>Deserialize\<close> from what \<^verbatim>\<open>Serialize\<close> wrote, and without them by
  \<^verbatim>\<open>DeserializeNoWitness\<close> from what \<^verbatim>\<open>SerializeNoWitness\<close> wrote; what follows in
  the input is left unread.
\<close>

theorem tx_roundtrip:
  assumes "tx_ok tx" and "TxIns tx \<noteq> []"
  shows "MsgTx_Deserialize (MsgTx_Serialize tx @ rest) = (Inr tx, rest) \<and>
    MsgTx_DeserializeNoWitness (MsgTx_SerializeNoWitness tx @ rest) = (Inr (stripped tx), rest)"
proof
  show "MsgTx_Deserialize (MsgTx_Serialize tx @ rest) = (Inr tx, rest)"
    using assms by (simp add: MsgTx_Deserialize_def MsgTx_Serialize_def tx_wit.dec_enc)
  show "MsgTx_DeserializeNoWitness (MsgTx_SerializeNoWitness tx @ rest) = (Inr (stripped tx), rest)"
    using assms
    by (simp add: MsgTx_DeserializeNoWitness_def MsgTx_SerializeNoWitness_def decode_base_iff
        encode_base_stripped tx_ok_stripped not_HasWitness_stripped)
qed

definition sample_tx :: MsgTx where
  "sample_tx = AddTxOut (NewTxOut 5 [0x51])
     (AddTxIn (NewTxIn (NewOutPoint (replicate 32 7) 1) [0x52] [[1, 2], []]) (NewMsgTx 2))"

lemma sample_tx_ok: "tx_ok sample_tx"
  by (simp add: sample_tx_def AddTxOut_def AddTxIn_def NewTxOut_def NewTxIn_def NewOutPoint_def
      NewMsgTx_def tx_ok_def txin_ok_def txout_ok_def outpoint_ok_def witness_ok_def
      maxTxInPerMessage_def maxTxOutPerMessage_def maxWitnessItemsPerInput_def
      maxWitnessItemSize_def MaxMessagePayload_def HashSize_def)

lemma sample_tx_ins: "TxIns sample_tx \<noteq> []"
  by (simp add: sample_tx_def AddTxOut_def AddTxIn_def NewMsgTx_def)

theorem tx_roundtrip_witness:
  "MsgTx_Deserialize (MsgTx_Serialize sample_tx @ [9]) = (Inr sample_tx, [9])"
  using tx_roundtrip [OF sample_tx_ok sample_tx_ins, of "[9]"] by simp

text \<open>
  the sizes announced by \<^verbatim>\<open>SerializeSize\<close> and \<^verbatim>\<open>SerializeSizeStripped\<close> are the
  numbers of bytes the two serializations write, whenever the previous transaction hashes have
  the 32 bytes of their type.
\<close>

theorem tx_serialize_size:
  assumes "list_all (\<lambda>ti. length (Hash (PreviousOutPoint ti)) = HashSize) (TxIns tx)"
  shows "length (MsgTx_Serialize tx) = MsgTx_SerializeSize tx \<and>
    length (MsgTx_SerializeNoWitness tx) = MsgTx_SerializeSizeStripped tx"
  using assms length_encode [of tx]
  by (simp add: MsgTx_Serialize_def MsgTx_SerializeNoWitness_def outpoint_ok_def)

theorem tx_serialize_size_witness: "length (MsgTx_Serialize sample_tx) = 69"
proof -
  have "list_all (\<lambda>ti. length (Hash (PreviousOutPoint ti)) = HashSize) (TxIns sample_tx)"
    by (simp add: sample_tx_def AddTxOut_def AddTxIn_def NewTxIn_def NewOutPoint_def NewMsgTx_def
        HashSize_def)
  then have "length (MsgTx_Serialize sample_tx) = MsgTx_SerializeSize sample_tx"
    using tx_serialize_size by blast
  also have "\<dots> = 69"
    by (simp add: sample_tx_def AddTxOut_def AddTxIn_def NewTxOut_def NewTxIn_def NewOutPoint_def
      NewMsgTx_def MsgTx_SerializeSize_def baseSize_def HasWitness_def TxIn_SerializeSize_def
      TxOut_SerializeSize_def TxWitness_SerializeSize_def VarIntSerializeSize_def)
  finally show ?thesis .
qed

text \<open>
  C27: whatever the bytes received, decoding a transaction never indexes its contiguous script
  buffer out of range, and a decoded transaction respects every limit on counts and script
  sizes.
\<close>

theorem tx_decode_safe:
  "fst (MsgTx_BtcDecode enc bs) \<noteq> Inl WirePanic \<and>
   (case MsgTx_BtcDecode enc bs of (Inr tx, rest) \<Rightarrow> tx_ok tx | (Inl e, rest) \<Rightarrow> True)"
proof
  show "fst (MsgTx_BtcDecode enc bs) \<noteq> Inl WirePanic"
    using panic_free_decode by (simp add: panic_free_def)
  show "case MsgTx_BtcDecode enc bs of (Inr tx, rest) \<Rightarrow> tx_ok tx | (Inl e, rest) \<Rightarrow> True"
    by (cases enc) (auto simp: decode_base_iff decode_witness_iff split: prod.splits sum.splits)
qed

lemma MsgTx_Copy_id: "MsgTx_Copy tx = tx"
proof -
  have "TxIn_copy = id" "TxOut_copy = id" by (auto simp: fun_eq_iff TxIn_copy_def TxOut_copy_def)
  then show ?thesis by (simp add: MsgTx_Copy_def)
qed

end
