(* ===== verification/Script_Parse.thy ===== *)
theory Script_Parse
  imports Script_Error Wire_Tx
begin

text \<open>
  Opcodes, their table, and the translation between raw and parsed scripts
  (\<^verbatim>\<open>src/txscript/opcode.go\<close>, \<^verbatim>\<open>src/txscript/script.go\<close>).

  The table \<^verbatim>\<open>opcodeArray\<close> is split: the value and the length of each opcode are here, the
  handler of each opcode is in the table of the engine.  The names of the opcodes are used for
  printing only and are left out.  The parser returns the opcodes parsed so far next to the
  error, as the code does.
\<close>

section \<open>Opcodes\<close>

abbreviation (input) OP_0 :: byte where "OP_0 \<equiv> 0x00"
abbreviation (input) OP_DATA_20 :: byte where "OP_DATA_20 \<equiv> 0x14"
abbreviation (input) OP_DATA_32 :: byte where "OP_DATA_32 \<equiv> 0x20"
abbreviation (input) OP_PUSHDATA1 :: byte where "OP_PUSHDATA1 \<equiv> 0x4c"
abbreviation (input) OP_PUSHDATA2 :: byte where "OP_PUSHDATA2 \<equiv> 0x4d"
abbreviation (input) OP_PUSHDATA4 :: byte where "OP_PUSHDATA4 \<equiv> 0x4e"
abbreviation (input) OP_1NEGATE :: byte where "OP_1NEGATE \<equiv> 0x4f"
abbreviation (input) OP_1 :: byte where "OP_1 \<equiv> 0x51"
abbreviation (input) OP_16 :: byte where "OP_16 \<equiv> 0x60"
abbreviation (input) OP_IF :: byte where "OP_IF \<equiv> 0x63"
abbreviation (input) OP_NOTIF :: byte where "OP_NOTIF \<equiv> 0x64"
abbreviation (input) OP_VERIF :: byte where "OP_VERIF \<equiv> 0x65"
abbreviation (input) OP_VERNOTIF :: byte where "OP_VERNOTIF \<equiv> 0x66"
abbreviation (input) OP_ELSE :: byte where "OP_ELSE \<equiv> 0x67"
abbreviation (input) OP_ENDIF :: byte where "OP_ENDIF \<equiv> 0x68"
abbreviation (input) OP_RETURN :: byte where "OP_RETURN \<equiv> 0x6a"
abbreviation (input) OP_DUP :: byte where "OP_DUP \<equiv> 0x76"
abbreviation (input) OP_CAT :: byte where "OP_CAT \<equiv> 0x7e"
abbreviation (input) OP_SUBSTR :: byte where "OP_SUBSTR \<equiv> 0x7f"
abbreviation (input) OP_LEFT :: byte where "OP_LEFT \<equiv> 0x80"
abbreviation (input) OP_RIGHT :: byte where "OP_RIGHT \<equiv> 0x81"
abbreviation (input) OP_INVERT :: byte where "OP_INVERT \<equiv> 0x83"
abbreviation (input) OP_AND :: byte where "OP_AND \<equiv> 0x84"
abbreviation (input) OP_OR :: byte where "OP_OR \<equiv> 0x85"
abbreviation (input) OP_XOR :: byte where "OP_XOR \<equiv> 0x86"
abbreviation (input) OP_EQUAL :: byte where "OP_EQUAL \<equiv> 0x87"
abbreviation (input) OP_EQUALVERIFY :: byte where "OP_EQUALVERIFY \<equiv> 0x88"
abbreviation (input) OP_2MUL :: byte where "OP_2MUL \<equiv> 0x8d"
abbreviation (input) OP_2DIV :: byte where "OP_2DIV \<equiv> 0x8e"
abbreviation (input) OP_MUL :: byte where "OP_MUL \<equiv> 0x95"
abbreviation (input) OP_DIV :: byte where "OP_DIV \<equiv> 0x96"
abbreviation (input) OP_MOD :: byte where "OP_MOD \<equiv> 0x97"
abbreviation (input) OP_LSHIFT :: byte where "OP_LSHIFT \<equiv> 0x98"
abbreviation (input) OP_RSHIFT :: byte where "OP_RSHIFT \<equiv> 0x99"
abbreviation (input) OP_HASH160 :: byte where "OP_HASH160 \<equiv> 0xa9"
abbreviation (input) OP_CODESEPARATOR :: byte where "OP_CODESEPARATOR \<equiv> 0xab"
abbreviation (input) OP_CHECKSIG :: byte where "OP_CHECKSIG \<equiv> 0xac"
abbreviation (input) OP_CHECKSIGVERIFY :: byte where "OP_CHECKSIGVERIFY \<equiv> 0xad"
abbreviation (input) OP_CHECKMULTISIG :: byte where "OP_CHECKMULTISIG \<equiv> 0xae"
abbreviation (input) OP_CHECKMULTISIGVERIFY :: byte where "OP_CHECKMULTISIGVERIFY \<equiv> 0xaf"
abbreviation (input) OP_NOP1 :: byte where "OP_NOP1 \<equiv> 0xb0"
abbreviation (input) OP_NOP4 :: byte where "OP_NOP4 \<equiv> 0xb3"
abbreviation (input) OP_NOP5 :: byte where "OP_NOP5 \<equiv> 0xb4"
abbreviation (input) OP_NOP6 :: byte where "OP_NOP6 \<equiv> 0xb5"
abbreviation (input) OP_NOP7 :: byte where "OP_NOP7 \<equiv> 0xb6"
abbreviation (input) OP_NOP8 :: byte where "OP_NOP8 \<equiv> 0xb7"
abbreviation (input) OP_NOP9 :: byte where "OP_NOP9 \<equiv> 0xb8"
abbreviation (input) OP_NOP10 :: byte where "OP_NOP10 \<equiv> 0xb9"

record opcode =
  op_value :: byte
  op_length :: int

record parsedOpcode =
  opcode :: opcode
  data :: bytes

definition opc :: "byte \<Rightarrow> int \<Rightarrow> opcode" where
  "opc v l = \<lparr>op_value = v, op_length = l\<rparr>"

definition opcodeArray_push :: "opcode list" where
  "opcodeArray_push = [
    opc 0x00 1, opc 0x01 2, opc 0x02 3, opc 0x03 4, opc 0x04 5, opc 0x05 6, opc 0x06 7, opc 0x07 8,
    opc 0x08 9, opc 0x09 10, opc 0x0a 11, opc 0x0b 12, opc 0x0c 13, opc 0x0d 14, opc 0x0e 15,
    opc 0x0f 16, opc 0x10 17, opc 0x11 18, opc 0x12 19, opc 0x13 20, opc 0x14 21, opc 0x15 22,
    opc 0x16 23, opc 0x17 24, opc 0x18 25, opc 0x19 26, opc 0x1a 27, opc 0x1b 28, opc 0x1c 29,
    opc 0x1d 30, opc 0x1e 31, opc 0x1f 32, opc 0x20 33, opc 0x21 34, opc 0x22 35, opc 0x23 36,
    opc 0x24 37, opc 0x25 38, opc 0x26 39, opc 0x27 40, opc 0x28 41, opc 0x29 42, opc 0x2a 43,
    opc 0x2b 44, opc 0x2c 45, opc 0x2d 46, opc 0x2e 47, opc 0x2f 48, opc 0x30 49, opc 0x31 50,
    opc 0x32 51, opc 0x33 52, opc 0x34 53, opc 0x35 54, opc 0x36 55, opc 0x37 56, opc 0x38 57,
    opc 0x39 58, opc 0x3a 59, opc 0x3b 60, opc 0x3c 61, opc 0x3d 62, opc 0x3e 63, opc 0x3f 64,
    opc 0x40 65, opc 0x41 66, opc 0x42 67, opc 0x43 68, opc 0x44 69, opc 0x45 70, opc 0x46 71,
    opc 0x47 72, opc 0x48 73, opc 0x49 74, opc 0x4a 75, opc 0x4b 76, opc 0x4c (- 1), opc 0x4d (- 2),
    opc 0x4e (- 4), opc 0x4f 1, opc 0x50 1, opc 0x51 1, opc 0x52 1, opc 0x53 1, opc 0x54 1,
    opc 0x55 1, opc 0x56 1, opc 0x57 1, opc 0x58 1, opc 0x59 1, opc 0x5a 1, opc 0x5b 1, opc 0x5c 1,
    opc 0x5d 1, opc 0x5e 1, opc 0x5f 1, opc 0x60 1]"

definition opcodeArray_ops :: "opcode list" where
  "opcodeArray_ops = [
    opc 0x61 1, opc 0x62 1, opc 0x63 1, opc 0x64 1, opc 0x65 1, opc 0x66 1, opc 0x67 1, opc 0x68 1,
    opc 0x69 1, opc 0x6a 1, opc 0x6b 1, opc 0x6c 1, opc 0x6d 1, opc 0x6e 1, opc 0x6f 1, opc 0x70 1,
    opc 0x71 1, opc 0x72 1, opc 0x73 1, opc 0x74 1, opc 0x75 1, opc 0x76 1, opc 0x77 1, opc 0x78 1,
    opc 0x79 1, opc 0x7a 1, opc 0x7b 1, opc 0x7c 1, opc 0x7d 1, opc 0x7e 1, opc 0x7f 1, opc 0x80 1,
    opc 0x81 1, opc 0x82 1, opc 0x83 1, opc 0x84 1, opc 0x85 1, opc 0x86 1, opc 0x87 1, opc 0x88 1,
    opc 0x89 1, opc 0x8a 1, opc 0x8b 1, opc 0x8c 1, opc 0x8d 1, opc 0x8e 1, opc 0x8f 1, opc 0x90 1,
    opc 0x91 1, opc 0x92 1, opc 0x93 1, opc 0x94 1, opc 0x95 1, opc 0x96 1, opc 0x97 1, opc 0x98 1,
    opc 0x99 1, opc 0x9a 1, opc 0x9b 1, opc 0x9c 1, opc 0x9d 1, opc 0x9e 1, opc 0x9f 1, opc 0xa0 1,
    opc 0xa1 1, opc 0xa2 1, opc 0xa3 1, opc 0xa4 1, opc 0xa5 1, opc 0xa6 1, opc 0xa7 1, opc 0xa8 1,
    opc 0xa9 1, opc 0xaa 1, opc 0xab 1, opc 0xac 1, opc 0xad 1, opc 0xae 1, opc 0xaf 1, opc 0xb0 1,
    opc 0xb1 1, opc 0xb2 1, opc 0xb3 1, opc 0xb4 1, opc 0xb5 1, opc 0xb6 1, opc 0xb7 1, opc 0xb8 1,
    opc 0xb9 1, opc 0xba 1, opc 0xbb 1, opc 0xbc 1, opc 0xbd 1, opc 0xbe 1, opc 0xbf 1, opc 0xc0 1,
    opc 0xc1 1, opc 0xc2 1, opc 0xc3 1, opc 0xc4 1, opc 0xc5 1, opc 0xc6 1, opc 0xc7 1, opc 0xc8 1,
    opc 0xc9 1, opc 0xca 1, opc 0xcb 1, opc 0xcc 1, opc 0xcd 1, opc 0xce 1, opc 0xcf 1, opc 0xd0 1,
    opc 0xd1 1, opc 0xd2 1, opc 0xd3 1, opc 0xd4 1, opc 0xd5 1, opc 0xd6 1, opc 0xd7 1, opc 0xd8 1,
    opc 0xd9 1, opc 0xda 1, opc 0xdb 1, opc 0xdc 1, opc 0xdd 1, opc 0xde 1, opc 0xdf 1, opc 0xe0 1,
    opc 0xe1 1, opc 0xe2 1, opc 0xe3 1, opc 0xe4 1, opc 0xe5 1, opc 0xe6 1, opc 0xe7 1, opc 0xe8 1,
    opc 0xe9 1, opc 0xea 1, opc 0xeb 1, opc 0xec 1, opc 0xed 1, opc 0xee 1, opc 0xef 1, opc 0xf0 1,
    opc 0xf1 1, opc 0xf2 1, opc 0xf3 1, opc 0xf4 1, opc 0xf5 1, opc 0xf6 1, opc 0xf7 1, opc 0xf8 1,
    opc 0xf9 1, opc 0xfa 1, opc 0xfb 1, opc 0xfc 1, opc 0xfd 1, opc 0xfe 1, opc 0xff 1]"

definition opcodeArray :: "opcode list" where
  "opcodeArray = opcodeArray_push @ opcodeArray_ops"

abbreviation pop_value :: "parsedOpcode \<Rightarrow> byte" where
  "pop_value pop \<equiv> op_value (opcode pop)"

definition isDisabled :: "parsedOpcode \<Rightarrow> bool" where
  "isDisabled pop = (pop_value pop \<in> {OP_CAT, OP_SUBSTR, OP_LEFT, OP_RIGHT, OP_INVERT, OP_AND, OP_OR,
     OP_XOR, OP_2MUL, OP_2DIV, OP_MUL, OP_DIV, OP_MOD, OP_LSHIFT, OP_RSHIFT})"

definition alwaysIllegal :: "parsedOpcode \<Rightarrow> bool" where
  "alwaysIllegal pop = (pop_value pop \<in> {OP_VERIF, OP_VERNOTIF})"

definition isConditional :: "parsedOpcode \<Rightarrow> bool" where
  "isConditional pop = (pop_value pop \<in> {OP_IF, OP_NOTIF, OP_ELSE, OP_ENDIF})"

definition checkMinimalDataPush :: "parsedOpcode \<Rightarrow> script_err + unit" where
  "checkMinimalDataPush pop =
     (let d = data pop; dataLen = length d; opcode = pop_value pop in
      if dataLen = 0 \<and> opcode \<noteq> OP_0 then Inl (ScriptError ErrMinimalData)
      else if dataLen = 1 \<and> hd d \<ge> 1 \<and> hd d \<le> 16 then
        if opcode \<noteq> OP_1 + hd d - 1 then Inl (ScriptError ErrMinimalData) else Inr ()
      else if dataLen = 1 \<and> hd d = 0x81 then
        if opcode \<noteq> OP_1NEGATE then Inl (ScriptError ErrMinimalData) else Inr ()
      else if dataLen \<le> 75 then
        if unat opcode \<noteq> dataLen then Inl (ScriptError ErrMinimalData) else Inr ()
      else if dataLen \<le> 255 then
        if opcode \<noteq> OP_PUSHDATA1 then Inl (ScriptError ErrMinimalData) else Inr ()
      else if dataLen \<le> 65535 then
        if opcode \<noteq> OP_PUSHDATA2 then Inl (ScriptError ErrMinimalData) else Inr ()
      else Inr ())"

text \<open>
  \<^verbatim>\<open>parsedOpcode.bytes\<close>.  The length field that precedes the data of the three
  \<^verbatim>\<open>OP_PUSHDATA\<close> opcodes is truncated to its width, and the final test compares what was
  written with what the truncated length announces.
\<close>

definition pop_bytes :: "parsedOpcode \<Rightarrow> script_err + bytes" where
  "pop_bytes pop =
     (let len = op_length (opcode pop); v = pop_value pop; d = data pop; l = length d in
      if len = 1 then (if length d \<noteq> 0 then Inl (ScriptError ErrInternal) else Inr [v])
      else
        let lenBytes = (if len = - 1 then le_bytes 1 l else if len = - 2 then le_bytes 2 l
                        else if len = - 4 then le_bytes 4 l else []);
            nbytes = (if len = - 1 \<or> len = - 2 \<or> len = - 4
                      then int (le_nat lenBytes) + int (1 + length lenBytes) else len);
            retbytes = v # lenBytes @ d
        in if int (length retbytes) \<noteq> nbytes then Inl (ScriptError ErrInternal) else Inr retbytes)"

section \<open>Parsing\<close>

definition MaxOpsPerScript :: int where "MaxOpsPerScript = 201"
definition MaxPubKeysPerMultiSig :: int where "MaxPubKeysPerMultiSig = 20"
definition MaxScriptElementSize :: nat where "MaxScriptElementSize = 520"

abbreviation malformed :: "parsedOpcode list \<times> script_err option" where
  "malformed \<equiv> ([], Some (ScriptError ErrMalformedPush))"

definition appendPop ::
  "parsedOpcode \<Rightarrow> parsedOpcode list \<times> script_err option \<Rightarrow> parsedOpcode list \<times> script_err option" where
  "appendPop pop r = (pop # fst r, snd r)"

text \<open>
  The loop of \<^verbatim>\<open>parseScriptTemplate\<close> on the table \<^verbatim>\<open>opcodeArray\<close>, by recursion on the
  rest of the script.  Every length of the table is positive or one of the three negative ones,
  so the loop advances.
\<close>

function parseScript :: "bytes \<Rightarrow> parsedOpcode list \<times> script_err option" where
  "parseScript [] = ([], None)"
| "parseScript (instr # rest) =
     (let op = opcodeArray ! unat instr; len = op_length op in
      if len = 1 then appendPop \<lparr>opcode = op, data = []\<rparr> (parseScript rest)
      else if len > 1 then
        (if int (length (instr # rest)) < len then malformed
         else appendPop \<lparr>opcode = op, data = take (nat (len - 1)) rest\<rparr>
                (parseScript (drop (nat (len - 1)) rest)))
      else
        (let k = nat (- len) in
         if length rest < k then malformed
         else if len \<notin> {- 1, - 2, - 4} then malformed
         else let l = le_nat (take k rest); body = drop k rest in
           if l > length body then malformed
           else appendPop \<lparr>opcode = op, data = take l body\<rparr> (parseScript (drop l body))))"
  by pat_completeness auto
termination by (relation "measure length") (auto simp: Let_def)

fun unparseScript :: "parsedOpcode list \<Rightarrow> script_err + bytes" where
  "unparseScript [] = Inr []"
| "unparseScript (pop # pops) =
     (case pop_bytes pop of Inl e \<Rightarrow> Inl e
      | Inr b \<Rightarrow> (case unparseScript pops of Inl e \<Rightarrow> Inl e | Inr bs \<Rightarrow> Inr (b @ bs)))"

definition removeOpcode :: "parsedOpcode list \<Rightarrow> byte \<Rightarrow> parsedOpcode list" where
  "removeOpcode pkscript op = filter (\<lambda>pop. pop_value pop \<noteq> op) pkscript"

definition canonicalPush :: "parsedOpcode \<Rightarrow> bool" where
  "canonicalPush pop =
     (let opcode = pop_value pop; d = data pop; dataLen = length d in
      if opcode > OP_16 then True
      else if opcode < OP_PUSHDATA1 \<and> opcode > OP_0 \<and> (dataLen = 1 \<and> hd d \<le> 16) then False
      else if opcode = OP_PUSHDATA1 \<and> dataLen < unat OP_PUSHDATA1 then False
      else if opcode = OP_PUSHDATA2 \<and> dataLen \<le> 0xff then False
      else if opcode = OP_PUSHDATA4 \<and> dataLen \<le> 0xffff then False
      else True)"

text \<open>\<^verbatim>\<open>bytes.Contains\<close>: some position of the first sequence starts with the second.\<close>

fun Contains :: "bytes \<Rightarrow> bytes \<Rightarrow> bool" where
  "Contains [] sub = (sub = [])"
| "Contains (b # bs) sub = (take (length sub) (b # bs) = sub \<or> Contains bs sub)"

definition removeOpcodeByData :: "parsedOpcode list \<Rightarrow> bytes \<Rightarrow> parsedOpcode list" where
  "removeOpcodeByData pkscript d =
     filter (\<lambda>pop. \<not> canonicalPush pop \<or> \<not> Contains (data pop) d) pkscript"

section \<open>Forms of scripts\<close>

definition isSmallInt :: "opcode \<Rightarrow> bool" where
  "isSmallInt op = (op_value op = OP_0 \<or> (op_value op \<ge> OP_1 \<and> op_value op \<le> OP_16))"

definition asSmallInt :: "opcode \<Rightarrow> int" where
  "asSmallInt op = (if op_value op = OP_0 then 0 else uint (op_value op - (OP_1 - 1)))"

definition isScriptHash :: "parsedOpcode list \<Rightarrow> bool" where
  "isScriptHash pops = (length pops = 3 \<and> pop_value (pops ! 0) = OP_HASH160
     \<and> pop_value (pops ! 1) = OP_DATA_20 \<and> pop_value (pops ! 2) = OP_EQUAL)"

definition IsPayToScriptHash :: "bytes \<Rightarrow> bool" where
  "IsPayToScriptHash script =
     (case parseScript script of (pops, Some e) \<Rightarrow> False | (pops, None) \<Rightarrow> isScriptHash pops)"

definition isWitnessScriptHash :: "parsedOpcode list \<Rightarrow> bool" where
  "isWitnessScriptHash pops = (length pops = 2 \<and> pop_value (pops ! 0) = OP_0 \<and> pop_value (pops ! 1) = OP_DATA_32)"

definition IsPayToWitnessScriptHash :: "bytes \<Rightarrow> bool" where
  "IsPayToWitnessScriptHash script =
     (case parseScript script of (pops, Some e) \<Rightarrow> False | (pops, None) \<Rightarrow> isWitnessScriptHash pops)"

definition isWitnessPubKeyHash :: "parsedOpcode list \<Rightarrow> bool" where
  "isWitnessPubKeyHash pops = (length pops = 2 \<and> pop_value (pops ! 0) = OP_0 \<and> pop_value (pops ! 1) = OP_DATA_20)"

definition IsPayToWitnessPubKeyHash :: "bytes \<Rightarrow> bool" where
  "IsPayToWitnessPubKeyHash script =
     (case parseScript script of (pops, Some e) \<Rightarrow> False | (pops, None) \<Rightarrow> isWitnessPubKeyHash pops)"

definition isWitnessProgram :: "parsedOpcode list \<Rightarrow> bool" where
  "isWitnessProgram pops = (length pops = 2 \<and> isSmallInt (opcode (pops ! 0)) \<and> canonicalPush (pops ! 1)
     \<and> (length (data (pops ! 1)) \<ge> 2 \<and> length (data (pops ! 1)) \<le> 40))"

definition IsWitnessProgram :: "bytes \<Rightarrow> bool" where
  "IsWitnessProgram script =
     (if length script < 4 \<or> length script > 42 then False
      else case parseScript script of (pops, Some e) \<Rightarrow> False | (pops, None) \<Rightarrow> isWitnessProgram pops)"

definition ExtractWitnessProgramInfo :: "bytes \<Rightarrow> script_err + int \<times> bytes" where
  "ExtractWitnessProgramInfo script =
     (case parseScript script of (pops, Some e) \<Rightarrow> Inl e
      | (pops, None) \<Rightarrow>
          if \<not> isWitnessProgram pops then Inl PlainError
          else Inr (asSmallInt (opcode (pops ! 0)), data (pops ! 1)))"

definition isPushOnly :: "parsedOpcode list \<Rightarrow> bool" where
  "isPushOnly pops = list_all (\<lambda>pop. \<not> pop_value pop > OP_16) pops"

definition IsPushOnlyScript :: "bytes \<Rightarrow> bool" where
  "IsPushOnlyScript script =
     (case parseScript script of (pops, Some e) \<Rightarrow> False | (pops, None) \<Rightarrow> isPushOnly pops)"

definition IsUnspendable :: "bytes \<Rightarrow> bool" where
  "IsUnspendable pkScript =
     (case parseScript pkScript of (pops, Some e) \<Rightarrow> True
      | (pops, None) \<Rightarrow> length pops > 0 \<and> pop_value (pops ! 0) = OP_RETURN)"

section \<open>Counting signature operations\<close>

text \<open>The loop of \<^verbatim>\<open>getSigOpCount\<close>, with the opcode before the current one.\<close>

fun sigOpLoop :: "parsedOpcode option \<Rightarrow> parsedOpcode list \<Rightarrow> bool \<Rightarrow> int \<Rightarrow> int" where
  "sigOpLoop prev [] precise nSigs = nSigs"
| "sigOpLoop prev (pop # pops) precise nSigs = sigOpLoop (Some pop) pops precise
     (if pop_value pop = OP_CHECKSIG \<or> pop_value pop = OP_CHECKSIGVERIFY then nSigs + 1
      else if pop_value pop = OP_CHECKMULTISIG \<or> pop_value pop = OP_CHECKMULTISIGVERIFY then
        (case prev of
           Some q \<Rightarrow> if precise \<and> pop_value q \<ge> OP_1 \<and> pop_value q \<le> OP_16 then nSigs + asSmallInt (opcode q)
                     else nSigs + MaxPubKeysPerMultiSig
         | None \<Rightarrow> nSigs + MaxPubKeysPerMultiSig)
      else nSigs)"

definition getSigOpCount :: "parsedOpcode list \<Rightarrow> bool \<Rightarrow> int" where
  "getSigOpCount pops precise = sigOpLoop None pops precise 0"

definition GetSigOpCount :: "bytes \<Rightarrow> int" where
  "GetSigOpCount script = getSigOpCount (fst (parseScript script)) False"

definition GetPreciseSigOpCount :: "bytes \<Rightarrow> bytes \<Rightarrow> bool \<Rightarrow> int" where
  "GetPreciseSigOpCount scriptSig scriptPubKey bip16 =
     (let pops = fst (parseScript scriptPubKey) in
      if \<not> (bip16 \<and> isScriptHash pops) then getSigOpCount pops True
      else case parseScript scriptSig of (sigPops, Some e) \<Rightarrow> 0
        | (sigPops, None) \<Rightarrow>
            if \<not> isPushOnly sigPops \<or> length sigPops = 0 then 0
            else let shScript = data (sigPops ! (length sigPops - 1)) in
              if length shScript = 0 then 0
              else getSigOpCount (fst (parseScript shScript)) True)"

definition payToWitnessPubKeyHashDataSize :: nat where "payToWitnessPubKeyHashDataSize = 20"
definition payToWitnessScriptHashDataSize :: nat where "payToWitnessScriptHashDataSize = 32"

definition getWitnessSigOps :: "bytes \<Rightarrow> bytes list \<Rightarrow> int" where
  "getWitnessSigOps pkScript witness =
     (case ExtractWitnessProgramInfo pkScript of Inl e \<Rightarrow> 0
      | Inr (witnessVersion, witnessProgram) \<Rightarrow>
          if witnessVersion = 0 then
            (if length witnessProgram = payToWitnessPubKeyHashDataSize then 1
             else if length witnessProgram = payToWitnessScriptHashDataSize \<and> length witness > 0
             then getSigOpCount (fst (parseScript (witness ! (length witness - 1)))) True
             else 0)
          else 0)"

text \<open>The slice \<^verbatim>\<open>sigScript[1:]\<close> of an empty script panics.\<close>

definition GetWitnessSigOpCount :: "bytes \<Rightarrow> bytes \<Rightarrow> bytes list \<Rightarrow> script_err + int" where
  "GetWitnessSigOpCount sigScript pkScript witness =
     (if IsWitnessProgram pkScript then Inr (getWitnessSigOps pkScript witness)
      else case parseScript sigScript of (sigPops, Some e) \<Rightarrow> Inr 0
        | (sigPops, None) \<Rightarrow>
            if IsPayToScriptHash pkScript \<and> isPushOnly sigPops then
              (if sigScript = [] then Inl GoPanic
               else if IsWitnessProgram (tl sigScript) then Inr (getWitnessSigOps (tl sigScript) witness)
               else Inr 0)
            else Inr 0)"

section \<open>The table\<close>

lemma length_opcodeArray: "length opcodeArray = 256"
  by (simp add: opcodeArray_def opcodeArray_push_def opcodeArray_ops_def)

definition table_length :: "nat \<Rightarrow> int" where
  "table_length i = (if i = 0 then 1 else if i \<le> 75 then int i + 1 else if i = 76 then - 1
     else if i = 77 then - 2 else if i = 78 then - 4 else 1)"

lemma opcodeArray_table: "opcodeArray = map (\<lambda>i. opc (of_nat i) (table_length i)) [0..<256]"
  by code_simp

lemma opcodeArray_nth: "opcodeArray ! unat v = \<lparr>op_value = v, op_length = table_length (unat v)\<rparr>"
  using unat_byte_less [of v] by (simp add: opcodeArray_table opc_def)

lemma table_length_cases:
  "table_length n = 1 \<or> table_length n > 1 \<or> table_length n \<in> {- 1, - 2, - 4}"
  by (simp add: table_length_def)

section \<open>Parsing and unparsing are inverse\<close>

definition wf_pop :: "parsedOpcode \<Rightarrow> bool" where
  "wf_pop pop \<longleftrightarrow> opcode pop = opcodeArray ! unat (pop_value pop) \<and> (\<exists>b. pop_bytes pop = Inr b)"

lemma appendPop_eq [simp]: "appendPop pop r = (pops, e) \<longleftrightarrow>
  (\<exists>ps. pops = pop # ps \<and> r = (ps, e))"
  by (cases r) (auto simp: appendPop_def)

text \<open>One turn of the loop: what was consumed are the bytes of the opcode that was appended.\<close>

lemma parse_step:
  obtains (malformed) "parseScript (instr # rest) = malformed"
  | (pop) pop b rest' where "instr # rest = b @ rest'" "pop_bytes pop = Inr b" "wf_pop pop"
      "parseScript (instr # rest) = appendPop pop (parseScript rest')" "b \<noteq> []"
proof -
  let ?op = "opcodeArray ! unat instr" and ?len = "table_length (unat instr)"
  have op: "op_value ?op = instr" "op_length ?op = ?len" by (simp_all add: opcodeArray_nth)
  have wf: "wf_pop \<lparr>opcode = ?op, data = d\<rparr>" if "pop_bytes \<lparr>opcode = ?op, data = d\<rparr> = Inr b" for b d
    using that by (simp add: wf_pop_def op)
  show thesis
  proof (cases "?len = 1")
    case True
    then have b: "pop_bytes \<lparr>opcode = ?op, data = []\<rparr> = Inr [instr]"
      by (simp add: pop_bytes_def op)
    show thesis
      using True by (intro pop [OF _ b wf [OF b]]) (simp_all add: op)
  next
    case n1: False
    show thesis
    proof (cases "?len > 1")
      case True
      let ?n = "nat (?len - 1)"
      show thesis
      proof (cases "int (length (instr # rest)) < ?len")
        case True
        then have "parseScript (instr # rest) = malformed" using \<open>?len > 1\<close> by (simp add: op)
        then show thesis by (rule malformed)
      next
        case False
        then have b: "pop_bytes \<lparr>opcode = ?op, data = take ?n rest\<rparr> = Inr (instr # take ?n rest)"
          using True by (simp add: pop_bytes_def op)
        have eq: "instr # rest = (instr # take ?n rest) @ drop ?n rest" by simp
        show thesis
          using True False by (intro pop [OF eq b wf [OF b]]) (simp_all add: op Let_def)
      qed
    next
      case False
      then have len: "?len \<in> {- 1, - 2, - 4}" using n1 table_length_cases [of "unat instr"] by blast
      let ?k = "nat (- ?len)" and ?l = "le_nat (take (nat (- ?len)) rest)"
      show thesis
      proof (cases "length rest < ?k \<or> ?l > length (drop ?k rest)")
        case True
        then have "parseScript (instr # rest) = malformed"
          using len False n1 by (auto simp: op Let_def)
        then show thesis by (rule malformed)
      next
        case room: False
        let ?d = "take ?l (drop ?k rest)"
        have ll: "length ?d = ?l" and lk: "length (take ?k rest) = ?k" using room by simp_all
        have "le_bytes ?k ?l = take ?k rest"
          using le_bytes_le_nat [of "take ?k rest"] lk by simp
        moreover have "le_nat (take ?k rest) = ?l" ..
        ultimately have b: "pop_bytes \<lparr>opcode = ?op, data = ?d\<rparr> = Inr (instr # take ?k rest @ ?d)"
          using len ll lk by (auto simp: pop_bytes_def op Let_def simp del: le_bytes.simps)
        have eq: "instr # rest = (instr # take ?k rest @ ?d) @ drop ?l (drop ?k rest)"
          by (simp only: append_Cons append_assoc append_take_drop_id)
        show thesis
          using len False n1 room
          by (intro pop [OF eq b wf [OF b]]) (auto simp: op Let_def)
      qed
    qed
  qed
qed

lemma parse_malformed_ErrMalformedPush:
  "parseScript s = (pops, Some e) \<Longrightarrow> e = ScriptError ErrMalformedPush"
proof (induction s arbitrary: pops rule: measure_induct_rule [of length])
  case (less s)
  show ?case
  proof (cases s)
    case Nil
    then show ?thesis using less.prems by simp
  next
    case (Cons instr rest)
    show ?thesis
    proof (cases rule: parse_step [of instr rest])
      case malformed
      then show ?thesis using less.prems Cons by simp
    next
      case (pop p b rest')
      then obtain ps where "parseScript rest' = (ps, Some e)"
        using less.prems Cons by auto
      moreover have "length rest' < length s"
        using pop(1,5) Cons by (metis length_append length_greater_0_conv less_add_same_cancel2)
      ultimately show ?thesis using less.IH by blast
    qed
  qed
qed

lemma parse_prefix:
  "parseScript s = (pops, e) \<Longrightarrow> list_all wf_pop pops \<and>
    (\<exists>pre suf. unparseScript pops = Inr pre \<and> s = pre @ suf \<and> (e = None \<longleftrightarrow> suf = []))"
proof (induction s arbitrary: pops rule: measure_induct_rule [of length])
  case (less s)
  show ?case
  proof (cases s)
    case Nil
    then show ?thesis using less.prems by auto
  next
    case (Cons instr rest)
    show ?thesis
    proof (cases rule: parse_step [of instr rest])
      case malformed
      then show ?thesis using less.prems Cons by auto
    next
      case (pop p b rest')
      then obtain ps where ps: "parseScript rest' = (ps, e)" "pops = p # ps"
        using less.prems Cons by auto
      moreover have "length rest' < length s"
        using pop(1,5) Cons by (metis length_append length_greater_0_conv less_add_same_cancel2)
      ultimately obtain pre suf where "list_all wf_pop ps" "unparseScript ps = Inr pre"
          "rest' = pre @ suf" "e = None \<longleftrightarrow> suf = []"
        using less.IH by blast
      then show ?thesis
        using pop ps(2) Cons by (intro conjI exI [of _ "b @ pre"] exI [of _ suf]) simp_all
    qed
  qed
qed

lemma pop_bytes_parse:
  assumes wf: "wf_pop pop" and b: "pop_bytes pop = Inr b"
  shows "parseScript (b @ rest) = appendPop pop (parseScript rest)"
proof -
  obtain v d where p: "pop = \<lparr>opcode = opcodeArray ! unat v, data = d\<rparr>" "pop_value pop = v"
    using wf by (cases pop) (auto simp: wf_pop_def)
  let ?len = "table_length (unat v)"
  have op: "op_value (opcodeArray ! unat v) = v" "op_length (opcodeArray ! unat v) = ?len"
    by (simp_all add: opcodeArray_nth)
  consider "?len = 1" | "?len > 1" | "?len \<in> {- 1, - 2, - 4}" using table_length_cases by blast
  then show ?thesis
  proof cases
    case 1
    then have "d = []" "b = [v]" using b by (auto simp: p(1) pop_bytes_def op split: if_splits)
    then show ?thesis using 1 by (simp add: p(1) op)
  next
    case 2
    then have "int (Suc (length d)) = ?len" "b = v # d"
      using b by (auto simp: p(1) pop_bytes_def op Let_def split: if_splits)
    then show ?thesis using 2 by (simp add: p(1) op Let_def)
  next
    case 3
    let ?k = "nat (- ?len)"
    have "le_nat (le_bytes ?k (length d)) = length d" "b = v # le_bytes ?k (length d) @ d"
      using b 3 by (auto simp: p(1) pop_bytes_def op Let_def split: if_splits)
    then show ?thesis using 3 by (auto simp: p(1) op Let_def)
  qed
qed

lemma unparse_parse:
  "list_all wf_pop pops \<Longrightarrow> unparseScript pops = Inr s \<Longrightarrow> parseScript s = (pops, None)"
proof (induction pops arbitrary: s)
  case Nil
  then show ?case by simp
next
  case (Cons p ps)
  then obtain b t where "pop_bytes p = Inr b" "unparseScript ps = Inr t" "s = b @ t"
    by (auto split: sum.splits)
  then show ?case using Cons pop_bytes_parse [of p b t] by (simp add: appendPop_def)
qed

lemma parse_iff:
  "parseScript s = (pops, None) \<longleftrightarrow> list_all wf_pop pops \<and> unparseScript pops = Inr s"
proof
  assume "parseScript s = (pops, None)"
  then show "list_all wf_pop pops \<and> unparseScript pops = Inr s"
    using parse_prefix [of s pops None] by auto
next
  assume "list_all wf_pop pops \<and> unparseScript pops = Inr s"
  then show "parseScript s = (pops, None)" using unparse_parse by blast
qed

section \<open>Scripts recognised by their bytes\<close>

lemma wf_pop_single:
  assumes "wf_pop p" "table_length (unat (pop_value p)) = 1"
  shows "pop_bytes p = Inr [pop_value p] \<and> data p = []"
proof -
  have "op_length (opcode p) = 1"
    using assms by (metis wf_pop_def opcodeArray_nth opcode.select_convs(2))
  then show ?thesis using assms(1) by (auto simp: wf_pop_def pop_bytes_def split: if_splits)
qed

lemma op_length_push:
  "0 < unat (v :: byte) \<Longrightarrow> unat v \<le> 75 \<Longrightarrow> op_length (opcodeArray ! unat v) = int (unat v) + 1"
  by (simp add: opcodeArray_nth table_length_def)

lemma pop_bytes_push:
  "op_length (opcode p) = int n + 1 \<Longrightarrow> 0 < n \<Longrightarrow>
   pop_bytes p = Inr b \<longleftrightarrow> length (data p) = n \<and> b = pop_value p # data p"
  by (auto simp: pop_bytes_def Let_def)

lemma wf_pop_push:
  assumes "wf_pop p" "0 < unat (pop_value p)" "unat (pop_value p) \<le> 75"
  shows "pop_bytes p = Inr (pop_value p # data p) \<and> length (data p) = unat (pop_value p)"
proof -
  have "op_length (opcode p) = int (unat (pop_value p)) + 1"
    using op_length_push [OF assms(2,3)] assms(1) by (metis wf_pop_def)
  note b = pop_bytes_push [OF this assms(2)]
  then show ?thesis using assms(1) by (auto simp only: wf_pop_def)
qed

lemma opcodeArray_at:
  "n < 256 \<Longrightarrow> opcodeArray ! n = \<lparr>op_value = of_nat n, op_length = table_length n\<rparr>"
  by (simp add: opcodeArray_table opc_def)

lemma parse_single:
  "table_length (unat v) = 1 \<Longrightarrow>
   parseScript (v # rest) = appendPop \<lparr>opcode = opcodeArray ! unat v, data = []\<rparr> (parseScript rest)"
  by (simp add: opcodeArray_nth)

lemma parse_push:
  assumes "0 < unat v" "unat v \<le> 75" "length d = unat v"
  shows "parseScript (v # d @ rest) =
    appendPop \<lparr>opcode = opcodeArray ! unat v, data = d\<rparr> (parseScript rest)"
proof -
  obtain n where n: "unat v = n" by blast
  have "op_length (opcodeArray ! unat v) = int n + 1"
    using op_length_push assms(1,2) n by blast
  then show ?thesis using assms n by (simp add: Let_def)
qed

lemma pop_value_nth [simp]: "pop_value \<lparr>opcode = opcodeArray ! unat v, data = d\<rparr> = v"
  by (simp add: opcodeArray_nth)

lemma p2sh_bytes:
  "IsPayToScriptHash s \<longleftrightarrow> length s = 23 \<and> s ! 0 = OP_HASH160 \<and> s ! 1 = OP_DATA_20 \<and> s ! 22 = OP_EQUAL"
    (is "?P \<longleftrightarrow> ?B")
proof
  assume ?P
  then obtain p0 p1 p2 where ps: "parseScript s = ([p0, p1, p2], None)" and
    v: "pop_value p0 = OP_HASH160" "pop_value p1 = OP_DATA_20" "pop_value p2 = OP_EQUAL"
    by (auto simp: IsPayToScriptHash_def isScriptHash_def numeral_3_eq_3 length_Suc_conv
        split: prod.splits option.splits)
  have "wf_pop p0" "wf_pop p1" "wf_pop p2" and u: "unparseScript [p0, p1, p2] = Inr s"
    using ps by (simp_all add: parse_iff)
  then have "pop_bytes p0 = Inr [OP_HASH160]" "pop_bytes p2 = Inr [OP_EQUAL]"
      "pop_bytes p1 = Inr (OP_DATA_20 # data p1)" "length (data p1) = 20"
    using wf_pop_single [of p0] wf_pop_single [of p2] wf_pop_push [of p1] v
    by (simp_all add: table_length_def)
  then show ?B using u by (auto simp: nth_append)
next
  assume B: ?B
  define d where "d = take 20 (drop 2 s)"
  have "length d = 20" using B by (simp add: d_def)
  moreover have "s = OP_HASH160 # OP_DATA_20 # d @ [OP_EQUAL]"
  proof (rule nth_equalityI)
    show "length s = length (OP_HASH160 # OP_DATA_20 # d @ [OP_EQUAL])" using B by (simp add: d_def)
    fix i assume "i < length s"
    then consider "i = 0" | "i = 1" | j where "i = Suc (Suc j)" "j < 20" | "i = 22"
      using B by (cases i; cases "i - 1") (auto, linarith)
    then show "s ! i = (OP_HASH160 # OP_DATA_20 # d @ [OP_EQUAL]) ! i"
      using B by cases (auto simp: d_def nth_append)
  qed
  ultimately show ?P
    using parse_push [of OP_DATA_20 d "[OP_EQUAL]"]
    by (simp add: IsPayToScriptHash_def parse_single table_length_def appendPop_def isScriptHash_def
        opcodeArray_at del: parseScript.simps(2))
qed

lemma witness_program_bytes:
  "IsWitnessProgram s \<longleftrightarrow> 4 \<le> length s \<and> length s \<le> 42
     \<and> (s ! 0 = OP_0 \<or> OP_1 \<le> s ! 0 \<and> s ! 0 \<le> OP_16) \<and> unat (s ! 1) + 2 = length s"
    (is "?P \<longleftrightarrow> ?B")
proof
  assume ?P
  then obtain p0 p1 where ps: "parseScript s = ([p0, p1], None)" and
    v: "isSmallInt (opcode p0)" "canonicalPush p1" "2 \<le> length (data p1)" "length (data p1) \<le> 40"
    and l: "4 \<le> length s" "length s \<le> 42"
    by (auto simp: IsWitnessProgram_def isWitnessProgram_def numeral_2_eq_2 length_Suc_conv
        split: prod.splits option.splits if_splits)
  have wf: "wf_pop p0" "wf_pop p1" and u: "unparseScript [p0, p1] = Inr s"
    using ps by (simp_all add: parse_iff)
  have "table_length (unat (pop_value p0)) = 1"
    using v(1) by (auto simp: isSmallInt_def table_length_def word_le_nat_alt)
  then have p0: "pop_bytes p0 = Inr [pop_value p0]" using wf(1) wf_pop_single by blast
  obtain b1 where b1: "pop_bytes p1 = Inr b1" using wf(2) by (auto simp: wf_pop_def)
  have "unat (pop_value p1) \<le> 75 \<and> 0 < unat (pop_value p1)"
  proof (rule ccontr)
    assume "\<not> (unat (pop_value p1) \<le> 75 \<and> 0 < unat (pop_value p1))"
    moreover have "table_length (unat (pop_value p1)) \<noteq> 1"
      using wf_pop_single [OF wf(2)] v(3) by auto
    ultimately have "unat (pop_value p1) \<in> {76, 77, 78}"
      by (auto simp: table_length_def split: if_splits)
    then have "pop_value p1 \<in> {OP_PUSHDATA1, OP_PUSHDATA2, OP_PUSHDATA4}"
      by (simp add: word_unat_eq_iff)
    then show False using v(2,4) by (auto simp: canonicalPush_def Let_def)
  qed
  then have "pop_bytes p1 = Inr (pop_value p1 # data p1)" "length (data p1) = unat (pop_value p1)"
    using wf_pop_push wf(2) by blast+
  then show ?B using u p0 l v(1) by (auto simp: isSmallInt_def)
next
  assume B: ?B
  define d where "d = drop 2 s"
  have s: "s = s ! 0 # s ! 1 # d"
    using B by (cases s; cases "tl s") (auto simp: d_def)
  have len: "length d = unat (s ! 1)" "2 \<le> unat (s ! 1)" "unat (s ! 1) \<le> 40"
    using B by (auto simp: d_def)
  have t: "table_length (unat (s ! 0)) = 1"
    using B by (auto simp: table_length_def word_le_nat_alt)
  have "parseScript (s ! 1 # d) = appendPop \<lparr>opcode = opcodeArray ! unat (s ! 1), data = d\<rparr> ([], None)"
    using parse_push [of "s ! 1" d "[]"] len by simp
  then have "parseScript s = ([\<lparr>opcode = opcodeArray ! unat (s ! 0), data = []\<rparr>,
      \<lparr>opcode = opcodeArray ! unat (s ! 1), data = d\<rparr>], None)"
    using parse_single [OF t, of "s ! 1 # d"] s by (simp add: appendPop_def del: parseScript.simps(2))
  then show ?P
    using B len
    by (auto simp: IsWitnessProgram_def isWitnessProgram_def isSmallInt_def canonicalPush_def Let_def
       opcodeArray_nth word_le_nat_alt word_less_nat_alt)
qed
section \<open>Bounds on the signature operations\<close>

lemma asSmallInt_bounds: "OP_1 \<le> op_value q \<Longrightarrow> op_value q \<le> OP_16 \<Longrightarrow> 1 \<le> asSmallInt q \<and> asSmallInt q \<le> 16"
proof -
  assume a: "OP_1 \<le> op_value q" "op_value q \<le> OP_16"
  then have b: "81 \<le> unat (op_value q)" "unat (op_value q) \<le> 96"
    by (simp_all add: word_le_nat_alt)
  then have "80 \<le> op_value q" by (simp add: word_le_nat_alt)
  then have "unat (op_value q - 80) = unat (op_value q) - 80" by (simp add: unat_sub)
  then have "1 \<le> unat (op_value q - 80)" "unat (op_value q - 80) \<le> 16" using b by simp_all
  then have "1 \<le> uint (op_value q - 80) \<and> uint (op_value q - 80) \<le> 16"
    by (simp only: uint_nat of_nat_le_iff [where ?'a = int, symmetric]) simp
  moreover have "op_value q \<noteq> 0" using b by auto
  ultimately show ?thesis by (simp add: asSmallInt_def)
qed

lemma sigOpLoop_add: "sigOpLoop prev pops precise n = n + sigOpLoop prev pops precise 0"
proof (induction pops arbitrary: prev n)
  case Nil
  then show ?case by simp
next
  case (Cons p ps)
  show ?case
    by (simp only: sigOpLoop.simps, subst (1 2) Cons.IH) (auto split: option.splits)
qed

definition popSigOps :: "parsedOpcode option \<Rightarrow> parsedOpcode \<Rightarrow> bool \<Rightarrow> int" where
  "popSigOps prev p b = sigOpLoop prev [p] b 0"

lemma sigOpLoop_Cons: "sigOpLoop prev (p # ps) b 0 = popSigOps prev p b + sigOpLoop (Some p) ps b 0"
  unfolding popSigOps_def by (simp only: sigOpLoop.simps, subst sigOpLoop_add) simp

lemma popSigOps_bounds:
  "0 \<le> popSigOps prev p True \<and> popSigOps prev p True \<le> popSigOps prev p False
   \<and> popSigOps prev p False \<le> 20"
proof (cases prev)
  case (Some q)
  then show ?thesis
    using asSmallInt_bounds [of "opcode q"]
    by (auto simp: popSigOps_def MaxPubKeysPerMultiSig_def)
qed (simp add: popSigOps_def MaxPubKeysPerMultiSig_def)

lemma sigOpLoop_bounds:
  "0 \<le> sigOpLoop prev pops True 0 \<and> sigOpLoop prev pops True 0 \<le> sigOpLoop prev pops False 0
   \<and> sigOpLoop prev pops False 0 \<le> 20 * int (length pops)"
proof (induction pops arbitrary: prev)
  case Nil
  then show ?case by simp
next
  case (Cons p ps)
  show ?case
    unfolding sigOpLoop_Cons
    using Cons.IH [of "Some p"] popSigOps_bounds [of prev p] by simp
qed

section \<open>Properties\<close>

text \<open>
  C30: parsing succeeds on a script with a list of opcodes exactly when the opcodes are entries
  of the table with data of a size they can carry and unparsing them gives the script back; so
  parsing and unparsing are inverse to each other and every script has at most one parse.
\<close>

theorem parse_unparse_inverse:
  "parseScript s = (pops, None) \<longleftrightarrow> list_all wf_pop pops \<and> unparseScript pops = Inr s"
  by (rule parse_iff)

text \<open>
  when parsing fails, the error is a malformed push, and the opcodes returned next to it
  are the parse of a proper prefix of the script.
\<close>

theorem parse_error_prefix:
  assumes "parseScript s = (pops, Some e)"
  shows "e = ScriptError ErrMalformedPush \<and>
    (\<exists>pre suf. s = pre @ suf \<and> suf \<noteq> [] \<and> parseScript pre = (pops, None))"
proof -
  obtain pre suf where "list_all wf_pop pops" "unparseScript pops = Inr pre" "s = pre @ suf" "suf \<noteq> []"
    using parse_prefix [OF assms] by auto
  then show ?thesis
    using parse_malformed_ErrMalformedPush [OF assms] unparse_parse by blast
qed

theorem parse_error_prefix_witness:
  "\<exists>pre suf. [0x51, 0x02, 0x07] = pre @ suf \<and> suf \<noteq> []
     \<and> parseScript pre = ([\<lparr>opcode = opc 0x51 1, data = []\<rparr>], None)"
proof -
  have "parseScript [0x51, 0x02, 0x07] =
      ([\<lparr>opcode = opc 0x51 1, data = []\<rparr>], Some (ScriptError ErrMalformedPush))"
    by (simp add: opcodeArray_at table_length_def appendPop_def opc_def Let_def)
  then show ?thesis using parse_error_prefix by blast
qed

text \<open>
  the recognisers that work on parsed opcodes agree with the byte patterns of the output
  types: a pay-to-script-hash script is a fixed frame around 20 bytes, and a witness program is
  a version opcode followed by one direct push of the remaining 2 to 40 bytes.
\<close>

theorem script_forms_by_bytes:
  "(IsPayToScriptHash s \<longleftrightarrow>
      length s = 23 \<and> s ! 0 = OP_HASH160 \<and> s ! 1 = OP_DATA_20 \<and> s ! 22 = OP_EQUAL) \<and>
   (IsWitnessProgram s \<longleftrightarrow> 4 \<le> length s \<and> length s \<le> 42
      \<and> (s ! 0 = OP_0 \<or> OP_1 \<le> s ! 0 \<and> s ! 0 \<le> OP_16) \<and> unat (s ! 1) + 2 = length s)"
  using p2sh_bytes witness_program_bytes by blast

text \<open>
  the precise count of signature operations never exceeds the quick count, which never
  exceeds twenty per opcode; both are non-negative.
\<close>

theorem sigops_bounds:
  "0 \<le> getSigOpCount pops True \<and> getSigOpCount pops True \<le> getSigOpCount pops False \<and>
   getSigOpCount pops False \<le> 20 * int (length pops)"
  unfolding getSigOpCount_def by (rule sigOpLoop_bounds)

lemma witness_sigops_panic:
  "GetWitnessSigOpCount sigScript pkScript witness = Inl GoPanic \<longleftrightarrow>
     IsPayToScriptHash pkScript \<and> sigScript = []"
proof -
  have "\<not> IsWitnessProgram pkScript" if "IsPayToScriptHash pkScript"
    using that by (auto simp: p2sh_bytes witness_program_bytes word_le_nat_alt)
  then show ?thesis
    by (auto simp: GetWitnessSigOpCount_def isPushOnly_def split: prod.splits option.splits)
qed

text \<open>
  counting the signature operations of a witness spend panics exactly when the output is a
  pay-to-script-hash output and the signature script is empty, because the code then slices the
  empty script from its second byte.
\<close>

theorem witness_sigops_panics_iff:
  "GetWitnessSigOpCount sigScript pkScript witness = Inl GoPanic \<longleftrightarrow>
     IsPayToScriptHash pkScript \<and> sigScript = []"
  by (rule witness_sigops_panic)

end
