(* ===== verification/Btcec.thy ===== *)
theory Btcec
  imports Script_Error
begin

text \<open>
  Encodings of signatures and public keys on the curve secp256k1
  (\<^verbatim>\<open>src/btcec/signature.go\<close>, \<^verbatim>\<open>src/btcec/pubkey.go\<close>).

  A \<^verbatim>\<open>big.Int\<close> is an integer.  The arithmetic of field elements is arithmetic modulo the prime
  of the field.  The verification equation of \<^verbatim>\<open>ecdsa.Verify\<close> is not modelled; the users of
  this theory take it as a parameter.
\<close>

unbundle bit_operations_syntax

section \<open>Big integers\<close>

definition SetBytes :: "bytes \<Rightarrow> int" where
  "SetBytes b = int (le_nat (rev b))"

fun nat_Bytes :: "nat \<Rightarrow> bytes" where
  "nat_Bytes n = (if n = 0 then [] else nat_Bytes (n div 256) @ [of_nat (n mod 256)])"

definition big_Bytes :: "int \<Rightarrow> bytes" where
  "big_Bytes x = nat_Bytes (nat \<bar>x\<bar>)"

function modexp :: "int \<Rightarrow> nat \<Rightarrow> int \<Rightarrow> int" where
  "modexp b e m = (if e = 0 then 1 mod m
     else let h = modexp (b * b mod m) (e div 2) m in if odd e then b * h mod m else h)"
  by pat_completeness auto
termination by (relation "measure (\<lambda>(b, e, m). e)") auto

definition isOdd :: "int \<Rightarrow> bool" where
  "isOdd a = odd a"

section \<open>The curve\<close>

definition curve_P :: int where
  "curve_P = 0xFFFFFFFFFFFFFFFFFFFFFFFFFFFFFFFFFFFFFFFFFFFFFFFFFFFFFFFEFFFFFC2F"

definition curve_N :: int where
  "curve_N = 0xFFFFFFFFFFFFFFFFFFFFFFFFFFFFFFFEBAAEDCE6AF48A03BBFD25E8CD0364141"

definition curve_B :: int where "curve_B = 7"

definition halfOrder :: int where "halfOrder = curve_N div 2"

definition QPlus1Div4 :: nat where "QPlus1Div4 = nat ((curve_P + 1) div 4)"

definition IsOnCurve :: "int \<Rightarrow> int \<Rightarrow> bool" where
  "IsOnCurve x y = (y * y mod curve_P = (x * x * x + 7) mod curve_P)"

section \<open>Signatures\<close>

record Signature =
  sigR :: int
  sigS :: int

definition minSigLen :: nat where "minSigLen = 8"

definition canonicalizeInt :: "int \<Rightarrow> bytes" where
  "canonicalizeInt val =
     (let b = big_Bytes val; b = (if length b = 0 then [0x00] else b)
      in if hd b AND 0x80 \<noteq> 0 then 0x00 # b else b)"

definition Signature_Serialize :: "Signature \<Rightarrow> bytes" where
  "Signature_Serialize sig =
     (let s = (if sigS sig > halfOrder then curve_N - sigS sig else sigS sig);
          rb = canonicalizeInt (sigR sig); sb = canonicalizeInt s;
          len = 6 + length rb + length sb
      in [0x30, of_nat (len - 2), 0x02, of_nat (length rb)] @ rb
         @ [0x02, of_nat (length sb)] @ sb)"

datatype padding = PadOk | errNegativeValue | errExcessivelyPaddedValue

definition canonicalPadding :: "bytes \<Rightarrow> script_err + padding" where
  "canonicalPadding b = bindE (indexE b 0) (\<lambda>b0.
     if b0 AND 0x80 = 0x80 then Inr errNegativeValue
     else if length b > 1 \<and> b0 = 0x00 then
       bindE (indexE b 1) (\<lambda>b1.
         if b1 AND 0x80 \<noteq> 0x80 then Inr errExcessivelyPaddedValue else Inr PadOk)
     else Inr PadOk)"

text \<open>
  \<^verbatim>\<open>parseSig\<close>; every error of its own is a \<open>PlainError\<close>.  The announced length plus two is
  computed on bytes and wraps around.
\<close>

definition checkPadding :: "bool \<Rightarrow> bytes \<Rightarrow> script_err + unit" where
  "checkPadding der b = (if der then bindE (canonicalPadding b)
     (\<lambda>p. if p = PadOk then Inr () else Inl PlainError) else Inr ())"

definition parseSigS :: "bytes \<Rightarrow> bool \<Rightarrow> int \<Rightarrow> nat \<Rightarrow> script_err + Signature" where
  "parseSigS sigStr der r index =
     bindE (indexE sigStr index) (\<lambda>b. if b \<noteq> 0x02 then Inl PlainError
     else let index = index + 1 in
     bindE (indexE sigStr index) (\<lambda>bl.
     let sLen = unat bl; index = index + 1 in
     if sLen \<le> 0 \<or> int sLen > int (length sigStr) - int index then Inl PlainError
     else bindE (sliceE sigStr index (index + sLen)) (\<lambda>sBytes.
     bindE (checkPadding der sBytes) (\<lambda>_.
     let s = SetBytes sBytes; index = index + sLen in
     if index \<noteq> length sigStr then Inl PlainError
     else if \<not> r > 0 then Inl PlainError
     else if \<not> s > 0 then Inl PlainError
     else if r \<ge> curve_N then Inl PlainError
     else if s \<ge> curve_N then Inl PlainError
     else Inr \<lparr>sigR = r, sigS = s\<rparr>))))"

definition parseSigR :: "bytes \<Rightarrow> bool \<Rightarrow> script_err + Signature" where
  "parseSigR sigStr der =
     bindE (indexE sigStr 2) (\<lambda>b2. if b2 \<noteq> 0x02 then Inl PlainError
     else bindE (indexE sigStr 3) (\<lambda>b3.
       let rLen = unat b3; index = 4 in
       if rLen \<le> 0 \<or> int rLen > int (length sigStr) - int index - 3 then Inl PlainError
       else bindE (sliceE sigStr index (index + rLen)) (\<lambda>rBytes.
       bindE (checkPadding der rBytes) (\<lambda>_.
       parseSigS sigStr der (SetBytes rBytes) (index + rLen)))))"

definition parseSig :: "bytes \<Rightarrow> bool \<Rightarrow> script_err + Signature" where
  "parseSig sigStr der =
     (if length sigStr < minSigLen then Inl PlainError
      else bindE (indexE sigStr 0) (\<lambda>b0. if b0 \<noteq> 0x30 then Inl PlainError
      else bindE (indexE sigStr 1) (\<lambda>siglen.
        if unat (siglen + 2) > length sigStr \<or> unat (siglen + 2) < minSigLen then Inl PlainError
        else bindE (sliceE sigStr 0 (unat (siglen + 2))) (\<lambda>sigStr. parseSigR sigStr der))))"

definition ParseSignature :: "bytes \<Rightarrow> script_err + Signature" where
  "ParseSignature sigStr = parseSig sigStr False"

definition ParseDERSignature :: "bytes \<Rightarrow> script_err + Signature" where
  "ParseDERSignature sigStr = parseSig sigStr True"

definition Signature_IsEqual :: "Signature \<Rightarrow> Signature \<Rightarrow> bool" where
  "Signature_IsEqual sig otherSig = (sigR sig = sigR otherSig \<and> sigS sig = sigS otherSig)"

section \<open>Public keys\<close>

record PublicKey =
  keyX :: int
  keyY :: int

definition PubKeyBytesLenCompressed :: nat where "PubKeyBytesLenCompressed = 33"
definition PubKeyBytesLenUncompressed :: nat where "PubKeyBytesLenUncompressed = 65"
definition pubkeyCompressed :: byte where "pubkeyCompressed = 0x2"
definition pubkeyUncompressed :: byte where "pubkeyUncompressed = 0x4"
definition pubkeyHybrid :: byte where "pubkeyHybrid = 0x6"

definition decompressPoint :: "int \<Rightarrow> bool \<Rightarrow> script_err + int" where
  "decompressPoint x ybit =
     (let x3 = (x * x * x + curve_B) mod curve_P;
          y = modexp x3 QPlus1Div4 curve_P;
          y = (if ybit \<noteq> isOdd y then curve_P - y else y);
          y2 = y * y mod curve_P
      in if y2 \<noteq> x3 then Inl PlainError
         else if ybit \<noteq> isOdd y then Inl PlainError
         else Inr y)"

definition IsCompressedPubKey :: "bytes \<Rightarrow> bool" where
  "IsCompressedPubKey pubKey =
     (length pubKey = PubKeyBytesLenCompressed \<and> (pubKey ! 0 AND NOT 0x1 = pubkeyCompressed))"

definition validatePubKey :: "PublicKey \<Rightarrow> script_err + PublicKey" where
  "validatePubKey pubkey =
     (if keyX pubkey \<ge> curve_P then Inl PlainError
      else if keyY pubkey \<ge> curve_P then Inl PlainError
      else if \<not> IsOnCurve (keyX pubkey) (keyY pubkey) then Inl PlainError
      else Inr pubkey)"

definition ParsePubKey :: "bytes \<Rightarrow> script_err + PublicKey" where
  "ParsePubKey pubKeyStr =
     (if length pubKeyStr = 0 then Inl PlainError
      else
        let format0 = pubKeyStr ! 0; ybit = (format0 AND 0x1 = 0x1); format = format0 AND NOT 0x1 in
        if length pubKeyStr = PubKeyBytesLenUncompressed then
          (if format \<noteq> pubkeyUncompressed \<and> format \<noteq> pubkeyHybrid then Inl PlainError
           else let x = SetBytes (drop 1 (take 33 pubKeyStr)); y = SetBytes (drop 33 pubKeyStr) in
             if format = pubkeyHybrid \<and> ybit \<noteq> isOdd y then Inl PlainError
             else validatePubKey \<lparr>keyX = x, keyY = y\<rparr>)
        else if length pubKeyStr = PubKeyBytesLenCompressed then
          (if format \<noteq> pubkeyCompressed then Inl PlainError
           else let x = SetBytes (drop 1 (take 33 pubKeyStr)) in
             bindE (decompressPoint x ybit) (\<lambda>y. validatePubKey \<lparr>keyX = x, keyY = y\<rparr>))
        else Inl PlainError)"

definition paddedAppend :: "nat \<Rightarrow> bytes \<Rightarrow> bytes \<Rightarrow> bytes" where
  "paddedAppend sz dst src = dst @ replicate (sz - length src) 0 @ src"

definition SerializeUncompressed :: "PublicKey \<Rightarrow> bytes" where
  "SerializeUncompressed p =
     paddedAppend 32 (paddedAppend 32 [pubkeyUncompressed] (big_Bytes (keyX p))) (big_Bytes (keyY p))"

definition SerializeCompressed :: "PublicKey \<Rightarrow> bytes" where
  "SerializeCompressed p =
     (let format = (if isOdd (keyY p) then pubkeyCompressed OR 0x1 else pubkeyCompressed)
      in paddedAppend 32 [format] (big_Bytes (keyX p)))"

definition SerializeHybrid :: "PublicKey \<Rightarrow> bytes" where
  "SerializeHybrid p =
     (let format = (if isOdd (keyY p) then pubkeyHybrid OR 0x1 else pubkeyHybrid)
      in paddedAppend 32 (paddedAppend 32 [format] (big_Bytes (keyX p))) (big_Bytes (keyY p)))"

definition PublicKey_IsEqual :: "PublicKey \<Rightarrow> PublicKey \<Rightarrow> bool" where
  "PublicKey_IsEqual p otherPubKey = (keyX p = keyX otherPubKey \<and> keyY p = keyY otherPubKey)"

section \<open>Lemmas on encodings of integers\<close>

unbundle bit_operations_syntax

declare nat_Bytes.simps [simp del] modexp.simps [simp del]

section \<open>Big endian integers\<close>

lemma nat_Bytes_0 [simp]: "nat_Bytes 0 = []"
  by (simp add: nat_Bytes.simps)

lemma nat_Bytes_pos: "n \<noteq> 0 \<Longrightarrow> nat_Bytes n = nat_Bytes (n div 256) @ [of_nat (n mod 256)]"
  by (subst nat_Bytes.simps) (simp only: if_False)

lemma and_exp_bit: "bit (b :: 'a :: len word) n \<Longrightarrow> b AND 2 ^ n = 2 ^ n"
  by (rule bit_eqI) (auto simp: bit_simps)

lemma byte_msb_set: "(b :: byte) AND 0x80 = 0x80 \<longleftrightarrow> 128 \<le> unat b"
  using and_exp_bit [of b 7] byte_msb [of b] by (auto simp: bit_byte7)

lemma SetBytes_append: "SetBytes (a @ b) = SetBytes a * 256 ^ length b + SetBytes b"
  by (simp add: SetBytes_def le_nat_append algebra_simps)

lemma SetBytes_nonneg [simp]: "0 \<le> SetBytes b"
  by (simp add: SetBytes_def)

lemma SetBytes_bound: "SetBytes b < 256 ^ length b"
proof -
  have "int (le_nat (rev b)) < int (256 ^ length b)"
    using le_nat_bound [of "rev b"] by (simp only: of_nat_less_iff length_rev)
  then show ?thesis by (simp add: SetBytes_def)
qed

lemma SetBytes_zeros [simp]: "SetBytes (replicate n 0) = 0"
  by (induction n) (simp_all add: SetBytes_def le_nat_append)

lemma le_nat_nat_Bytes: "le_nat (rev (nat_Bytes n)) = n"
proof (induction n rule: nat_Bytes.induct)
  case (1 n)
  show ?case
  proof (cases "n = 0")
    case False
    then have "le_nat (rev (nat_Bytes n)) = unat (of_nat (n mod 256) :: byte) + 256 * (n div 256)"
      using 1 by (simp add: nat_Bytes_pos)
    then show ?thesis by (simp add: unat_of_nat)
  qed simp
qed

lemma nat_Bytes_unique: "b = [] \<or> hd b \<noteq> 0 \<Longrightarrow> nat_Bytes (le_nat (rev b)) = b"
proof (induction b rule: rev_induct)
  case Nil
  then show ?case by simp
next
  case (snoc x c)
  define n where "n = le_nat (rev (c @ [x]))"
  have "n \<noteq> 0"
  proof (cases "c = []")
    case True
    then show ?thesis using snoc.prems by (simp add: n_def unat_eq_0)
  next
    case False
    then have "nat_Bytes (le_nat (rev c)) = c" using snoc by simp
    then have "le_nat (rev c) \<noteq> 0" using False by (metis nat_Bytes_0)
    then show ?thesis by (simp add: n_def)
  qed
  moreover have "n div 256 = le_nat (rev c)" "n mod 256 = unat x"
    using unat_byte_less [of x] by (simp_all add: n_def)
  moreover have "nat_Bytes (le_nat (rev c)) = c" using snoc by (cases "c = []") auto
  ultimately have "nat_Bytes n = c @ [x]" using nat_Bytes_pos [of n] by simp
  then show ?case by (simp only: n_def)
qed

lemma hd_nat_Bytes: "n \<noteq> 0 \<Longrightarrow> nat_Bytes n \<noteq> [] \<and> hd (nat_Bytes n) \<noteq> 0"
proof (induction n rule: nat_Bytes.induct)
  case (1 n)
  show ?case
  proof (cases "n div 256 = 0")
    case True
    then have "n < 256" by simp
    then have "nat_Bytes n = [of_nat n]" using 1(2) by (simp add: nat_Bytes_pos)
    moreover have "(of_nat n :: byte) \<noteq> 0"
      using \<open>n < 256\<close> 1(2) by (simp add: word_unat_eq_iff unat_of_nat)
    ultimately show ?thesis by simp
  next
    case False
    then show ?thesis using 1 nat_Bytes_pos [of n] by auto
  qed
qed

lemma length_nat_Bytes: "n < 256 ^ k \<Longrightarrow> length (nat_Bytes n) \<le> k"
proof (induction k arbitrary: n)
  case 0
  then show ?case by simp
next
  case (Suc k)
  then have "n div 256 < 256 ^ k" by (simp add: less_mult_imp_div_less mult.commute)
  then show ?case using Suc.IH by (cases "n = 0") (simp_all add: nat_Bytes_pos [of n])
qed

lemma SetBytes_big_Bytes: "0 \<le> x \<Longrightarrow> SetBytes (big_Bytes x) = x"
  by (simp add: SetBytes_def big_Bytes_def le_nat_nat_Bytes)

lemma padded_big_Bytes:
  "length b = k \<Longrightarrow> replicate (k - length (big_Bytes (SetBytes b))) 0 @ big_Bytes (SetBytes b) = b"
proof (induction b arbitrary: k)
  case Nil
  then show ?case by (simp add: SetBytes_def big_Bytes_def)
next
  case (Cons x b)
  show ?case
  proof (cases "x = 0")
    case True
    have v: "SetBytes (0 # b) = SetBytes b" by (simp add: SetBytes_def le_nat_append)
    have "length (big_Bytes (SetBytes b)) \<le> length b"
      using SetBytes_bound [of b]
      by (simp add: big_Bytes_def length_nat_Bytes nat_less_iff)
    then have "k - length (big_Bytes (SetBytes b)) = Suc (length b - length (big_Bytes (SetBytes b)))"
      using Cons.prems by simp
    then show ?thesis using Cons.IH [of "length b"] True by (simp add: v)
  next
    case False
    then have "big_Bytes (SetBytes (x # b)) = x # b"
      using nat_Bytes_unique [of "x # b"] by (simp add: big_Bytes_def SetBytes_def)
    then show ?thesis using Cons.prems by simp
  qed
qed


section \<open>Canonical integers\<close>

definition der_int :: "bytes \<Rightarrow> bool" where
  "der_int b \<longleftrightarrow> b \<noteq> [] \<and> unat (hd b) < 128 \<and> (length b > 1 \<and> hd b = 0 \<longrightarrow> 128 \<le> unat (b ! 1))"

lemma checkPadding_der: "checkPadding True b = Inr () \<longleftrightarrow> der_int b"
proof (cases b)
  case Nil
  then show ?thesis by (simp add: checkPadding_def canonicalPadding_def indexE_def der_int_def)
next
  case (Cons x c)
  then show ?thesis
    by (auto simp: checkPadding_def canonicalPadding_def der_int_def byte_msb_set split: if_splits)
qed

lemma der_int_canonicalizeInt: "0 \<le> x \<Longrightarrow> der_int (canonicalizeInt x) \<and> SetBytes (canonicalizeInt x) = x"
proof (cases "x = 0")
  case True
  then show ?thesis by (simp add: canonicalizeInt_def big_Bytes_def der_int_def SetBytes_def)
next
  case False
  assume "0 \<le> x"
  then have "SetBytes (big_Bytes x) = x" by (rule SetBytes_big_Bytes)
  moreover have "big_Bytes x \<noteq> []" "hd (big_Bytes x) \<noteq> 0"
    using \<open>0 \<le> x\<close> False hd_nat_Bytes [of "nat x"] by (simp_all add: big_Bytes_def)
  moreover have "SetBytes (0 # big_Bytes x) = SetBytes (big_Bytes x)"
    by (simp add: SetBytes_def le_nat_append)
  ultimately show ?thesis
    by (auto simp: canonicalizeInt_def der_int_def Let_def byte_msb hd_conv_nth)
qed

lemma der_int_unique: "der_int b \<Longrightarrow> canonicalizeInt (SetBytes b) = b"
proof -
  assume d: "der_int b"
  then obtain x c where b: "b = x # c" by (cases b) (auto simp: der_int_def)
  show ?thesis
  proof (cases "x = 0")
    case False
    then have "big_Bytes (SetBytes b) = b"
      using nat_Bytes_unique [of b] b by (simp add: big_Bytes_def SetBytes_def)
    then show ?thesis using d b by (simp add: canonicalizeInt_def der_int_def byte_msb)
  next
    case True
    then have v: "SetBytes b = SetBytes c" by (simp add: b SetBytes_def le_nat_append)
    show ?thesis
    proof (cases c)
      case Nil
      then show ?thesis using True b by (simp add: canonicalizeInt_def SetBytes_def big_Bytes_def)
    next
      case (Cons y d')
      then have y: "128 \<le> unat y" using d b True by (simp add: der_int_def)
      then have "y \<noteq> 0" by auto
      then have "big_Bytes (SetBytes c) = c"
        using nat_Bytes_unique [of c] Cons by (simp add: big_Bytes_def SetBytes_def)
      then show ?thesis using Cons y True b v by (simp add: canonicalizeInt_def byte_msb)
    qed
  qed
qed

lemma length_canonicalizeInt:
  assumes "0 \<le> x" "x < 256 ^ k"
  shows "length (canonicalizeInt x) \<le> Suc k \<and> canonicalizeInt x \<noteq> []"
proof -
  have "length (big_Bytes x) \<le> k"
    using assms by (simp add: big_Bytes_def length_nat_Bytes nat_less_iff)
  then show ?thesis by (simp add: canonicalizeInt_def Let_def)
qed

lemma length_canonicalizeInt_N:
  "0 \<le> x \<Longrightarrow> x < curve_N \<Longrightarrow> length (canonicalizeInt x) \<le> 33 \<and> canonicalizeInt x \<noteq> []"
  using length_canonicalizeInt [of x 32] by (simp add: curve_N_def)


section \<open>The frame of a signature\<close>

definition sig_frame :: "bytes \<Rightarrow> bytes \<Rightarrow> bytes" where
  "sig_frame rb sb = [0x30, of_nat (4 + length rb + length sb), 0x02, of_nat (length rb)] @ rb
     @ [0x02, of_nat (length sb)] @ sb"

definition checkRange :: "int \<Rightarrow> int \<Rightarrow> script_err + Signature" where
  "checkRange r s = (if \<not> r > 0 then Inl PlainError else if \<not> s > 0 then Inl PlainError
     else if r \<ge> curve_N then Inl PlainError else if s \<ge> curve_N then Inl PlainError
     else Inr \<lparr>sigR = r, sigS = s\<rparr>)"

lemma unat_byte_add2: "n + 2 < 256 \<Longrightarrow> unat (of_nat n + 2 :: byte) = n + 2"
  by (simp add: unat_word_ariths unat_of_nat)

lemma nth_middle: "i = length xs \<Longrightarrow> (xs @ y # ys) ! i = y"
  by simp

lemma slice_middle: "i = length xs \<Longrightarrow> j = length xs + length ys \<Longrightarrow> drop i (take j (xs @ ys @ zs)) = ys"
  by simp

lemma parseSig_frame:
  assumes ne: "rb \<noteq> []" "sb \<noteq> []" and n: "6 + length rb + length sb < 256"
  shows "parseSig (sig_frame rb sb @ trail) der =
    bindE (checkPadding der rb) (\<lambda>_. bindE (checkPadding der sb) (\<lambda>_.
      checkRange (SetBytes rb) (SetBytes sb)))"
proof -
  define f where "f = sig_frame rb sb"
  define k where "k = 4 + length rb + length sb"
  have flen: "length f = k + 2" by (simp add: f_def k_def sig_frame_def)
  have len: "unat (of_nat k + 2 :: byte) = k + 2"
    using n by (intro unat_byte_add2) (simp add: k_def)
  have f0: "(f @ trail) ! 0 = 0x30" "(f @ trail) ! Suc 0 = of_nat k"
    by (simp_all add: f_def k_def sig_frame_def)
  have f2: "f ! 2 = 0x02" "f ! 3 = of_nat (length rb)"
    by (simp_all add: f_def sig_frame_def eval_nat_numeral)
  have rl: "unat (of_nat (length rb) :: byte) = length rb" "unat (of_nat (length sb) :: byte) = length sb"
    using n by (simp_all add: unat_of_nat_byte)
  have ui: "uint (of_nat (length rb) :: byte) = int (length rb)" "uint (of_nat (length sb) :: byte) = int (length sb)"
    using rl by (metis uint_nat)+
  have r: "drop 4 (take (4 + length rb) f) = rb"
    unfolding f_def sig_frame_def by (rule slice_middle) simp_all
  have m: "f ! (4 + length rb) = 0x02" "f ! Suc (4 + length rb) = of_nat (length sb)"
    by (simp_all add: f_def sig_frame_def nth_append)
  have s: "drop (Suc (Suc (4 + length rb))) (take (Suc (Suc (4 + length rb + length sb))) f) = sb"
  proof -
    have "f = ([0x30, of_nat k, 0x02, of_nat (length rb)] @ rb @ [0x02, of_nat (length sb)]) @ sb @ []"
      by (simp add: f_def k_def sig_frame_def)
    then show ?thesis by (simp only:) (rule slice_middle, simp_all)
  qed
  have pos: "1 \<le> length rb" "1 \<le> length sb" using ne by (simp_all add: Suc_le_eq)
  have k0: "\<not> length rb + (length sb + length trail) < 2"
    using pos by linarith
  have k: "\<not> length rb + length sb < 2" "k = 4 + length rb + length sb" "\<not> length rb \<le> 0" "\<not> length sb \<le> 0"
    using pos ne by (simp_all add: k_def)
  have "parseSig (f @ trail) der = bindE (checkPadding der rb) (\<lambda>_. bindE (checkPadding der sb) (\<lambda>_.
      checkRange (SetBytes rb) (SetBytes sb)))"
    using flen len f0 f2 rl ui r m s k(2-)
    by (simp add: parseSig_def parseSigR_def parseSigS_def minSigLen_def checkRange_def Let_def add.assoc k(1) k0)
  then show ?thesis by (simp add: f_def)
qed


lemma drop_two: "Suc i < length l \<Longrightarrow> drop i l = l ! i # l ! Suc i # drop (Suc (Suc i)) l"
  by (simp add: Cons_nth_drop_Suc)

lemma parseSig_Inr:
  assumes "parseSig b der = Inr sig"
  obtains rb sb trail where "b = sig_frame rb sb @ trail" "rb \<noteq> []" "sb \<noteq> []"
    "6 + length rb + length sb < 256"
    "checkPadding der rb = Inr ()" "checkPadding der sb = Inr ()"
    "0 < SetBytes rb" "SetBytes rb < curve_N" "0 < SetBytes sb" "SetBytes sb < curve_N"
    "sig = \<lparr>sigR = SetBytes rb, sigS = SetBytes sb\<rparr>"
proof -
  define n where "n = unat (b ! 1 + 2)"
  define str where "str = take n b"
  define rl where "rl = unat (str ! 3)"
  define sl where "sl = unat (str ! (Suc (4 + rl)))"
  define rb where "rb = drop 4 (take (4 + rl) str)"
  define sb where "sb = drop (Suc (Suc (4 + rl))) (take (Suc (Suc (4 + rl + sl))) str)"
  have n8: "8 \<le> length b" "b ! 0 = 0x30" "n \<le> length b" "8 \<le> n" 
     using assms by (auto simp: parseSig_def bindE_Inr_iff minSigLen_def n_def Let_def indexE_def split: if_splits)
  have len: "length str = n" using \<open>n \<le> length b\<close> by (simp add: str_def)
  have nfold: "unat (b ! Suc 0 + 2) = n" "take n b = str" by (simp_all add: n_def str_def)
  have "parseSigR str der = Inr sig"
  proof -
    have "0 < length b" "1 < length b" using n8 by linarith+
    then show ?thesis using assms n8(2-) nfold by (simp add: parseSig_def minSigLen_def)
  qed
  then have r: "str ! 2 = 0x02" "0 < rl" "checkPadding der rb = Inr ()"
    and "parseSigS str der (SetBytes rb) (4 + rl) = Inr sig"
    unfolding parseSigR_def by (auto simp: bindE_Inr_iff indexE_Inr_iff sliceE_Inr_iff Let_def len rl_def
      rb_def split: if_splits)
  then have s: "str ! (4 + rl) = 0x02" "0 < sl" "6 + rl + sl = n" "checkPadding der sb = Inr ()"
     "0 < SetBytes rb" "SetBytes rb < curve_N" "0 < SetBytes sb" "SetBytes sb < curve_N"
     "sig = \<lparr>sigR = SetBytes rb, sigS = SetBytes sb\<rparr>"
    unfolding parseSigS_def by (auto simp: bindE_Inr_iff indexE_Inr_iff sliceE_Inr_iff Let_def len sl_def
      sb_def split: if_splits)
  have rb: "length rb = rl" and sb: "length sb = sl"
    using s len by (auto simp: rb_def sb_def)
  have "n < 256" using unsigned_less [of "b ! 1 + 2"] by (simp add: n_def)
  have "b ! 1 + 2 = of_nat n" by (simp add: n_def)
  then have b1: "b ! 1 = of_nat (4 + rl + sl)" by (simp add: s(3) [symmetric] algebra_simps)
  have "str = str ! 0 # str ! 1 # str ! 2 # str ! 3 # drop 4 str"
    using len n8 by (simp add: Cons_nth_drop_Suc numeral_eq_Suc)
  moreover have "drop 4 str = rb @ drop (4 + rl) str"
    using append_take_drop_id [of rl "drop 4 str"] by (simp add: rb_def take_drop add.commute)
  moreover have "drop (4 + rl) str = str ! (4 + rl) # str ! Suc (4 + rl) # drop (Suc (Suc (4 + rl))) str"
    using len s(2,3) by (intro drop_two) linarith
  moreover have "drop (Suc (Suc (4 + rl))) str = sb"
    using s(3) len by (simp add: sb_def)
  moreover have "str ! 0 = 0x30" "str ! 1 = of_nat (4 + rl + sl)" using n8 b1 by (simp_all add: str_def)
  moreover have "str ! 3 = of_nat rl" "str ! Suc (4 + rl) = of_nat sl" by (simp_all add: rl_def sl_def)
  ultimately have "str = sig_frame rb sb"
    using r(1) s(1) by (simp add: sig_frame_def rb sb)
  then have "b = sig_frame rb sb @ drop n b" by (metis append_take_drop_id str_def)
  with r s rb sb \<open>n < 256\<close> show ?thesis
    by (intro that [of rb sb "drop n b"]) auto
qed


lemma checkPadding_safe: "b \<noteq> [] \<Longrightarrow> safeE (checkPadding der b)"
  by (cases b rule: list.exhaust) (auto simp: checkPadding_def canonicalPadding_def Let_def intro!: safeE_bindE safeE_if)

lemma parseSigS_safe: "index + 1 < length str \<Longrightarrow> safeE (parseSigS str der r index)"
  unfolding parseSigS_def Let_def
  by (intro safeE_bindE safeE_if safeE_indexE safeE_sliceE checkPadding_safe)
    (auto simp: pureE_iff uint_nat simp del: of_nat_unat)

lemma parseSigR_safe: "3 < length str \<Longrightarrow> safeE (parseSigR str der)"
  unfolding parseSigR_def Let_def
  by (intro safeE_bindE safeE_if safeE_indexE safeE_sliceE checkPadding_safe parseSigS_safe)
    (auto simp: pureE_iff uint_nat simp del: of_nat_unat)

lemma parseSig_safe: "safeE (parseSig str der)"
  unfolding parseSig_def Let_def minSigLen_def
  by (intro safeE_bindE safeE_if safeE_indexE safeE_sliceE checkPadding_safe parseSigR_safe) (auto simp: pureE_iff)

section \<open>Properties of signatures\<close>

definition lowS :: "int \<Rightarrow> int" where
  "lowS s = (if s > halfOrder then curve_N - s else s)"

definition valid_sig :: "Signature \<Rightarrow> bool" where
  "valid_sig sig = (0 < sigR sig \<and> sigR sig < curve_N \<and> 0 < sigS sig \<and> sigS sig < curve_N)"

lemma lowS_range: "0 < s \<Longrightarrow> s < curve_N \<Longrightarrow> 0 < lowS s \<and> lowS s \<le> halfOrder \<and> lowS s < curve_N"
  by (auto simp: lowS_def halfOrder_def curve_N_def)

lemma Serialize_frame:
  "Signature_Serialize sig = sig_frame (canonicalizeInt (sigR sig)) (canonicalizeInt (lowS (sigS sig)))"
  by (simp add: Signature_Serialize_def sig_frame_def lowS_def Let_def)

lemma parseSig_Serialize:
  assumes "valid_sig sig"
  shows "parseSig (Signature_Serialize sig @ trail) der = Inr (sig\<lparr>sigS := lowS (sigS sig)\<rparr>)"
proof -
  define rb where "rb = canonicalizeInt (sigR sig)"
  define sb where "sb = canonicalizeInt (lowS (sigS sig))"
  have r: "0 < sigR sig" "sigR sig < curve_N" "0 < lowS (sigS sig)" "lowS (sigS sig) < curve_N"
    using assms lowS_range by (auto simp: valid_sig_def)
  then have l: "length rb \<le> 33" "rb \<noteq> []" "length sb \<le> 33" "sb \<noteq> []"
    using length_canonicalizeInt_N by (simp_all add: rb_def sb_def)
  have v: "SetBytes rb = sigR sig" "SetBytes sb = lowS (sigS sig)" "der_int rb" "der_int sb"
    using r der_int_canonicalizeInt by (simp_all add: rb_def sb_def)
  then have "checkPadding der rb = Inr ()" "checkPadding der sb = Inr ()"
    using checkPadding_der by (cases der; simp add: checkPadding_def)+
  with r l v show ?thesis
    by (simp add: Serialize_frame flip: rb_def sb_def)
      (simp add: parseSig_frame checkRange_def)
qed

lemma parseSig_canonical:
  assumes "parseSig b True = Inr sig"
  shows "valid_sig sig \<and> (\<exists>trail. b = sig_frame (canonicalizeInt (sigR sig)) (canonicalizeInt (sigS sig)) @ trail)"
  using assms
proof (rule parseSig_Inr)
  fix rb sb trail
  assume "b = sig_frame rb sb @ trail" "checkPadding True rb = Inr ()" "checkPadding True sb = Inr ()"
    "0 < SetBytes rb" "SetBytes rb < curve_N" "0 < SetBytes sb" "SetBytes sb < curve_N"
    "sig = \<lparr>sigR = SetBytes rb, sigS = SetBytes sb\<rparr>"
  then show ?thesis by (auto simp: valid_sig_def checkPadding_der der_int_unique)
qed

text \<open>
  C31: Serialising a signature with \<^verbatim>\<open>0 < R, S < N\<close> and parsing it back as strict DER gives the
  same R and the low-S form of S, whatever bytes follow it.
\<close>

theorem der_signature_roundtrip:
  assumes "0 < r" "r < curve_N" "0 < s" "s < curve_N"
  shows "ParseDERSignature (Signature_Serialize \<lparr>sigR = r, sigS = s\<rparr> @ trail)
    = Inr \<lparr>sigR = r, sigS = if s > halfOrder then curve_N - s else s\<rparr>"
  using assms parseSig_Serialize [of "\<lparr>sigR = r, sigS = s\<rparr>" trail True]
  by (simp add: valid_sig_def ParseDERSignature_def lowS_def)

theorem der_signature_roundtrip_witness:
  "ParseDERSignature (Signature_Serialize \<lparr>sigR = 200, sigS = curve_N - 5\<rparr> @ [1])
    = Inr \<lparr>sigR = 200, sigS = 5\<rparr>"
  using der_signature_roundtrip [of 200 "curve_N - 5" "[1]"]
  by (simp add: curve_N_def halfOrder_def)

text \<open>
  C23: DER parsing is canonical: the inputs that parse to a signature with a low S are exactly
  the serialisation of that signature followed by arbitrary trailing bytes, for R and S in
  the range of the group order.
\<close>

theorem der_signature_canonical:
  "ParseDERSignature b = Inr sig \<and> sigS sig \<le> halfOrder \<longleftrightarrow>
    0 < sigR sig \<and> sigR sig < curve_N \<and> 0 < sigS sig \<and> sigS sig \<le> halfOrder \<and>
    (\<exists>trail. b = Signature_Serialize sig @ trail)"
proof -
  have "lowS (sigS sig) = sigS sig" if "sigS sig \<le> halfOrder"
    using that by (simp add: lowS_def)
  moreover have "halfOrder < curve_N" by (simp add: halfOrder_def curve_N_def)
  ultimately show ?thesis
    using parseSig_canonical [of b sig] parseSig_Serialize [of sig _ True]
    by (auto simp: ParseDERSignature_def Serialize_frame valid_sig_def)
qed

text \<open>
  C32: Parsing a signature, strict or not, never panics on any input: every index and slice
  expression of \<^verbatim>\<open>parseSig\<close> is in range.
\<close>

theorem parse_signature_safe:
  "ParseSignature b \<noteq> Inl GoPanic \<and> ParseDERSignature b \<noteq> Inl GoPanic"
  using parseSig_safe unfolding safeE_def ParseSignature_def ParseDERSignature_def by simp

section \<open>Properties of public keys\<close>

definition valid_key :: "PublicKey \<Rightarrow> bool" where
  "valid_key k = (0 \<le> keyX k \<and> keyX k < curve_P \<and> 0 \<le> keyY k \<and> keyY k < curve_P \<and> IsOnCurve (keyX k) (keyY k))"

lemma mod2_cases: "odd e \<Longrightarrow> (b :: int) ^ e = b * (b * b) ^ (e div 2)" "even e \<Longrightarrow> b ^ e = (b * b) ^ (e div 2)"
proof -
  assume "odd e"
  then have "e = Suc (2 * (e div 2))" by simp
  then show "b ^ e = b * (b * b) ^ (e div 2)" by (metis power_Suc power_mult power2_eq_square)
next
  assume "even e"
  then have "e = 2 * (e div 2)" by simp
  then show "b ^ e = (b * b) ^ (e div 2)" by (metis power_mult power2_eq_square)
qed

lemma modexp_power: "modexp b e m = b ^ e mod m"
proof (induction b e m rule: modexp.induct)
  case (1 b e m)
  show ?case
  proof (cases "e = 0")
    case False
    then have h: "modexp (b * b mod m) (e div 2) m = (b * b) ^ (e div 2) mod m"
      using 1 by (simp add: power_mod)
    show ?thesis
      by (subst modexp.simps) (simp add: False h Let_def mod2_cases mod_mult_right_eq)
  qed (simp add: modexp.simps [of b 0 m])
qed

lemma format_byte: "(b :: byte) = (if b AND 1 = 1 then (b AND NOT 1) OR 1 else b AND NOT 1)"
proof -
  have "b AND 1 = 1 \<longleftrightarrow> bit b 0" by (simp add: and_one_eq bit_0 odd_iff_mod_2_eq_one)
  then show ?thesis
    by (auto intro!: bit_eqI simp: bit_simps bit_0 bit_1_iff)
qed

lemma padded_SetBytes:
  "length b = 32 \<Longrightarrow> paddedAppend 32 dst (big_Bytes (SetBytes b)) = dst @ b"
  by (simp add: paddedAppend_def padded_big_Bytes)

lemma padded_field:
  assumes "0 \<le> x" "x < curve_P"
  obtains b where "length b = 32" "SetBytes b = x" "\<And>dst. paddedAppend 32 dst (big_Bytes x) = dst @ b"
proof
  define b where "b = replicate (32 - length (big_Bytes x)) 0 @ big_Bytes x"
  have "length (big_Bytes x) \<le> 32"
    using assms by (simp add: big_Bytes_def nat_less_iff length_nat_Bytes curve_P_def)
  then show "length b = 32" by (simp add: b_def)
  show "SetBytes b = x" using assms by (simp add: b_def SetBytes_append SetBytes_big_Bytes)
  show "paddedAppend 32 dst (big_Bytes x) = dst @ b" for dst by (simp add: paddedAppend_def b_def)
qed

lemma decompressPoint_Inr:
  "decompressPoint x ybit = Inr y \<Longrightarrow> 0 \<le> y \<and> isOdd y = ybit \<and> y * y mod curve_P = (x * x * x + curve_B) mod curve_P"
proof -
  assume a: "decompressPoint x ybit = Inr y"
  define z where "z = modexp ((x * x * x + curve_B) mod curve_P) QPlus1Div4 curve_P"
  have "0 \<le> z" "z < curve_P" unfolding z_def modexp_power by (simp_all add: curve_P_def)
  with a show ?thesis
    by (auto simp: decompressPoint_def Let_def z_def [symmetric] split: if_splits)
qed

lemma validatePubKey_Inr:
  "validatePubKey k = Inr k' \<longleftrightarrow> k' = k \<and> keyX k < curve_P \<and> keyY k < curve_P \<and> IsOnCurve (keyX k) (keyY k)"
  by (auto simp: validatePubKey_def)

lemma split_key65:
  assumes "length b = 65"
  obtains f xb yb where "b = f # xb @ yb" "length xb = 32" "length yb = 32"
proof -
  have "b = hd b # take 32 (tl b) @ drop 32 (tl b)" using assms by (cases b) auto
  then show ?thesis using assms by (intro that [of "hd b" "take 32 (tl b)" "drop 32 (tl b)"]) simp_all
qed

lemma split_key33: "length b = 33 \<Longrightarrow> \<exists>f xb. b = f # xb \<and> length xb = 32"
  by (cases b) auto

lemma ParsePubKey65:
  assumes "length xb = 32" "length yb = 32"
  shows "ParsePubKey (f # xb @ yb) = Inr k \<longleftrightarrow>
     k = \<lparr>keyX = SetBytes xb, keyY = SetBytes yb\<rparr> \<and> valid_key k \<and>
     (f AND NOT 1 = 4 \<or> f AND NOT 1 = 6 \<and> (f AND 1 = 1 \<longleftrightarrow> isOdd (SetBytes yb)))"
  using assms by (auto simp: ParsePubKey_def PubKeyBytesLenUncompressed_def Let_def validatePubKey_Inr valid_key_def
      pubkeyUncompressed_def pubkeyHybrid_def)

lemma ParsePubKey33:
  assumes "length xb = 32"
  shows "ParsePubKey (f # xb) = Inr k \<longleftrightarrow>
     f AND NOT 1 = 2 \<and> (\<exists>y. decompressPoint (SetBytes xb) (f AND 1 = 1) = Inr y \<and>
     k = \<lparr>keyX = SetBytes xb, keyY = y\<rparr> \<and> valid_key k)"
  using assms by (auto simp: ParsePubKey_def PubKeyBytesLenUncompressed_def PubKeyBytesLenCompressed_def
      Let_def validatePubKey_Inr valid_key_def bindE_Inr_iff pubkeyCompressed_def dest: decompressPoint_Inr)

lemma ParsePubKey_length: "ParsePubKey b = Inr k \<Longrightarrow> length b = 65 \<or> length b = 33"
  by (auto simp: ParsePubKey_def PubKeyBytesLenUncompressed_def PubKeyBytesLenCompressed_def Let_def split: if_splits)

lemma parse_serialized:
  assumes "valid_key k"
  shows "ParsePubKey (SerializeUncompressed k) = Inr k \<and> ParsePubKey (SerializeHybrid k) = Inr k \<and>
    (\<forall>k'. ParsePubKey (SerializeCompressed k) = Inr k' \<longrightarrow> keyX k' = keyX k \<and> (odd (keyY k') \<longleftrightarrow> odd (keyY k)))"
proof -
  note bounds = assms [unfolded valid_key_def]
  obtain xb where x: "length xb = 32" "SetBytes xb = keyX k" "\<And>dst. paddedAppend 32 dst (big_Bytes (keyX k)) = dst @ xb"
    using padded_field [of "keyX k"] bounds by metis
  obtain yb where y: "length yb = 32" "SetBytes yb = keyY k" "\<And>dst. paddedAppend 32 dst (big_Bytes (keyY k)) = dst @ yb"
    using padded_field [of "keyY k"] bounds by metis
  have k: "k = \<lparr>keyX = SetBytes xb, keyY = SetBytes yb\<rparr>" "valid_key k" using assms x y by (simp_all add: valid_key_def)
  have u: "SerializeUncompressed k = 4 # xb @ yb"
    by (simp add: SerializeUncompressed_def x y pubkeyUncompressed_def)
  have h: "SerializeHybrid k = (if isOdd (SetBytes yb) then 7 else 6) # xb @ yb"
    by (simp add: SerializeHybrid_def x y pubkeyHybrid_def Let_def)
  have c: "SerializeCompressed k = (if isOdd (SetBytes yb) then 3 else 2) # xb"
    by (simp add: SerializeCompressed_def x y pubkeyCompressed_def Let_def)
  have "ParsePubKey (4 # xb @ yb) = Inr k"
    unfolding ParsePubKey65 [OF x(1) y(1)] by (intro conjI k) simp
  moreover have "ParsePubKey ((if isOdd (SetBytes yb) then 7 else 6) # xb @ yb) = Inr k"
    unfolding ParsePubKey65 [OF x(1) y(1)] by (intro conjI k) simp
  moreover have "keyX k' = SetBytes xb \<and> (odd (keyY k') \<longleftrightarrow> odd (SetBytes yb))"
    if "ParsePubKey ((if isOdd (SetBytes yb) then 3 else 2) # xb) = Inr k'" for k'
    using that unfolding ParsePubKey33 [OF x(1)]
    by (auto simp: isOdd_def dest: decompressPoint_Inr split: if_splits)
  ultimately show ?thesis
    unfolding u h c x(2) y(2) by blast
qed

definition generator :: PublicKey where
  "generator = \<lparr>keyX = 0x79BE667EF9DCBBAC55A06295CE870B07029BFCDB2DCE28D959F2815B16F81798,
     keyY = 0x483ADA7726A3C4655DA4FBFC0E1108A8FD17B448A68554199C47D08FFB10D4B8\<rparr>"

lemma valid_generator: "valid_key generator"
proof -
  have "keyX generator * keyX generator * keyX generator + 7 = keyY generator * keyY generator
      + curve_P * 0x1b888e01a06e974017a28a5b4da436169761c9730b7aeedf75fc60f6a33cfc7792fe74711f025d590b10e57f1b3a7ce38ffc4c885c515894b45c19c9f413e5e9"
    by (simp add: generator_def curve_P_def)
  then have "IsOnCurve (keyX generator) (keyY generator)" unfolding IsOnCurve_def by (simp only: mod_mult_self2)
  then show ?thesis by (simp add: valid_key_def generator_def curve_P_def)
qed



text \<open>
  A point of the curve with reduced coordinates is read back from its uncompressed and
  from its hybrid serialisation; what is read from its compressed serialisation has the same
  abscissa and the parity of the ordinate.
\<close>

theorem pubkey_roundtrip:
  assumes "0 \<le> keyX k" "keyX k < curve_P" "0 \<le> keyY k" "keyY k < curve_P" "IsOnCurve (keyX k) (keyY k)"
  shows "ParsePubKey (SerializeUncompressed k) = Inr k \<and> ParsePubKey (SerializeHybrid k) = Inr k \<and>
    (\<forall>k'. ParsePubKey (SerializeCompressed k) = Inr k' \<longrightarrow> keyX k' = keyX k \<and> (odd (keyY k') \<longleftrightarrow> odd (keyY k)))"
  using parse_serialized [of k] assms unfolding valid_key_def by blast

theorem pubkey_roundtrip_witness:
  "ParsePubKey (SerializeUncompressed generator) = Inr generator"
  using pubkey_roundtrip [of generator] valid_generator unfolding valid_key_def by blast

section \<open>Signatures of fixed size\<close>

text \<open>
  Blocks and votes carry signatures as 64 bytes.  Reading one panics on less than 64 bytes;
  writing one joins the minimal big-endian bytes of the two numbers.
\<close>

definition GetSignature :: "bytes \<Rightarrow> script_err + Signature" where
  "GetSignature sign =
     bindE (sliceE sign 0 32) (\<lambda>r. bindE (sliceE sign 32 64) (\<lambda>s. Inr \<lparr>sigR = SetBytes r, sigS = SetBytes s\<rparr>))"

definition GenSignBytes :: "Signature \<Rightarrow> bytes" where
  "GenSignBytes s = big_Bytes (sigR s) @ big_Bytes (sigS s)"

definition generate32Bytes :: "int \<Rightarrow> bytes" where
  "generate32Bytes i =
     (let b = big_Bytes i in if length b < 32 then replicate (32 - length b) 0 @ b else b)"

text \<open>What signing returns for the two numbers of the signature.\<close>

definition sign64 :: "Signature \<Rightarrow> bytes" where
  "sign64 s = generate32Bytes (sigR s) @ generate32Bytes (sigS s)"

lemma length_big_Bytes: "0 \<le> x \<Longrightarrow> x < 256 ^ k \<Longrightarrow> length (big_Bytes x) \<le> k"
  unfolding big_Bytes_def by (rule length_nat_Bytes) (simp add: nat_less_iff)

lemma generate32Bytes_ok:
  assumes "0 \<le> x" "x < 256 ^ 32"
  shows "length (generate32Bytes x) = 32" "SetBytes (generate32Bytes x) = x"
  using length_big_Bytes [OF assms] SetBytes_big_Bytes [OF assms(1)]
  by (auto simp: generate32Bytes_def Let_def SetBytes_append)

lemma GetSignature_append:
  "length a = 32 \<Longrightarrow> length b = 32 \<Longrightarrow> GetSignature (a @ b) = Inr \<lparr>sigR = SetBytes a, sigS = SetBytes b\<rparr>"
  by (simp add: GetSignature_def sliceE_def)

lemma GetSignature_panics: "GetSignature b = Inl GoPanic \<longleftrightarrow> length b < 64"
  by (auto simp: GetSignature_def sliceE_def bindE_def split: sum.splits)

text \<open>
  A signature whose numbers fit in 256 bits is recovered from the 64 bytes that signing
  returns.  The other writer of such signatures does not pad its numbers: reading back what it wrote
  panics exactly when one of the numbers has fewer than 32 bytes.
\<close>

theorem fixed_signature_roundtrip:
  assumes "0 \<le> sigR s" "sigR s < 2 ^ 256" "0 \<le> sigS s" "sigS s < 2 ^ 256"
  shows "length (sign64 s) = 64 \<and> GetSignature (sign64 s) = Inr s \<and>
    (GetSignature (GenSignBytes s) = Inl GoPanic \<longleftrightarrow> sigR s < 2 ^ 248 \<or> sigS s < 2 ^ 248)"
proof -
  have p: "(256 :: int) ^ 32 = 2 ^ 256" "(256 :: int) ^ 31 = 2 ^ 248" by simp_all
  note r = generate32Bytes_ok [OF assms(1), unfolded p, OF assms(2)]
  note t = generate32Bytes_ok [OF assms(3), unfolded p, OF assms(4)]
  have short: "length (big_Bytes x) < 32 \<longleftrightarrow> x < 2 ^ 248" if "0 \<le> x" for x
  proof
    assume "length (big_Bytes x) < 32"
    then have "(256 :: int) ^ length (big_Bytes x) \<le> 256 ^ 31" by (intro power_increasing) auto
    then show "x < 2 ^ 248" using SetBytes_bound [of "big_Bytes x"] SetBytes_big_Bytes [OF that] unfolding p by linarith
  next
    assume "x < 2 ^ 248"
    then show "length (big_Bytes x) < 32" using length_big_Bytes [OF that, of 31] unfolding p by simp
  qed
  have le: "length (big_Bytes (sigR s)) \<le> 32" "length (big_Bytes (sigS s)) \<le> 32"
    using length_big_Bytes [of _ 32] assms unfolding p by auto
  have "length (sign64 s) = 64" using r(1) t(1) by (simp add: sign64_def)
  moreover have "GetSignature (sign64 s) = Inr s"
    using GetSignature_append [OF r(1) t(1)] r(2) t(2) by (simp add: sign64_def)
  moreover have "GetSignature (GenSignBytes s) = Inl GoPanic \<longleftrightarrow> sigR s < 2 ^ 248 \<or> sigS s < 2 ^ 248"
  proof -
    have "length (GenSignBytes s) < 64 \<longleftrightarrow> length (big_Bytes (sigR s)) < 32 \<or> length (big_Bytes (sigS s)) < 32"
      using le by (auto simp: GenSignBytes_def)
    then show ?thesis unfolding GetSignature_panics short [OF assms(1)] short [OF assms(3)] .
  qed
  ultimately show ?thesis by blast
qed

theorem fixed_signature_roundtrip_witness:
  "GetSignature (sign64 \<lparr>sigR = 7, sigS = 2 ^ 255\<rparr>) = Inr \<lparr>sigR = 7, sigS = 2 ^ 255\<rparr> \<and>
   GetSignature (GenSignBytes \<lparr>sigR = 7, sigS = 2 ^ 255\<rparr>) = Inl GoPanic"
  using fixed_signature_roundtrip [of "\<lparr>sigR = 7, sigS = 2 ^ 255\<rparr>"] by simp

end
