(* ===== verification/Script_SigHash.thy ===== *)
theory Script_SigHash
  imports Script_Parse Btcec "HOL-Library.AList"
begin

text \<open>
  Signature hashes (\<^verbatim>\<open>src/txscript/script.go\<close>, from \<^verbatim>\<open>calcHashPrevOuts\<close> to
  \<^verbatim>\<open>calcSignatureHash\<close>) and the caches of the script engine
  (\<^verbatim>\<open>src/txscript/hashcache.go\<close>, \<^verbatim>\<open>src/txscript/sigcache.go\<close>).

  The index of an input is an \<^verbatim>\<open>int\<close> of the code; a slice or an index expression out of range is
  the panic \<open>GoPanic\<close>.  A Go map is a partial map, or an association list where its size and the
  choice of the entry to evict matter.
\<close>

unbundle bit_operations_syntax

section \<open>Hash types\<close>

type_synonym SigHashType = "32 word"

definition SigHashOld :: SigHashType where "SigHashOld = 0x0"
definition SigHashAll :: SigHashType where "SigHashAll = 0x1"
definition SigHashNone :: SigHashType where "SigHashNone = 0x2"
definition SigHashSingle :: SigHashType where "SigHashSingle = 0x3"
definition SigHashAnyOneCanPay :: SigHashType where "SigHashAnyOneCanPay = 0x80"
definition sigHashMask :: SigHashType where "sigHashMask = 0x1f"

lemmas sighash_types = SigHashOld_def SigHashAll_def SigHashNone_def SigHashSingle_def
  SigHashAnyOneCanPay_def sigHashMask_def

section \<open>The hash of a witness input\<close>

record TxSigHashes =
  HashPrevOuts :: bytes
  HashSequence :: bytes
  HashOutputs :: bytes

definition calcHashPrevOuts :: "MsgTx \<Rightarrow> bytes" where
  "calcHashPrevOuts tx = DoubleHashH (concat (map (\<lambda>ti.
     Hash (PreviousOutPoint ti) @ PutUint32 (Index (PreviousOutPoint ti))) (TxIns tx)))"

definition calcHashSequence :: "MsgTx \<Rightarrow> bytes" where
  "calcHashSequence tx = DoubleHashH (concat (map (\<lambda>ti. PutUint32 (Sequence ti)) (TxIns tx)))"

definition calcHashOutputs :: "MsgTx \<Rightarrow> bytes" where
  "calcHashOutputs tx = DoubleHashH (concat (map WriteTxOut (TxOuts tx)))"

definition NewTxSigHashes :: "MsgTx \<Rightarrow> TxSigHashes" where
  "NewTxSigHashes tx = \<lparr>HashPrevOuts = calcHashPrevOuts tx,
     HashSequence = calcHashSequence tx, HashOutputs = calcHashOutputs tx\<rparr>"

definition zeroHash :: bytes where "zeroHash = replicate HashSize 0"

text \<open>The error of \<^verbatim>\<open>unparseScript\<close> is dropped by its callers here, who then see \<^verbatim>\<open>nil\<close>.\<close>

definition rawScript :: "parsedOpcode list \<Rightarrow> bytes" where
  "rawScript subScript = (case unparseScript subScript of Inl _ \<Rightarrow> [] | Inr s \<Rightarrow> s)"

definition witnessScriptCode :: "parsedOpcode list \<Rightarrow> bytes" where
  "witnessScriptCode subScript =
     (if isWitnessPubKeyHash subScript
      then [0x19] @ [OP_DUP] @ [OP_HASH160] @ [OP_DATA_20] @ data (subScript ! 1)
             @ [OP_EQUALVERIFY] @ [OP_CHECKSIG]
      else WriteVarBytes (rawScript subScript))"

definition calcWitnessPreimage ::
  "parsedOpcode list \<Rightarrow> TxSigHashes \<Rightarrow> SigHashType \<Rightarrow> MsgTx \<Rightarrow> nat \<Rightarrow> 64 word \<Rightarrow> bytes" where
  "calcWitnessPreimage subScript sigHashes hashType tx idx amt =
     (let txIn = TxIns tx ! idx in
      PutUint32 (Version tx)
      @ (if hashType AND SigHashAnyOneCanPay = 0 then HashPrevOuts sigHashes else zeroHash)
      @ (if hashType AND SigHashAnyOneCanPay = 0 \<and> hashType AND sigHashMask \<noteq> SigHashSingle
            \<and> hashType AND sigHashMask \<noteq> SigHashNone
         then HashSequence sigHashes else zeroHash)
      @ Hash (PreviousOutPoint txIn) @ PutUint32 (Index (PreviousOutPoint txIn))
      @ witnessScriptCode subScript
      @ PutUint64 amt
      @ PutUint32 (Sequence txIn)
      @ (if hashType AND SigHashSingle \<noteq> SigHashSingle \<and> hashType AND SigHashNone \<noteq> SigHashNone
         then HashOutputs sigHashes
         else if hashType AND sigHashMask = SigHashSingle \<and> idx < length (TxOuts tx)
         then DoubleHashB (WriteTxOut (TxOuts tx ! idx))
         else zeroHash)
      @ PutUint32 (LockTime tx)
      @ PutUint32 hashType)"

definition calcWitnessSignatureHash ::
  "parsedOpcode list \<Rightarrow> TxSigHashes \<Rightarrow> SigHashType \<Rightarrow> MsgTx \<Rightarrow> int \<Rightarrow> 64 word \<Rightarrow> script_err + bytes" where
  "calcWitnessSignatureHash subScript sigHashes hashType tx idx amt =
     (if idx > int (length (TxIns tx)) - 1 then Inl PlainError
      else if idx < 0 then Inl GoPanic
      else Inr (DoubleHashB (calcWitnessPreimage subScript sigHashes hashType tx (nat idx) amt)))"

definition CalcWitnessSigHash ::
  "bytes \<Rightarrow> TxSigHashes \<Rightarrow> SigHashType \<Rightarrow> MsgTx \<Rightarrow> int \<Rightarrow> 64 word \<Rightarrow> script_err + bytes" where
  "CalcWitnessSigHash script sigHashes hType tx idx amt =
     (case parseScript script of
        (_, Some e) \<Rightarrow> Inl PlainError
      | (parsedScript, None) \<Rightarrow> calcWitnessSignatureHash parsedScript sigHashes hType tx idx amt)"

section \<open>The hash of any other input\<close>

text \<open>
  \<^verbatim>\<open>shallowCopyTx\<close> copies every input and output, so the changes made to the copy below do not
  reach the transaction.
\<close>

definition shallowCopyTx :: "MsgTx \<Rightarrow> MsgTx" where
  "shallowCopyTx tx = \<lparr>Version = Version tx, TxIns = TxIns tx, TxOuts = TxOuts tx, LockTime = LockTime tx\<rparr>"

definition mapIndex :: "(nat \<Rightarrow> 'a \<Rightarrow> 'b) \<Rightarrow> 'a list \<Rightarrow> 'b list" where
  "mapIndex f xs = map (\<lambda>i. f i (xs ! i)) [0..<length xs]"

definition sliceI :: "'a list \<Rightarrow> int \<Rightarrow> int \<Rightarrow> script_err + 'a list" where
  "sliceI b i j = (if 0 \<le> i \<and> i \<le> j \<and> j \<le> int (length b) then Inr (drop (nat i) (take (nat j) b))
     else Inl GoPanic)"

definition setScripts :: "bytes \<Rightarrow> int \<Rightarrow> TxIn list \<Rightarrow> TxIn list" where
  "setScripts sigScript idx txIns = mapIndex (\<lambda>i ti.
     if int i = idx then ti\<lparr>SignatureScript := sigScript\<rparr> else ti\<lparr>SignatureScript := []\<rparr>) txIns"

definition zeroSequences :: "int \<Rightarrow> TxIn list \<Rightarrow> TxIn list" where
  "zeroSequences idx txIns = mapIndex (\<lambda>i ti. if int i \<noteq> idx then ti\<lparr>Sequence := 0\<rparr> else ti) txIns"

definition blankOutputs :: "int \<Rightarrow> TxOut list \<Rightarrow> TxOut list" where
  "blankOutputs idx txOuts = mapIndex (\<lambda>i to. if int i < idx then to\<lparr>Value := - 1, PkScript := []\<rparr> else to) txOuts"

definition sigHashTx :: "parsedOpcode list \<Rightarrow> SigHashType \<Rightarrow> MsgTx \<Rightarrow> int \<Rightarrow> script_err + MsgTx" where
  "sigHashTx script hashType tx idx =
     (let script = removeOpcode script OP_CODESEPARATOR;
          txCopy = shallowCopyTx tx;
          txCopy = txCopy\<lparr>TxIns := setScripts (rawScript script) idx (TxIns txCopy)\<rparr>
      in bindE
        (if hashType AND sigHashMask = SigHashNone then
           Inr (txCopy\<lparr>TxOuts := [], TxIns := zeroSequences idx (TxIns txCopy)\<rparr>)
         else if hashType AND sigHashMask = SigHashSingle then
           bindE (sliceI (TxOuts txCopy) 0 (idx + 1)) (\<lambda>outs.
             Inr (txCopy\<lparr>TxOuts := blankOutputs idx outs, TxIns := zeroSequences idx (TxIns txCopy)\<rparr>))
         else Inr txCopy)
        (\<lambda>txCopy.
           if hashType AND SigHashAnyOneCanPay \<noteq> 0 then
             bindE (sliceI (TxIns txCopy) idx (idx + 1)) (\<lambda>ins. Inr (txCopy\<lparr>TxIns := ins\<rparr>))
           else Inr txCopy))"

definition calcSignatureHash ::
  "parsedOpcode list \<Rightarrow> SigHashType \<Rightarrow> MsgTx \<Rightarrow> int \<Rightarrow> script_err + bytes" where
  "calcSignatureHash script hashType tx idx =
     (if hashType AND sigHashMask = SigHashSingle \<and> idx \<ge> int (length (TxOuts tx))
      then Inr (0x01 # replicate 31 0)
      else bindE (sigHashTx script hashType tx idx) (\<lambda>txCopy.
        Inr (DoubleHashB (MsgTx_SerializeNoWitness txCopy @ PutUint32 hashType))))"

definition CalcSignatureHash :: "bytes \<Rightarrow> SigHashType \<Rightarrow> MsgTx \<Rightarrow> int \<Rightarrow> script_err + bytes" where
  "CalcSignatureHash script hashType tx idx =
     (case parseScript script of
        (_, Some e) \<Rightarrow> Inl PlainError
      | (parsedScript, None) \<Rightarrow> calcSignatureHash parsedScript hashType tx idx)"

section \<open>The cache of hashes\<close>

type_synonym HashCache = "bytes \<rightharpoonup> TxSigHashes"

definition NewHashCache :: "64 word \<Rightarrow> HashCache" where
  "NewHashCache maxSize = Map.empty"

definition AddSigHashes :: "MsgTx \<Rightarrow> HashCache \<Rightarrow> HashCache" where
  "AddSigHashes tx h = h(TxHash tx \<mapsto> NewTxSigHashes tx)"

definition ContainsHashes :: "bytes \<Rightarrow> HashCache \<Rightarrow> bool" where
  "ContainsHashes txid h = (h txid \<noteq> None)"

definition GetSigHashes :: "bytes \<Rightarrow> HashCache \<Rightarrow> TxSigHashes option" where
  "GetSigHashes txid h = h txid"

definition PurgeSigHashes :: "bytes \<Rightarrow> HashCache \<Rightarrow> HashCache" where
  "PurgeSigHashes txid h = h(txid := None)"

section \<open>The cache of signatures\<close>

text \<open>
  The map of valid signatures is an association list with distinct keys.  The entry that
  \<^verbatim>\<open>Add\<close> evicts is the first one that a Go iteration over the map gives, which the language
  leaves open: it is a parameter \<open>pick\<close> that chooses a position.
\<close>

type_synonym sigCacheEntry = "Signature \<times> PublicKey"

record SigCache =
  validSigs :: "(bytes \<times> sigCacheEntry) list"
  maxEntries :: nat

type_synonym chooser = "(bytes \<times> sigCacheEntry) list \<Rightarrow> nat"

definition NewSigCache :: "nat \<Rightarrow> SigCache" where
  "NewSigCache m = \<lparr>validSigs = [], maxEntries = m\<rparr>"

definition SigCache_Exists :: "SigCache \<Rightarrow> bytes \<Rightarrow> Signature \<Rightarrow> PublicKey \<Rightarrow> bool" where
  "SigCache_Exists s sigHash sig pubKey =
     (case map_of (validSigs s) sigHash of
        None \<Rightarrow> False
      | Some entry \<Rightarrow> PublicKey_IsEqual (snd entry) pubKey \<and> Signature_IsEqual (fst entry) sig)"

definition evictOne :: "chooser \<Rightarrow> (bytes \<times> sigCacheEntry) list \<Rightarrow> (bytes \<times> sigCacheEntry) list" where
  "evictOne pick m = (if m = [] then m else AList.delete (fst (m ! (pick m mod length m))) m)"

definition SigCache_Add :: "chooser \<Rightarrow> SigCache \<Rightarrow> bytes \<Rightarrow> Signature \<Rightarrow> PublicKey \<Rightarrow> SigCache" where
  "SigCache_Add pick s sigHash sig pubKey =
     (if maxEntries s \<le> 0 then s
      else
        let m = (if length (validSigs s) + 1 > maxEntries s then evictOne pick (validSigs s)
                 else validSigs s)
        in s\<lparr>validSigs := AList.update sigHash (sig, pubKey) m\<rparr>)"

subsection \<open>The contract of a cache of checked signatures\<close>

text \<open>
  A cache relates to a check \<open>V\<close> of a hash, a signature and a key: every triple that it reports is
  accepted by \<open>V\<close>, and adding a triple that \<open>V\<close> accepts keeps this.  A client that asks the cache
  before it runs the check, and adds what the check accepts, gets the answer of the check.
\<close>

locale checked_cache =
  fixes known :: "'c \<Rightarrow> bytes \<Rightarrow> Signature \<Rightarrow> PublicKey \<Rightarrow> bool"
    and add :: "'c \<Rightarrow> bytes \<Rightarrow> Signature \<Rightarrow> PublicKey \<Rightarrow> 'c"
    and sound :: "(bytes \<Rightarrow> Signature \<Rightarrow> PublicKey \<Rightarrow> bool) \<Rightarrow> 'c \<Rightarrow> bool"
  assumes known_sound: "sound V c \<Longrightarrow> known c h s k \<Longrightarrow> V h s k"
    and add_sound: "sound V c \<Longrightarrow> V h s k \<Longrightarrow> sound V (add c h s k)"
begin

definition check :: "(bytes \<Rightarrow> Signature \<Rightarrow> PublicKey \<Rightarrow> bool) \<Rightarrow> 'c \<Rightarrow> bytes \<Rightarrow> Signature \<Rightarrow> PublicKey \<Rightarrow> bool \<times> 'c" where
  "check V c h s k = (if known c h s k then (True, c)
     else if V h s k then (True, add c h s k) else (False, c))"

lemma check_transparent: "sound V c \<Longrightarrow> fst (check V c h s k) = V h s k"
  using known_sound [of V c h s k] by (auto simp: check_def)

lemma check_sound: "sound V c \<Longrightarrow> sound V (snd (check V c h s k))"
  using add_sound [of V c h s k] by (auto simp: check_def)

lemma fold_add_sound:
  "sound V c \<Longrightarrow> list_all (\<lambda>(h, s, k). V h s k) ts \<Longrightarrow> sound V (fold (\<lambda>(h, s, k) c. add c h s k) ts c)"
  by (induction ts arbitrary: c) (auto simp: add_sound)

end

definition cache_sound :: "(bytes \<Rightarrow> Signature \<Rightarrow> PublicKey \<Rightarrow> bool) \<Rightarrow> SigCache \<Rightarrow> bool" where
  "cache_sound V s = list_all (\<lambda>(h, sig, k). V h sig k) (validSigs s)"

definition cache_wf :: "SigCache \<Rightarrow> bool" where
  "cache_wf s = (distinct (map fst (validSigs s)) \<and> length (validSigs s) \<le> maxEntries s)"

lemma delete_subset: "set (AList.delete k m) \<subseteq> set m"
  by (auto simp: AList.delete_eq)

lemma update_subset: "set (AList.update k v m) \<subseteq> insert (k, v) (set m)"
  by (induction m) auto

lemma evictOne_subset: "set (evictOne pick m) \<subseteq> set m"
  by (simp add: evictOne_def delete_subset)

lemma entry_eq: "Signature_IsEqual a b \<longleftrightarrow> a = b" "PublicKey_IsEqual k l \<longleftrightarrow> k = l"
  by (auto simp: Signature_IsEqual_def PublicKey_IsEqual_def)

interpretation sc: checked_cache SigCache_Exists "SigCache_Add pick" cache_sound for pick
proof
  fix V c h s k
  assume "cache_sound V c" "SigCache_Exists c h s k"
  then show "V h s k"
    by (auto simp: cache_sound_def SigCache_Exists_def list_all_iff entry_eq split: option.splits
        dest!: map_of_SomeD)
next
  fix V c h s k
  assume "cache_sound V c" "V h s k"
  then show "cache_sound V (SigCache_Add pick c h s k)"
    using update_subset [of h "(s, k)"] evictOne_subset [of pick "validSigs c"]
    by (fastforce simp: cache_sound_def SigCache_Add_def list_all_iff Let_def)
qed

lemma delete_absent: "k \<notin> fst ` set m \<Longrightarrow> AList.delete k m = m"
  by (induction m) (auto simp: AList.delete_eq)

lemma length_delete_distinct:
  "distinct (map fst m) \<Longrightarrow> k \<in> set (map fst m) \<Longrightarrow> Suc (length (AList.delete k m)) = length m"
proof (induction m)
  case (Cons a m)
  then show ?case
    using delete_absent [of k m] by (cases "fst a = k") (auto simp: AList.delete_eq split_beta)
qed simp

lemma length_evictOne: "distinct (map fst m) \<Longrightarrow> length (evictOne pick m) = length m - 1"
  using length_delete_distinct [of m "fst (m ! (pick m mod length m))"]
  by (auto simp: evictOne_def)

lemma length_update: "length (AList.update k v m) \<le> Suc (length m)"
  by (induction m) auto

lemma SigCache_Add_wf: "cache_wf s \<Longrightarrow> cache_wf (SigCache_Add pick s h sig k)"
proof -
  assume a: "cache_wf s"
  define m where "m = (if length (validSigs s) + 1 > maxEntries s then evictOne pick (validSigs s) else validSigs s)"
  have "length m + 1 \<le> maxEntries s" if "maxEntries s > 0"
    using a that length_evictOne [of "validSigs s" pick] by (auto simp: m_def cache_wf_def)
  moreover have "distinct (map fst m)"
    using a by (auto simp: m_def cache_wf_def evictOne_def AList.distinct_delete)
  moreover have "SigCache_Add pick s h sig k =
      (if maxEntries s = 0 then s else s\<lparr>validSigs := AList.update h (sig, k) m\<rparr>)"
    by (simp add: SigCache_Add_def m_def)
  ultimately show ?thesis
    using a length_update [of h "(sig, k)" m]
    by (auto simp: cache_wf_def AList.distinct_update)
qed

lemma SigCache_Add_known:
  "maxEntries s > 0 \<Longrightarrow> SigCache_Exists (SigCache_Add pick s h sig k) h sig k"
  by (simp add: SigCache_Exists_def SigCache_Add_def AList.update_conv entry_eq Let_def)

section \<open>What a signature hash depends on\<close>

lemma length_mapIndex [simp]: "length (mapIndex f xs) = length xs"
  by (simp add: mapIndex_def)

lemma nth_mapIndex [simp]: "i < length xs \<Longrightarrow> mapIndex f xs ! i = f i (xs ! i)"
  by (simp add: mapIndex_def)

lemma mapIndex_map: "mapIndex f (map g xs) = mapIndex (\<lambda>i x. f i (g x)) xs"
  by (simp add: mapIndex_def)

lemma map_mapIndex: "map g (mapIndex f xs) = mapIndex (\<lambda>i x. g (f i x)) xs"
  by (simp add: mapIndex_def)

lemma sliceI_map: "sliceI (map f xs) i j = map_sum id (map f) (sliceI xs i j)"
  by (simp add: sliceI_def take_map drop_map)

lemma bindE_map_sum: "bindE (map_sum id f r) g = bindE r (\<lambda>x. g (f x))"
  by (cases r) simp_all

definition bareIn :: "TxIn \<Rightarrow> TxIn" where
  "bareIn ti = ti\<lparr>SignatureScript := [], Witness := []\<rparr>"

definition bare :: "MsgTx \<Rightarrow> MsgTx" where
  "bare tx = tx\<lparr>TxIns := map bareIn (TxIns tx)\<rparr>"

lemma TxIn_update_commute:
  "ti\<lparr>Witness := w, Sequence := q\<rparr> = ti\<lparr>Sequence := q, Witness := w\<rparr>"
  "ti\<lparr>Witness := w, SignatureScript := c\<rparr> = ti\<lparr>SignatureScript := c, Witness := w\<rparr>"
  by (cases ti; simp)+

lemma setScripts_bare: "setScripts s idx (map bareIn ins) = map noWitness (setScripts s idx ins)"
  by (simp add: setScripts_def mapIndex_map map_mapIndex bareIn_def noWitness_def if_distrib TxIn_update_commute cong: if_cong)

lemma zeroSequences_noWitness: "zeroSequences idx (map noWitness ins) = map noWitness (zeroSequences idx ins)"
  by (simp add: zeroSequences_def mapIndex_map map_mapIndex noWitness_def if_distrib TxIn_update_commute cong: if_cong)

lemma map_sum_bindE: "map_sum id f (bindE r (\<lambda>x. Inr (g x))) = bindE r (\<lambda>x. Inr (f (g x)))"
  by (cases r) simp_all

lemma sigHashTx_bare: "sigHashTx s ht (bare tx) idx = map_sum id stripped (sigHashTx s ht tx idx)"
proof -
  define outs where "outs = sliceI (TxOuts tx) 0 (idx + 1)"
  show ?thesis
    unfolding sigHashTx_def Let_def
    by (simp add: shallowCopyTx_def bare_def setScripts_bare zeroSequences_noWitness flip: outs_def)
      (cases outs; simp add: stripped_def sliceI_map bindE_map_sum map_sum_bindE)
qed

lemma Serialize_stripped: "MsgTx_SerializeNoWitness (stripped t) = MsgTx_SerializeNoWitness t"
  by (simp add: MsgTx_SerializeNoWitness_def encode_base_stripped)

lemma calcSignatureHash_bare: "calcSignatureHash s ht (bare tx) idx = calcSignatureHash s ht tx idx"
proof -
  have "TxOuts (bare tx) = TxOuts tx" by (simp add: bare_def)
  then show ?thesis by (simp add: calcSignatureHash_def sigHashTx_bare bindE_map_sum Serialize_stripped)
qed

lemma sigHashTx_none:
  "ht AND sigHashMask = SigHashNone \<Longrightarrow> sigHashTx s ht (tx\<lparr>TxOuts := outs\<rparr>) idx = sigHashTx s ht tx idx"
  by (simp add: sigHashTx_def Let_def shallowCopyTx_def)

lemma sigHashTx_anyone:
  assumes "ht AND SigHashAnyOneCanPay \<noteq> 0" "ht AND sigHashMask \<noteq> SigHashSingle" "i < length (TxIns tx)"
  shows "sigHashTx s ht (tx\<lparr>TxIns := [TxIns tx ! i]\<rparr>) 0 = sigHashTx s ht tx (int i)"
proof -
  have "take (nat (int i + 1)) = (take (Suc i) :: TxIn list \<Rightarrow> _)" by (simp add: nat_add_distrib)
  moreover have "drop i (take (Suc i) xs) = [xs ! i]" if "i < length xs" for xs :: "TxIn list"
    using that by (simp add: take_Suc_conv_app_nth)
  moreover have "mapIndex f [x] = [f 0 x]" for f :: "nat \<Rightarrow> TxIn \<Rightarrow> TxIn" and x by (simp add: mapIndex_def)
  ultimately show ?thesis
    using assms by (simp add: sigHashTx_def Let_def shallowCopyTx_def sliceI_def setScripts_def zeroSequences_def)
qed

lemma blankOutputs_take:
  "i < length outs \<Longrightarrow> blankOutputs (int i) (take (Suc i) outs)
     = replicate i \<lparr>Value = - 1, PkScript = []\<rparr> @ [outs ! i]"
  by (rule nth_equalityI) (auto simp: blankOutputs_def nth_append less_Suc_eq)

lemma sigHashTx_single:
  assumes "ht AND sigHashMask = SigHashSingle" "i < length (TxOuts tx)" "i < length outs" "outs ! i = TxOuts tx ! i"
  shows "sigHashTx s ht (tx\<lparr>TxOuts := outs\<rparr>) (int i) = sigHashTx s ht tx (int i)"
proof -
  have "nat (int i + 1) = Suc i" by simp
  moreover have "SigHashSingle \<noteq> SigHashNone" by (simp add: sighash_types)
  ultimately show ?thesis
    using assms by (simp add: sigHashTx_def Let_def shallowCopyTx_def sliceI_def blankOutputs_take)
qed



section \<open>What a signature hash commits to\<close>

lemma base_inject:
  assumes "tx_ok t" "tx_ok t'" "MsgTx_SerializeNoWitness t @ r = MsgTx_SerializeNoWitness t' @ r'"
  shows "stripped t = stripped t' \<and> r = r'"
proof -
  have "MsgTx_BtcDecode BaseEncoding (MsgTx_SerializeNoWitness t @ r) = (Inr (stripped t), r)"
    "MsgTx_BtcDecode BaseEncoding (MsgTx_SerializeNoWitness t' @ r') = (Inr (stripped t'), r')"
    using assms(1,2) by (simp_all add: decode_base_iff tx_ok_stripped not_HasWitness_stripped
        MsgTx_SerializeNoWitness_def encode_base_stripped)
  then show ?thesis using assms(3) by simp
qed

lemma sigHashTx_all:
  assumes "ht AND sigHashMask \<notin> {SigHashNone, SigHashSingle}" "ht AND SigHashAnyOneCanPay = 0"
  shows "sigHashTx s ht tx idx = Inr (tx\<lparr>TxIns := setScripts (rawScript (removeOpcode s OP_CODESEPARATOR)) idx (TxIns tx)\<rparr>)"
  using assms by (simp add: sigHashTx_def shallowCopyTx_def Let_def)

lemma tx_ok_setScripts:
  "tx_ok tx \<Longrightarrow> length c \<le> MaxMessagePayload \<Longrightarrow> tx_ok (tx\<lparr>TxIns := setScripts c idx (TxIns tx)\<rparr>)"
  by (auto simp: tx_ok_def setScripts_def list_all_length txin_ok_def)

lemma stripped_setScripts:
  assumes "stripped (tx\<lparr>TxIns := setScripts c idx (TxIns tx)\<rparr>) = stripped (tx'\<lparr>TxIns := setScripts c' idx' (TxIns tx')\<rparr>)"
  shows "bare tx = bare tx' \<and> (0 \<le> idx \<and> idx < int (length (TxIns tx)) \<and> c \<noteq> [] \<longrightarrow> idx = idx' \<and> c = c')"
proof -
  have ins: "setScripts c idx (map bareIn (TxIns tx)) = setScripts c' idx' (map bareIn (TxIns tx'))"
    and rest: "Version tx = Version tx'" "TxOuts tx = TxOuts tx'" "LockTime tx = LockTime tx'"
    using assms by (cases tx; cases tx'; simp add: setScripts_bare stripped_def)+
  have len: "length (TxIns tx) = length (TxIns tx')"
    using arg_cong [OF ins, of length] by (simp add: setScripts_def)
  have bi: "bareIn (bareIn ti) = bareIn ti" "bareIn ((bareIn ti)\<lparr>SignatureScript := x\<rparr>) = bareIn ti" for ti x by (simp_all add: bareIn_def)
  have "map bareIn (setScripts x i (map bareIn l)) = map bareIn l" for x i l
    by (rule nth_equalityI) (simp_all add: setScripts_def bi)
  then have "map bareIn (TxIns tx) = map bareIn (TxIns tx')" using arg_cong [OF ins, of "map bareIn"] by simp
  then have "bare tx = bare tx'" using rest by (simp add: bare_def)
  moreover have "idx = idx' \<and> c = c'" if "0 \<le> idx \<and> idx < int (length (TxIns tx)) \<and> c \<noteq> []"
  proof -
    have "SignatureScript (setScripts x j (map bareIn l) ! nat idx) = (if j = idx then x else [])" 
      if "nat idx < length l" for x j l using that \<open>0 \<le> idx \<and> _\<close> by (auto simp: setScripts_def bareIn_def)
    moreover have "nat idx < length (TxIns tx)" using that by (simp add: nat_less_iff)
    ultimately have "c = (if idx' = idx then c' else [])" using ins len by (metis (full_types))
    then show ?thesis using that by (auto split: if_splits)
  qed
  ultimately show ?thesis by blast
qed

text \<open>
  C24: With hash types that are neither \<^verbatim>\<open>SigHashNone\<close>, \<^verbatim>\<open>SigHashSingle\<close> nor
  \<^verbatim>\<open>SigHashAnyOneCanPay\<close>, two equal inputs of the hash function come from equal hash types and
  from transactions with the same version, lock time, outputs, previous out points and sequence
  numbers; when the script is not empty, also from the same index and the same script without
  its code separators.
\<close>

theorem sighash_all_commits:
  assumes "ht AND sigHashMask \<notin> {SigHashNone, SigHashSingle}" "ht AND SigHashAnyOneCanPay = 0"
    and "ht' AND sigHashMask \<notin> {SigHashNone, SigHashSingle}" "ht' AND SigHashAnyOneCanPay = 0"
    and "tx_ok tx" "tx_ok tx'" "i < length (TxIns tx)" 
    and "length (rawScript (removeOpcode s OP_CODESEPARATOR)) \<le> MaxMessagePayload"
    and "length (rawScript (removeOpcode s' OP_CODESEPARATOR)) \<le> MaxMessagePayload"
    and "bindE (sigHashTx s ht tx (int i)) (\<lambda>t. Inr (MsgTx_SerializeNoWitness t @ PutUint32 ht))
       = bindE (sigHashTx s' ht' tx' (int i')) (\<lambda>t. Inr (MsgTx_SerializeNoWitness t @ PutUint32 ht'))"
  shows "ht = ht' \<and> Version tx = Version tx' \<and> LockTime tx = LockTime tx' \<and> TxOuts tx = TxOuts tx' \<and>
    map PreviousOutPoint (TxIns tx) = map PreviousOutPoint (TxIns tx') \<and>
    map Sequence (TxIns tx) = map Sequence (TxIns tx') \<and>
    (rawScript (removeOpcode s OP_CODESEPARATOR) \<noteq> [] \<longrightarrow>
       i = i' \<and> rawScript (removeOpcode s OP_CODESEPARATOR) = rawScript (removeOpcode s' OP_CODESEPARATOR))"
proof -
  define c where "c = rawScript (removeOpcode s OP_CODESEPARATOR)"
  define c' where "c' = rawScript (removeOpcode s' OP_CODESEPARATOR)"
  define t where "t = tx\<lparr>TxIns := setScripts c (int i) (TxIns tx)\<rparr>"
  define t' where "t' = tx'\<lparr>TxIns := setScripts c' (int i') (TxIns tx')\<rparr>"
  have "tx_ok t" "tx_ok t'"
    using assms(5-9) by (simp_all add: t_def t'_def c_def c'_def tx_ok_setScripts)
  moreover have "MsgTx_SerializeNoWitness t @ PutUint32 ht = MsgTx_SerializeNoWitness t' @ PutUint32 ht'"
    using assms(10) sigHashTx_all [OF assms(1,2)] sigHashTx_all [OF assms(3,4)]
    by (simp add: t_def t'_def c_def c'_def)
  ultimately have "stripped t = stripped t'" "PutUint32 ht = PutUint32 ht'" using base_inject by blast+
  then have "ht = ht'" using u32.enc_inj [where x = ht and y = ht' and r = "[]" and r' = "[]"] by simp
  moreover have "bare tx = bare tx'" "c \<noteq> [] \<longrightarrow> i = i' \<and> c = c'"
    using stripped_setScripts \<open>stripped t = stripped t'\<close> assms(7) unfolding t_def t'_def by (metis of_nat_0_le_iff of_nat_eq_iff of_nat_less_iff)+
  moreover from \<open>bare tx = bare tx'\<close> have "map bareIn (TxIns tx) = map bareIn (TxIns tx')"
      "Version tx = Version tx'" "TxOuts tx = TxOuts tx'" "LockTime tx = LockTime tx'"
    by (cases tx; cases tx'; simp add: bare_def)+
  moreover have "PreviousOutPoint \<circ> bareIn = PreviousOutPoint" "Sequence \<circ> bareIn = Sequence"
    by (simp_all add: bareIn_def fun_eq_iff)
  ultimately show ?thesis
    unfolding c_def c'_def by (metis map_map)
qed


definition sample_script :: "parsedOpcode list" where
  "sample_script = [\<lparr>opcode = opc 0x51 1, data = []\<rparr>]"

lemma rawScript_sample: "rawScript (removeOpcode sample_script OP_CODESEPARATOR) = [0x51]"
  by (simp add: sample_script_def rawScript_def removeOpcode_def pop_bytes_def opc_def)

theorem sighash_all_commits_witness:
  "map Sequence (TxIns sample_tx) = map Sequence (TxIns (bare sample_tx))"
proof -
  have "tx_ok (bare sample_tx)"
    using sample_tx_ok by (simp add: bare_def bareIn_def tx_ok_def txin_ok_def witness_ok_def list_all_iff)
  moreover have "sigHashTx sample_script 1 (bare sample_tx) (int 0)
      = map_sum id stripped (sigHashTx sample_script 1 sample_tx (int 0))"
    by (rule sigHashTx_bare)
  moreover have "TxIns sample_tx \<noteq> []" by (simp add: sample_tx_def AddTxOut_def AddTxIn_def)
  ultimately show ?thesis
    using sighash_all_commits [of 1 1 sample_tx "bare sample_tx" 0 sample_script sample_script 0] sample_tx_ok
    by (simp add: rawScript_sample sighash_types bindE_map_sum Serialize_stripped MaxMessagePayload_def)
qed

text \<open>
  For the witness signature hash the tests of the hash type that select the outputs are
  not masked: every hash type with the bit of \<^verbatim>\<open>SigHashNone\<close> whose masked value is not
  \<^verbatim>\<open>SigHashSingle\<close> gives a hash that ignores all outputs, also an undefined type such as 6.
\<close>

theorem witness_sighash_undefined_type:
  assumes "ht AND SigHashNone = SigHashNone" "ht AND sigHashMask \<noteq> SigHashSingle"
  shows "calcWitnessSignatureHash sub (NewTxSigHashes (tx\<lparr>TxOuts := outs\<rparr>)) ht (tx\<lparr>TxOuts := outs\<rparr>) idx amt
    = calcWitnessSignatureHash sub (NewTxSigHashes tx) ht tx idx amt"
  using assms
  by (simp add: calcWitnessSignatureHash_def calcWitnessPreimage_def NewTxSigHashes_def Let_def
      calcHashPrevOuts_def calcHashSequence_def)

theorem witness_sighash_undefined_type_witness:
  "(6 :: SigHashType) AND sigHashMask \<notin> {SigHashNone, SigHashSingle} \<and>
   calcWitnessSignatureHash [] (NewTxSigHashes (sample_tx\<lparr>TxOuts := []\<rparr>)) 6 (sample_tx\<lparr>TxOuts := []\<rparr>) 0 5
    = calcWitnessSignatureHash [] (NewTxSigHashes sample_tx) 6 sample_tx 0 5"
  using witness_sighash_undefined_type [where ht = 6] by (simp add: sighash_types)

lemma maxEntries_Add [simp]: "maxEntries (SigCache_Add pick s h sig k) = maxEntries s"
  by (simp add: SigCache_Add_def Let_def)

lemma fold_Add_wf:
  "cache_wf s \<Longrightarrow> cache_wf (fold (\<lambda>(h, sig, k) c. SigCache_Add pick c h sig k) ts s) \<and>
     maxEntries (fold (\<lambda>(h, sig, k) c. SigCache_Add pick c h sig k) ts s) = maxEntries s"
  by (induction ts arbitrary: s) (auto simp: SigCache_Add_wf)

text \<open>
  C35: A signature cache filled with signatures that a check accepts only reports signatures
  that the check accepts, never holds more entries than its limit or two entries for one hash,
  and with a positive limit reports what was added last, whatever entries were evicted.
\<close>

theorem sigcache_correct:
  assumes "list_all (\<lambda>(h, sig, k). V h sig k) ts"
    and c: "c = fold (\<lambda>(h, sig, k) c. SigCache_Add pick c h sig k) ts (NewSigCache m)"
  shows "(SigCache_Exists c h sig k \<longrightarrow> V h sig k) \<and> length (validSigs c) \<le> m \<and> distinct (map fst (validSigs c)) \<and>
    (m > 0 \<longrightarrow> SigCache_Exists (SigCache_Add pick c h sig k) h sig k)"
proof -
  have "cache_sound V (NewSigCache m)" "cache_wf (NewSigCache m)" "maxEntries (NewSigCache m) = m"
    by (simp_all add: NewSigCache_def cache_sound_def cache_wf_def)
  then have "cache_sound V c" "cache_wf c" "maxEntries c = m"
    using assms(1) fold_Add_wf sc.fold_add_sound by (auto simp: c)
  then show ?thesis
    using sc.known_sound [OF \<open>cache_sound V c\<close>, of h sig k] SigCache_Add_known [of c pick h sig k]
    by (auto simp: cache_wf_def)
qed

theorem sigcache_correct_witness:
  "length (validSigs (SigCache_Add (\<lambda>_. 0) (SigCache_Add (\<lambda>_. 0) (NewSigCache 1)
      [1] \<lparr>sigR = 1, sigS = 2\<rparr> generator) [2] \<lparr>sigR = 3, sigS = 4\<rparr> generator)) \<le> 1"
  using sigcache_correct [where V = "\<lambda>h sig k. sigR sig < sigS sig" and pick = "\<lambda>_. 0" and m = 1
      and ts = "[([1], \<lparr>sigR = 1, sigS = 2\<rparr>, generator), ([2], \<lparr>sigR = 3, sigS = 4\<rparr>, generator)]"]
  by simp

end
