(* ===== verification/Script_Num.thy ===== *)
theory Script_Num
  imports Script_Error
begin

text \<open>
  The numbers of the script language (\<^verbatim>\<open>src/txscript/scriptnum.go\<close>).  A \<^verbatim>\<open>scriptNum\<close> is an
  \<^verbatim>\<open>int64\<close>, here an \<open>int\<close> on which the source's arithmetic wraps by \<^const>\<open>int64\<close>.

  The lemmas show that \<open>scriptNum_Bytes\<close> and \<open>makeScriptNum\<close> are inverse to each other on the
  range a length limit allows, that minimally encoded data has exactly one reading and one
  encoding, and which numbers the encoder cannot handle.
\<close>

section \<open>Model\<close>

type_synonym scriptNum = int

definition maxInt32 :: int where "maxInt32 = 2 ^ 31 - 1"
definition minInt32 :: int where "minInt32 = - (2 ^ 31)"
definition defaultScriptNumLen :: nat where "defaultScriptNumLen = 4"

definition checkMinimalDataEncoding :: "bytes \<Rightarrow> script_err + unit" where
  "checkMinimalDataEncoding v =
     (if length v = 0 then Inr ()
      else if v ! (length v - 1) AND 0x7f = 0
        \<and> (length v = 1 \<or> v ! (length v - 2) AND 0x80 = 0)
      then Inl (scriptError ErrMinimalData)
      else Inr ())"

text \<open>The loop \<^verbatim>\<open>for n > 0 { result = append(result, byte(n&0xff)); n >>= 8 }\<close>.\<close>

function scriptNum_loop :: "scriptNum \<Rightarrow> bytes" where
  "scriptNum_loop n =
     (if n > 0 then word_of_int (n AND 0xff) # scriptNum_loop (drop_bit 8 n) else [])"
  by pat_completeness auto
termination
  by (relation "measure nat") (auto simp: drop_bit_eq_div)

declare scriptNum_loop.simps [simp del]

definition scriptNum_Bytes :: "scriptNum \<Rightarrow> script_err + bytes" where
  "scriptNum_Bytes n =
     (if n = 0 then Inr []
      else
        let isNegative = n < 0;
            m = (if isNegative then int64 (- n) else n);
            result = scriptNum_loop m
        in if result = [] then Inl GoPanic
           else if last result AND 0x80 \<noteq> 0 then
             let extraByte = (if isNegative then 0x80 else 0x00) in Inr (result @ [extraByte])
           else if isNegative then Inr (butlast result @ [last result OR 0x80])
           else Inr result)"

definition scriptNum_Int32 :: "scriptNum \<Rightarrow> int" where
  "scriptNum_Int32 n = (if n > maxInt32 then maxInt32 else if n < minInt32 then minInt32 else n)"

text \<open>The loop \<^verbatim>\<open>for i, val := range v { result |= int64(val) << uint8(8*i) }\<close>.\<close>

fun makeScriptNum_loop :: "nat \<Rightarrow> bytes \<Rightarrow> int \<Rightarrow> int" where
  "makeScriptNum_loop i [] result = result"
| "makeScriptNum_loop i (val # vs) result =
     makeScriptNum_loop (Suc i) vs (result OR int64 (push_bit ((8 * i) mod 256) (uint val)))"

definition makeScriptNum :: "bytes \<Rightarrow> bool \<Rightarrow> nat \<Rightarrow> script_err + scriptNum" where
  "makeScriptNum v requireMinimal scriptNumLen =
     (if length v > scriptNumLen then Inl (scriptError ErrNumberTooBig)
      else case (if requireMinimal then checkMinimalDataEncoding v else Inr ()) of
        Inl e \<Rightarrow> Inl e
      | Inr _ \<Rightarrow>
          (if length v = 0 then Inr 0
           else
             let result = makeScriptNum_loop 0 v 0
             in if last v AND 0x80 \<noteq> 0 then
                  Inr (int64 (- (result AND NOT (int64 (push_bit ((8 * (length v - 1)) mod 256) 0x80)))))
                else Inr result))"

section \<open>Sign-magnitude values\<close>

lemma unat_low_byte:
  assumes "0 \<le> n"
  shows "unat (word_of_int (n AND 0xff) :: byte) = nat n mod 256"
proof -
  have "n AND 0xff = n mod 256"
    using take_bit_eq_mask [of 8 n] by (simp add: mask_eq_exp_minus_1 take_bit_eq_mod)
  then show ?thesis using assms
    by (simp add: unsigned_of_int nat_mod_distrib take_bit_eq_mod)
qed

lemma scriptNum_loop_nat: "0 \<le> n \<Longrightarrow> le_nat (scriptNum_loop n) = nat n"
proof (induction n rule: scriptNum_loop.induct)
  case (1 n)
  show ?case
  proof (cases "n > 0")
    case True
    have "le_nat (scriptNum_loop (drop_bit 8 n)) = nat n div 256"
      using "1.IH" [OF True] True by (simp add: drop_bit_eq_div nat_div_distrib)
    then show ?thesis using True unat_low_byte [of n] by (subst scriptNum_loop.simps) simp
  qed (use 1 in \<open>simp add: scriptNum_loop.simps\<close>)
qed

lemma scriptNum_loop_Nil: "scriptNum_loop n = [] \<longleftrightarrow> n \<le> 0"
  by (subst scriptNum_loop.simps) simp

lemma scriptNum_loop_last: "0 < n \<Longrightarrow> last (scriptNum_loop n) \<noteq> 0"
proof (induction n rule: scriptNum_loop.induct)
  case (1 n)
  show ?case
  proof (cases "drop_bit 8 n > 0")
    case True
    then have "scriptNum_loop (drop_bit 8 n) \<noteq> []" by (simp add: scriptNum_loop_Nil)
    then show ?thesis using "1.IH" [OF "1.prems" True] "1.prems"
      by (subst scriptNum_loop.simps) simp
  next
    case False
    then have "n < 256" using "1.prems" by (simp add: drop_bit_eq_div)
    then have "unat (word_of_int (n AND 0xff) :: byte) \<noteq> 0"
      using "1.prems" unat_low_byte [of n] by simp
    then have "(word_of_int (n AND 0xff) :: byte) \<noteq> 0" by (metis unat_0)
    then show ?thesis using False "1.prems"
      by (subst scriptNum_loop.simps) (simp add: scriptNum_loop_Nil)
  qed
qed

text \<open>The value of sign-magnitude data.\<close>

definition sm_value :: "bytes \<Rightarrow> int" where
  "sm_value v =
     (if v = [] then 0
      else if unat (last v) < 128 then int (le_nat v)
      else - int (le_nat v - 128 * 256 ^ (length v - 1)))"

lemma makeScriptNum_loop_add:
  assumes "0 \<le> r" "r < 2 ^ (8 * i)" "i + length v \<le> 7"
  shows "makeScriptNum_loop i v r = r + 2 ^ (8 * i) * int (le_nat v)"
  using assms
proof (induction i v r rule: makeScriptNum_loop.induct)
  case (1 i result)
  then show ?case by simp
next
  case (2 i val vs result)
  have i: "i \<le> 6" using "2.prems" by simp
  have val: "uint val < 256" using unsigned_less [of val] by simp
  have lt: "push_bit (8 * i) (uint val) < 2 ^ (8 * Suc i)"
    using val by (simp add: push_bit_eq_mult power_add)
  have "(2 :: int) ^ (8 * Suc i) \<le> 2 ^ 56" using i by (intro power_increasing) auto
  with lt have "push_bit (8 * i) (uint val) < 2 ^ 63" by simp
  moreover have "0 \<le> push_bit (8 * i) (uint val)" by simp
  ultimately have id: "int64 (push_bit (8 * i) (uint val)) = push_bit (8 * i) (uint val)"
    by (intro int64_nonneg)
  have m: "(8 * i) mod 256 = 8 * i" using i by simp
  have o: "result OR push_bit (8 * i) (uint val) = result + push_bit (8 * i) (uint val)"
    using "2.prems" by (intro or_push_bit_add) (simp add: take_bit_int_eq_self)
  have "makeScriptNum_loop i (val # vs) result
      = makeScriptNum_loop (Suc i) vs (result + push_bit (8 * i) (uint val))"
    by (simp only: makeScriptNum_loop.simps m id o)
  also have "\<dots> = result + push_bit (8 * i) (uint val) + 2 ^ (8 * Suc i) * int (le_nat vs)"
  proof (rule "2.IH" [unfolded m id o])
    have "result + push_bit (8 * i) (uint val) < 2 ^ (8 * i) * (1 + uint val)"
      using "2.prems" by (simp add: push_bit_eq_mult algebra_simps)
    also have "\<dots> \<le> 2 ^ (8 * i) * 256" using val by (intro mult_left_mono) auto
    finally show "result + push_bit (8 * i) (uint val) < 2 ^ (8 * Suc i)" by (simp add: power_add)
  qed (use "2.prems" in auto)
  finally show ?case by (simp add: push_bit_eq_mult algebra_simps power_add)
qed

lemma makeScriptNum_value:
  assumes "length v \<le> 7"
  shows "makeScriptNum v m L =
      (if length v > L then Inl (scriptError ErrNumberTooBig)
       else case (if m then checkMinimalDataEncoding v else Inr ()) of
         Inl e \<Rightarrow> Inl e | Inr _ \<Rightarrow> Inr (sm_value v))"
proof (cases "v = []")
  case True
  then show ?thesis by (simp add: makeScriptNum_def sm_value_def checkMinimalDataEncoding_def)
next
  case False
  have r: "makeScriptNum_loop 0 v 0 = int (le_nat v)"
    using makeScriptNum_loop_add [of 0 0 v] assms by simp
  define k where "k = 8 * (length v - 1)"
  have k: "k \<le> 48" "k mod 256 = k" using assms by (auto simp: k_def)
  have p: "(256 :: nat) ^ (length v - 1) = 2 ^ k" by (simp add: k_def power_mult)
  have neg: "int64 (- (int (le_nat v) AND NOT (int64 (push_bit k 0x80)))) = sm_value v"
    if "\<not> unat (last v) < 128"
  proof -
    have ge: "128 * 2 ^ k \<le> le_nat v" using that le_nat_msb [OF False] p by simp
    have lt: "le_nat v < 2 ^ (k + 8)"
      using le_nat_bound [of v] False by (cases v) (simp_all add: k_def power_add power_mult)
    have "int64 (push_bit k 0x80) = 2 ^ (k + 7)"
    proof -
      have "(2 :: int) ^ (k + 7) \<le> 2 ^ 55" using k by (intro power_increasing) auto
      then have "(2 :: int) ^ (k + 7) < 2 ^ 63" by simp
      then show ?thesis using int64_nonneg [of "2 ^ (k + 7)"] by (simp add: push_bit_eq_mult power_add mult.commute)
    qed
    moreover have "int (le_nat v) AND NOT (2 ^ (k + 7)) = int (le_nat v) - 2 ^ (k + 7)"
    proof -
      have "int (128 * 2 ^ k) \<le> int (le_nat v)" "int (le_nat v) < int (2 ^ (k + 8))"
        using ge lt by (simp_all only: of_nat_le_iff of_nat_less_iff)
      then have "int (le_nat v) div 2 ^ (k + 7) = 1"
        by (intro int_div_pos_eq [of _ _ _ "int (le_nat v) - 2 ^ (k + 7)"]) (auto simp: power_add)
      then show ?thesis
        using unset_bit_eq [of "k + 7" "int (le_nat v)"] by (simp add: unset_bit_eq_and_not bit_iff_odd)
    qed
    moreover have "int (le_nat v) - 2 ^ (k + 7) = int (le_nat v - 128 * 256 ^ (length v - 1))"
      using ge p by (simp add: of_nat_diff power_add)
    moreover have "int (le_nat v) - 2 ^ (k + 7) \<le> 2 ^ 63"
    proof -
      have "(2 :: nat) ^ (k + 8) \<le> 2 ^ 56" using k by (intro power_increasing) auto
      with lt have "le_nat v < 2 ^ 56" by (rule less_le_trans)
      then have "int (le_nat v) \<le> 2 ^ 63" by simp
      moreover have "int (le_nat v) - 2 ^ (k + 7) \<le> int (le_nat v)" by simp
      ultimately show ?thesis by (rule order_trans [rotated])
    qed
    ultimately show ?thesis
      using int64_uminus [of "int (le_nat v - 128 * 256 ^ (length v - 1))"] that False
      by (simp add: sm_value_def)
  qed
  show ?thesis
    using False r neg k
    by (auto simp: makeScriptNum_def sm_value_def byte_msb Let_def k_def split: sum.split)
qed

lemma abs_sm_value:
  assumes "v \<noteq> []"
  shows "nat \<bar>sm_value v\<bar> = le_nat (butlast v) + 256 ^ (length v - 1) * (unat (last v) mod 128)"
proof (cases "unat (last v) < 128")
  case True
  then have "sm_value v = int (le_nat v)" using assms by (simp add: sm_value_def)
  then show ?thesis using True le_nat_snoc [OF assms] by (simp only: nat_int abs_of_nat) simp
next
  case False
  then have "unat (last v) = 128 + unat (last v) mod 128"
    using byte_high [of "unat (last v)"] by simp
  then have "le_nat v = le_nat (butlast v) + 256 ^ (length v - 1) * (128 + unat (last v) mod 128)"
    using le_nat_snoc [OF assms] by simp
  then have "le_nat v - 128 * 256 ^ (length v - 1)
      = le_nat (butlast v) + 256 ^ (length v - 1) * (unat (last v) mod 128)"
    by (simp add: add_mult_distrib2)
  moreover have "sm_value v = - int (le_nat v - 128 * 256 ^ (length v - 1))"
    using False assms by (simp add: sm_value_def)
  ultimately show ?thesis by (simp only: abs_minus_cancel abs_of_nat nat_int)
qed

lemma sm_value_upper: "2 * nat \<bar>sm_value v\<bar> < 256 ^ length v"
proof (cases "v = []")
  case True
  then show ?thesis by (simp add: sm_value_def)
next
  case False
  have "le_nat (butlast v) < 256 ^ (length v - 1)" using le_nat_bound [of "butlast v"] by simp
  then have "nat \<bar>sm_value v\<bar> < 256 ^ (length v - 1) * 128"
    unfolding abs_sm_value [OF False] by (rule digit_less_nat) simp
  then show ?thesis using False by (cases v) simp_all
qed

lemma minimal_iff:
  "checkMinimalDataEncoding v = Inr () \<longleftrightarrow>
     v = [] \<or> unat (last v) mod 128 \<noteq> 0 \<or> (2 \<le> length v \<and> 128 \<le> unat (v ! (length v - 2)))"
proof -
  have "(b :: byte) AND 0x7f = 0 \<longleftrightarrow> unat b mod 128 = 0" for b
    by (metis unat_0 unat_and_7f unat_eq_zero)
  then show ?thesis
    by (cases "v = []")
       (auto simp: checkMinimalDataEncoding_def last_conv_nth byte_msb Suc_le_eq not_less
             simp flip: length_greater_0_conv)
qed

lemma sm_value_lower:
  assumes "checkMinimalDataEncoding v = Inr ()" "v \<noteq> []"
  shows "256 ^ (length v - 1) \<le> 2 * nat \<bar>sm_value v\<bar>"
proof (cases "unat (last v) mod 128 = 0")
  case False
  then have "256 ^ (length v - 1) * 1 \<le> 256 ^ (length v - 1) * (unat (last v) mod 128)"
    by (intro mult_le_mono) auto
  then show ?thesis unfolding abs_sm_value [OF assms(2)] nat_mult_1_right
    by (rule order_trans) simp
next
  case True
  with assms have two: "2 \<le> length v" "128 \<le> unat (v ! (length v - 2))"
    by (auto simp: minimal_iff)
  have b: "butlast v \<noteq> []" using two by (cases v) auto
  have "last (butlast v) = v ! (length v - 2)"
    using two b by (simp add: last_conv_nth nth_butlast numeral_2_eq_2)
  then have "\<not> le_nat (butlast v) < 128 * 256 ^ (length v - 2)"
    using le_nat_msb [OF b] two by (simp add: numeral_2_eq_2)
  moreover have "(256 :: nat) ^ (length v - 1) = 256 * 256 ^ (length v - 2)"
    using two by (cases "length v - 1") (simp_all add: numeral_2_eq_2)
  ultimately show ?thesis unfolding abs_sm_value [OF assms(2)] by simp
qed

lemma sm_value_sign:
  assumes "v \<noteq> []" "sm_value v \<noteq> 0"
  shows "unat (last v) < 128 \<longleftrightarrow> 0 < sm_value v"
  using assms by (auto simp: sm_value_def)

text \<open>Minimally encoded data is determined by its value.\<close>

lemma minimal_unique:
  assumes v: "checkMinimalDataEncoding v = Inr ()" and w: "checkMinimalDataEncoding w = Inr ()"
    and eq: "sm_value v = sm_value w"
  shows "v = w"
proof (cases "sm_value v = 0")
  case True
  have "v = []" using sm_value_lower [OF v] True by fastforce
  moreover have "w = []" using sm_value_lower [OF w] True eq by fastforce
  ultimately show ?thesis by simp
next
  case False
  have ne: "v \<noteq> []" "w \<noteq> []" using False eq by (auto simp: sm_value_def)
  have "256 ^ (length v - 1) < (256 :: nat) ^ length w"
    by (rule le_less_trans [OF sm_value_lower [OF v ne(1), unfolded eq] sm_value_upper])
  then have "length v - 1 < length w" by (simp add: power_strict_increasing_iff)
  moreover have "256 ^ (length w - 1) < (256 :: nat) ^ length v"
    by (rule le_less_trans [OF sm_value_lower [OF w ne(2), folded eq] sm_value_upper])
  then have "length w - 1 < length v" by (simp add: power_strict_increasing_iff)
  ultimately have len: "length v = length w" using ne by (cases v; cases w) auto
  have "unat (last v) < 128 \<longleftrightarrow> unat (last w) < 128"
    using sm_value_sign [OF ne(1)] sm_value_sign [OF ne(2)] False eq by simp
  then have "le_nat v = le_nat w"
    using eq len ne le_nat_msb [OF ne(1)] le_nat_msb [OF ne(2)]
    by (auto simp: sm_value_def split: if_splits)
  with len show ?thesis by (rule le_nat_inj)
qed

subsection \<open>The encoder\<close>

lemma scriptNum_Bytes_ok:
  assumes "\<bar>n\<bar> < 2 ^ 63"
  obtains v where "scriptNum_Bytes n = Inr v" "sm_value v = n" "checkMinimalDataEncoding v = Inr ()"
proof (cases "n = 0")
  case True
  with that [of "[]"] show ?thesis
    by (simp add: scriptNum_Bytes_def sm_value_def checkMinimalDataEncoding_def)
next
  case False
  define r where "r = scriptNum_loop \<bar>n\<bar>"
  have loop: "scriptNum_loop (if n < 0 then int64 (- n) else n) = r"
    using assms int64_nonneg [of "- n"] by (auto simp: r_def)
  have ne: "r \<noteq> []" using False by (simp add: r_def scriptNum_loop_Nil)
  have val: "le_nat r = nat \<bar>n\<bar>" by (simp add: r_def scriptNum_loop_nat)
  have lst: "last r \<noteq> 0" using False by (simp add: r_def scriptNum_loop_last)
  show ?thesis
  proof (cases "unat (last r) < 128")
    case True
    show ?thesis
    proof (cases "n < 0")
      case neg: True
      let ?v = "butlast r @ [last r OR 0x80]"
      have u: "unat (last r OR 0x80) = unat (last r) + 128" using True by (rule unat_or_80)
      have "nat \<bar>sm_value ?v\<bar> = le_nat r"
        using abs_sm_value [of ?v] le_nat_snoc [OF ne] u True by simp
      moreover have "sm_value ?v \<le> 0" using u by (simp add: sm_value_def)
      ultimately have "sm_value ?v = n" using val neg by linarith
      moreover have "checkMinimalDataEncoding ?v = Inr ()"
        using u True lst by (simp add: minimal_iff unat_eq_zero)
      moreover have "scriptNum_Bytes n = Inr ?v"
        using False neg loop ne True by (simp add: scriptNum_Bytes_def Let_def byte_msb)
      ultimately show ?thesis using that by blast
    next
      case pos: False
      have "sm_value r = n" using ne True val pos by (simp add: sm_value_def)
      moreover have "checkMinimalDataEncoding r = Inr ()"
        using True lst by (simp add: minimal_iff unat_eq_zero)
      moreover have "scriptNum_Bytes n = Inr r"
        using False pos loop ne True by (simp add: scriptNum_Bytes_def Let_def byte_msb)
      ultimately show ?thesis using that by blast
    qed
  next
    case big: False
    let ?x = "if n < 0 then 0x80 else 0x00 :: byte"
    let ?v = "r @ [?x]"
    have "nat \<bar>sm_value ?v\<bar> = le_nat r" using abs_sm_value [of ?v] by simp
    moreover have "n < 0 \<Longrightarrow> sm_value ?v \<le> 0" "\<not> n < 0 \<Longrightarrow> 0 \<le> sm_value ?v"
      by (simp_all add: sm_value_def)
    ultimately have "sm_value ?v = n" using val by linarith
    moreover have "checkMinimalDataEncoding ?v = Inr ()"
      using big ne by (cases r rule: rev_cases) (simp_all add: minimal_iff nth_append)
    moreover have "scriptNum_Bytes n = Inr ?v"
      using False loop ne big by (simp add: scriptNum_Bytes_def Let_def byte_msb)
    ultimately show ?thesis using that by blast
  qed
qed

lemma sm_value_length:
  assumes "checkMinimalDataEncoding v = Inr ()" "\<bar>sm_value v\<bar> < 2 ^ (8 * L - 1)" "0 < L"
  shows "length v \<le> L"
proof (cases "v = []")
  case False
  have "nat \<bar>sm_value v\<bar> < 2 ^ (8 * L - 1)" using assms(2) by (simp add: nat_less_iff)
  then have "2 * nat \<bar>sm_value v\<bar> < 2 * 2 ^ (8 * L - 1)" by simp
  also have "\<dots> = 256 ^ L" using assms(3) by (cases L) (simp_all add: power_mult power_add)
  finally have "256 ^ (length v - 1) < (256 :: nat) ^ L"
    using sm_value_lower [OF assms(1) False] by (rule order.strict_trans1 [rotated])
  then show ?thesis by (simp add: power_strict_increasing_iff)
qed simp

section \<open>Properties\<close>

text \<open>
  C25: Decoding an encoded script number gives the number back: for a length limit of
  \<open>L\<close> bytes (the engine uses 4 and 5) every number of magnitude below \<open>2^(8L-1)\<close> is encoded,
  without a panic, in at most \<open>L\<close> bytes, and \<^const>\<open>makeScriptNum\<close> accepts that encoding even
  under the minimal-encoding rule and returns the number.
\<close>

theorem scriptNum_roundtrip:
  assumes "0 < L" "L \<le> 7" "\<bar>n\<bar> < 2 ^ (8 * L - 1)"
  shows "\<exists>v. scriptNum_Bytes n = Inr v \<and> length v \<le> L \<and> makeScriptNum v True L = Inr n"
proof -
  have "(2 :: int) ^ (8 * L - 1) \<le> 2 ^ 63" using assms(2) by (intro power_increasing) auto
  with assms(3) have "\<bar>n\<bar> < 2 ^ 63" by (rule less_le_trans)
  then obtain v where v: "scriptNum_Bytes n = Inr v" "sm_value v = n" "checkMinimalDataEncoding v = Inr ()"
    by (rule scriptNum_Bytes_ok)
  then have "length v \<le> L" using sm_value_length assms by blast
  with v assms show ?thesis by (simp add: makeScriptNum_value)
qed

theorem scriptNum_roundtrip_witness:
  "\<exists>v. scriptNum_Bytes (- 255) = Inr v \<and> length v \<le> 4 \<and> makeScriptNum v True 4 = Inr (- 255)"
  by (rule scriptNum_roundtrip) simp_all

text \<open>
  Minimally encoded numbers are canonical: bytes that \<^const>\<open>makeScriptNum\<close> accepts
  under the minimal-encoding rule are exactly the bytes \<^const>\<open>scriptNum_Bytes\<close> produces for the
  number they decode to, so no number has two accepted encodings.
\<close>

theorem makeScriptNum_minimal_inverse:
  assumes "makeScriptNum v True L = Inr n" "L \<le> 7"
  shows "scriptNum_Bytes n = Inr v"
proof -
  have len: "length v \<le> 7" using assms by (auto simp: makeScriptNum_def split: if_splits)
  have n: "n = sm_value v" and m: "checkMinimalDataEncoding v = Inr ()"
    using assms(1) makeScriptNum_value [OF len] by (auto split: if_splits sum.splits)
  have "2 * nat \<bar>n\<bar> < 256 ^ length v" unfolding n by (rule sm_value_upper)
  also have "\<dots> \<le> (256 :: nat) ^ 7" using len by (intro power_increasing) auto
  finally have "\<bar>n\<bar> < 2 ^ 63" by simp
  then obtain w where "scriptNum_Bytes n = Inr w" "sm_value w = n" "checkMinimalDataEncoding w = Inr ()"
    by (rule scriptNum_Bytes_ok)
  with m n show ?thesis using minimal_unique by metis
qed

theorem makeScriptNum_minimal_inverse_witness:
  "scriptNum_Bytes 32768 = Inr [0x00, 0x80, 0x00]"
  by (rule makeScriptNum_minimal_inverse [of _ 4])
     (simp_all add: makeScriptNum_def checkMinimalDataEncoding_def int64_def)

lemma makeScriptNum_range:
  assumes "makeScriptNum v m L = Inr n" "L \<le> 7"
  shows "2 * \<bar>n\<bar> < 256 ^ L"
proof -
  have len: "length v \<le> L" using assms by (auto simp: makeScriptNum_def split: if_splits)
  have n: "n = sm_value v"
    using assms makeScriptNum_value [of v m L] len by (auto split: if_splits sum.splits)
  have "2 * nat \<bar>n\<bar> < 256 ^ length v" unfolding n by (rule sm_value_upper)
  also have "\<dots> \<le> (256 :: nat) ^ L" using len by (intro power_increasing) auto
  finally have "int (2 * nat \<bar>n\<bar>) < int (256 ^ L)" by (simp only: of_nat_less_iff)
  then show ?thesis by simp
qed

text \<open>
  The encoder fails on exactly one \<^verbatim>\<open>int64\<close>: negating the least value overflows, the
  digit loop then appends nothing, and \<^verbatim>\<open>result[len(result)-1]\<close> is out of range.  Every other
  \<^verbatim>\<open>int64\<close> is encoded without a panic.
\<close>

theorem scriptNum_Bytes_panics_iff:
  assumes "- (2 ^ 63) \<le> n" "n < 2 ^ 63"
  shows "scriptNum_Bytes n = Inl GoPanic \<longleftrightarrow> n = - (2 ^ 63)"
proof
  assume p: "scriptNum_Bytes n = Inl GoPanic"
  show "n = - (2 ^ 63)"
  proof (rule ccontr)
    assume "n \<noteq> - (2 ^ 63)"
    with assms have "\<bar>n\<bar> < 2 ^ 63" by simp
    then show False using p scriptNum_Bytes_ok [of n] by force
  qed
next
  assume "n = - (2 ^ 63)"
  then show "scriptNum_Bytes n = Inl GoPanic"
    by (simp add: scriptNum_Bytes_def int64_def scriptNum_loop.simps)
qed

theorem scriptNum_Bytes_panics_iff_witness:
  "scriptNum_Bytes (- (2 ^ 63)) = Inl GoPanic \<and> scriptNum_Bytes (1 - 2 ^ 63) \<noteq> Inl GoPanic"
  using scriptNum_Bytes_panics_iff [of "- (2 ^ 63)"] scriptNum_Bytes_panics_iff [of "1 - 2 ^ 63"]
  by simp

end
