(* ===== verification/Script_Stack.thy ===== *)
theory Script_Stack
  imports Script_Num
begin

text \<open>
  The data and alternate stacks of the engine (\<^verbatim>\<open>src/txscript/stack.go\<close>).  As in the source
  the top of the stack is the last element of \<open>stk\<close>, and an index counts from the top.
  Depths and indices are \<^verbatim>\<open>int32\<close> in the source; they are \<open>int\<close> here, since every stack is
  shorter than \<open>2^31\<close> elements.

  The loops of \<^verbatim>\<open>DupN\<close>, \<^verbatim>\<open>RotN\<close>, \<^verbatim>\<open>SwapN\<close> and \<^verbatim>\<open>OverN\<close> only push, peek and nip.  The locale
  \<open>lifo_stack\<close> states what they rely on, and their effect is computed once inside it.
\<close>

section \<open>Model\<close>

fun asBool :: "bytes \<Rightarrow> bool" where
  "asBool [] = False"
| "asBool (b # t) = (if b \<noteq> 0 then \<not> (t = [] \<and> b = 0x80) else asBool t)"

definition fromBool :: "bool \<Rightarrow> bytes" where
  "fromBool v = (if v then [1] else [])"

record stack =
  stk :: "bytes list"
  verifyMinimalData :: bool

type_synonym 'a stackM = "(stack, script_err, 'a) goM"

definition Depth :: "stack \<Rightarrow> int" where
  "Depth s = int (length (stk s))"

definition PushByteArray :: "bytes \<Rightarrow> unit stackM" where
  "PushByteArray so = modifyM (\<lambda>s. s\<lparr>stk := stk s @ [so]\<rparr>)"

definition PushInt :: "scriptNum \<Rightarrow> unit stackM" where
  "PushInt val = bindM (liftM (scriptNum_Bytes val)) PushByteArray"

definition PushBool :: "bool \<Rightarrow> unit stackM" where
  "PushBool val = PushByteArray (fromBool val)"

definition nipN :: "int \<Rightarrow> bytes stackM" where
  "nipN idx = (\<lambda>s.
     let sz = int (length (stk s)) in
     if idx < 0 \<or> idx > sz - 1 then (Inl (scriptError ErrInvalidStackOperation), s)
     else
       let so = stk s ! nat (sz - idx - 1) in
       if idx = 0 then (Inr so, s\<lparr>stk := take (nat (sz - 1)) (stk s)\<rparr>)
       else if idx = sz - 1 then (Inr so, s\<lparr>stk := drop 1 (stk s)\<rparr>)
       else (Inr so, s\<lparr>stk := take (nat (sz - idx - 1)) (stk s) @ drop (nat (sz - idx)) (stk s)\<rparr>))"

definition PopByteArray :: "bytes stackM" where
  "PopByteArray = nipN 0"

definition PopInt :: "scriptNum stackM" where
  "PopInt = bindM PopByteArray (\<lambda>so.
     bindM (getM verifyMinimalData) (\<lambda>vmd. liftM (makeScriptNum so vmd defaultScriptNumLen)))"

definition PopBool :: "bool stackM" where
  "PopBool = bindM PopByteArray (\<lambda>so. returnM (asBool so))"

definition PeekByteArray :: "int \<Rightarrow> bytes stackM" where
  "PeekByteArray idx = (\<lambda>s.
     let sz = int (length (stk s)) in
     if idx < 0 \<or> idx \<ge> sz then (Inl (scriptError ErrInvalidStackOperation), s)
     else (Inr (stk s ! nat (sz - idx - 1)), s))"

definition PeekInt :: "int \<Rightarrow> scriptNum stackM" where
  "PeekInt idx = bindM (PeekByteArray idx) (\<lambda>so.
     bindM (getM verifyMinimalData) (\<lambda>vmd. liftM (makeScriptNum so vmd defaultScriptNumLen)))"

definition PeekBool :: "int \<Rightarrow> bool stackM" where
  "PeekBool idx = bindM (PeekByteArray idx) (\<lambda>so. returnM (asBool so))"

definition NipN :: "int \<Rightarrow> unit stackM" where
  "NipN idx = bindM (nipN idx) (\<lambda>_. returnM ())"

definition Tuck :: "unit stackM" where
  "Tuck = bindM PopByteArray (\<lambda>so2. bindM PopByteArray (\<lambda>so1.
     bindM (PushByteArray so2) (\<lambda>_. bindM (PushByteArray so1) (\<lambda>_. PushByteArray so2))))"

definition DropN :: "int \<Rightarrow> unit stackM" where
  "DropN n =
     (if n < 1 then raiseM (scriptError ErrInvalidStackOperation)
      else bindM (repeatM (nat n) PopByteArray) (\<lambda>_. returnM ()))"

definition DupN :: "int \<Rightarrow> unit stackM" where
  "DupN n =
     (if n < 1 then raiseM (scriptError ErrInvalidStackOperation)
      else bindM (repeatM (nat n) (bindM (PeekByteArray (n - 1)) PushByteArray)) (\<lambda>_. returnM ()))"

definition RotN :: "int \<Rightarrow> unit stackM" where
  "RotN n =
     (if n < 1 then raiseM (scriptError ErrInvalidStackOperation)
      else let entry = 3 * n - 1 in
        bindM (repeatM (nat n) (bindM (nipN entry) PushByteArray)) (\<lambda>_. returnM ()))"

definition SwapN :: "int \<Rightarrow> unit stackM" where
  "SwapN n =
     (if n < 1 then raiseM (scriptError ErrInvalidStackOperation)
      else let entry = 2 * n - 1 in
        bindM (repeatM (nat n) (bindM (nipN entry) PushByteArray)) (\<lambda>_. returnM ()))"

definition OverN :: "int \<Rightarrow> unit stackM" where
  "OverN n =
     (if n < 1 then raiseM (scriptError ErrInvalidStackOperation)
      else let entry = 2 * n - 1 in
        bindM (repeatM (nat n) (bindM (PeekByteArray entry) PushByteArray)) (\<lambda>_. returnM ()))"

definition PickN :: "int \<Rightarrow> unit stackM" where
  "PickN n = bindM (PeekByteArray n) PushByteArray"

definition RollN :: "int \<Rightarrow> unit stackM" where
  "RollN n = bindM (nipN n) PushByteArray"

section \<open>The contract of a stack with indexed access\<close>

text \<open>
  \<open>items\<close> and \<open>put\<close> read and replace the list of elements, bottom first.  \<open>push\<close>, \<open>nip\<close> and
  \<open>peek\<close> are total: out of range they raise \<open>err\<close> and leave the stack alone.
\<close>

locale lifo_stack =
  fixes items :: "'s \<Rightarrow> 'a list"
    and put :: "'a list \<Rightarrow> 's \<Rightarrow> 's"
    and push :: "'a \<Rightarrow> ('s, 'e, unit) goM"
    and nip :: "int \<Rightarrow> ('s, 'e, 'a) goM"
    and peek :: "int \<Rightarrow> ('s, 'e, 'a) goM"
    and err :: 'e
  assumes items_put: "items (put xs s) = xs"
    and put_put: "put xs (put ys s) = put xs s"
    and put_items: "put (items s) s = s"
    and push_eq: "push x s = (Inr (), put (items s @ [x]) s)"
    and nip_ok: "items s = xs @ y # zs \<Longrightarrow> nip (int (length zs)) s = (Inr y, put (xs @ zs) s)"
    and nip_err: "i < 0 \<or> int (length (items s)) \<le> i \<Longrightarrow> nip i s = (Inl err, s)"
    and peek_ok: "items s = xs @ y # zs \<Longrightarrow> peek (int (length zs)) s = (Inr y, s)"
    and peek_err: "i < 0 \<or> int (length (items s)) \<le> i \<Longrightarrow> peek i s = (Inl err, s)"
begin

text \<open>Moving the \<open>m\<close>-th element to the top rotates the top \<open>m\<close> elements.\<close>

lemma nip_push_rotate:
  assumes "items s = r @ xs" "xs \<noteq> []" "m = int (length xs) - 1"
  shows "repeatM k (bindM (nip m) push) s = (Inr (replicate k ()), put (r @ rotate k xs) s)"
  using assms
proof (induction k arbitrary: s xs)
  case 0
  then show ?case by (simp add: goM_simps) (metis put_items)
next
  case (Suc k)
  then obtain y zs where xs: "xs = y # zs" by (cases xs) auto
  with Suc.prems have "nip m s = (Inr y, put (r @ zs) s)" using nip_ok [of s r y zs] by simp
  then have one: "bindM (nip m) push s = (Inr (), put (r @ zs @ [y]) s)"
    by (simp add: goM_simps push_eq items_put put_put)
  have "repeatM k (bindM (nip m) push) (put (r @ zs @ [y]) s)
      = (Inr (replicate k ()), put (r @ rotate k (zs @ [y])) s)"
    using Suc.IH [of "put (r @ zs @ [y]) s" "zs @ [y]"] Suc.prems xs by (simp add: items_put put_put)
  from repeatM_Suc_Inr [OF one this] show ?case
    by (simp add: xs rotate1_rotate_swap)
qed

text \<open>Copying the \<open>m\<close>-th element repeatedly copies the top \<open>m\<close> elements in order.\<close>

lemma peek_push_copy:
  assumes "items s = r @ xs @ take j xs" "m = int (length xs) - 1" "j + k \<le> length xs"
  shows "repeatM k (bindM (peek m) push) s = (Inr (replicate k ()), put (r @ xs @ take (j + k) xs) s)"
  using assms
proof (induction k arbitrary: s j)
  case 0
  then show ?case by (simp add: goM_simps) (metis put_items)
next
  case (Suc k)
  then have j: "j < length xs" by simp
  then have split: "xs = take j xs @ xs ! j # drop (Suc j) xs" by (simp add: id_take_nth_drop)
  have "items s = (r @ take j xs) @ xs ! j # (drop (Suc j) xs @ take j xs)"
    using Suc.prems(1) split by (metis append.assoc append_Cons)
  moreover have "m = int (length (drop (Suc j) xs @ take j xs))" using Suc.prems(2) j by simp
  ultimately have "peek m s = (Inr (xs ! j), s)" using peek_ok by metis
  then have one: "bindM (peek m) push s = (Inr (), put (r @ xs @ take (Suc j) xs) s)"
    using Suc.prems(1) j by (simp add: goM_simps push_eq take_Suc_conv_app_nth)
  have "repeatM k (bindM (peek m) push) (put (r @ xs @ take (Suc j) xs) s)
      = (Inr (replicate k ()), put (r @ xs @ take (Suc j + k) xs) s)"
    using Suc.IH [of "put (r @ xs @ take (Suc j) xs) s" "Suc j"] Suc.prems
    by (simp add: items_put put_put)
  from repeatM_Suc_Inr [OF one this] show ?case by simp
qed

lemma nip0_drop:
  assumes "items s = r @ xs"
  shows "repeatM (length xs) (nip 0) s = (Inr (rev xs), put r s)"
  using assms
proof (induction xs arbitrary: s rule: rev_induct)
  case Nil
  then show ?case by (simp add: goM_simps) (metis put_items)
next
  case (snoc x xs)
  then have "nip 0 s = (Inr x, put (r @ xs) s)" using nip_ok [of s "r @ xs" x "[]"] by simp
  moreover have "repeatM (length xs) (nip 0) (put (r @ xs) s) = (Inr (rev xs), put r s)"
    using snoc.IH [of "put (r @ xs) s"] by (simp add: items_put put_put)
  ultimately have "repeatM (Suc (length xs)) (nip 0) s = (Inr (x # rev xs), put r s)"
    by (rule repeatM_Suc_Inr)
  then show ?case by simp
qed

lemma nip0_underflow:
  "length (items s) < k \<Longrightarrow> \<exists>s'. repeatM k (nip 0) s = (Inl err, s')"
proof (induction k arbitrary: s)
  case (Suc k)
  show ?case
  proof (cases "items s" rule: rev_cases)
    case Nil
    then have "nip 0 s = (Inl err, s)" by (simp add: nip_err)
    then have "repeatM (Suc k) (nip 0) s = (Inl err, s)" by (rule repeatM_Suc_Inl)
    then show ?thesis ..
  next
    case (snoc xs x)
    then have one: "nip 0 s = (Inr x, put xs s)" using nip_ok [of s xs x "[]"] by simp
    have "length (items (put xs s)) < k" using Suc.prems snoc by (simp add: items_put)
    then obtain s' where "repeatM k (nip 0) (put xs s) = (Inl err, s')" using Suc.IH by blast
    with one have "repeatM (Suc k) (nip 0) s = (Inl err, s')" by (rule repeatM_Suc_Inr_Inl)
    then show ?thesis ..
  qed
qed simp

lemma nip_push_underflow:
  "int (length (items s)) \<le> m \<Longrightarrow> repeatM (Suc k) (bindM (nip m) push) s = (Inl err, s)"
  by (rule repeatM_Suc_Inl) (simp add: bindM_Inl nip_err)

lemma peek_push_underflow:
  "int (length (items s)) \<le> m \<Longrightarrow> repeatM (Suc k) (bindM (peek m) push) s = (Inl err, s)"
  by (rule repeatM_Suc_Inl) (simp add: bindM_Inl peek_err)

end


section \<open>The stack of the engine meets the contract\<close>

lemma nipN_split:
  assumes "stk s = xs @ y # zs"
  shows "nipN (int (length zs)) s = (Inr y, s\<lparr>stk := xs @ zs\<rparr>)"
  using assms by (auto simp: nipN_def Let_def nth_append nat_add_distrib)

lemma nipN_range:
  "i < 0 \<or> int (length (stk s)) \<le> i \<Longrightarrow> nipN i s = (Inl (scriptError ErrInvalidStackOperation), s)"
  by (auto simp: nipN_def Let_def)

lemma PeekByteArray_split:
  assumes "stk s = xs @ y # zs"
  shows "PeekByteArray (int (length zs)) s = (Inr y, s)"
  using assms by (auto simp: PeekByteArray_def Let_def nth_append nat_add_distrib)

lemma PeekByteArray_range:
  "i < 0 \<or> int (length (stk s)) \<le> i \<Longrightarrow>
   PeekByteArray i s = (Inl (scriptError ErrInvalidStackOperation), s)"
  by (auto simp: PeekByteArray_def Let_def)

interpretation es: lifo_stack stk "\<lambda>xs s. s\<lparr>stk := xs\<rparr>" PushByteArray nipN PeekByteArray
  "scriptError ErrInvalidStackOperation"
  by unfold_locales
     (simp_all add: PushByteArray_def modifyM_apply nipN_split nipN_range
        PeekByteArray_split PeekByteArray_range)

lemma PopByteArray_snoc: "stk s = xs @ [x] \<Longrightarrow> PopByteArray s = (Inr x, s\<lparr>stk := xs\<rparr>)"
  using nipN_split [of s xs x "[]"] by (simp add: PopByteArray_def)

lemma PopByteArray_empty:
  "stk s = [] \<Longrightarrow> PopByteArray s = (Inl (scriptError ErrInvalidStackOperation), s)"
  by (simp add: PopByteArray_def nipN_range)

section \<open>Documented stack transformations\<close>

lemma repeat_unit:
  "repeatM k m s = (Inr us, s') \<Longrightarrow> bindM (repeatM k m) (\<lambda>_. returnM ()) s = (Inr (), s')"
  by (simp add: bindM_Inr returnM_apply)

lemma DropN_ok:
  assumes "stk s = r @ xs" "xs \<noteq> []"
  shows "DropN (int (length xs)) s = (Inr (), s\<lparr>stk := r\<rparr>)"
  using assms es.nip0_drop [OF assms(1)]
  by (simp add: DropN_def PopByteArray_def repeat_unit Suc_le_eq not_less)

lemma DupN_ok:
  assumes "stk s = r @ xs" "xs \<noteq> []"
  shows "DupN (int (length xs)) s = (Inr (), s\<lparr>stk := r @ xs @ xs\<rparr>)"
  using assms es.peek_push_copy [of s r xs 0 _ "length xs"]
  by (simp add: DupN_def repeat_unit Suc_le_eq not_less)

lemma RotN_ok:
  assumes "stk s = r @ xs @ ys @ zs" "xs \<noteq> []" "length ys = length xs" "length zs = length xs"
  shows "RotN (int (length xs)) s = (Inr (), s\<lparr>stk := r @ ys @ zs @ xs\<rparr>)"
  using assms es.nip_push_rotate [of s r "xs @ ys @ zs" _ "length xs"]
  by (simp add: RotN_def repeat_unit Suc_le_eq not_less rotate_append)

lemma SwapN_ok:
  assumes "stk s = r @ xs @ ys" "xs \<noteq> []" "length ys = length xs"
  shows "SwapN (int (length xs)) s = (Inr (), s\<lparr>stk := r @ ys @ xs\<rparr>)"
  using assms es.nip_push_rotate [of s r "xs @ ys" _ "length xs"]
  by (simp add: SwapN_def repeat_unit Suc_le_eq not_less rotate_append)

lemma OverN_ok:
  assumes "stk s = r @ xs @ ys" "xs \<noteq> []" "length ys = length xs"
  shows "OverN (int (length xs)) s = (Inr (), s\<lparr>stk := r @ xs @ ys @ xs\<rparr>)"
  using assms es.peek_push_copy [of s r "xs @ ys" 0 _ "length xs"]
  by (simp add: OverN_def repeat_unit Suc_le_eq not_less)

lemma Tuck_ok: "stk s = r @ [x1, x2] \<Longrightarrow> Tuck s = (Inr (), s\<lparr>stk := r @ [x2, x1, x2]\<rparr>)"
  using PopByteArray_snoc [of s "r @ [x1]" x2] PopByteArray_snoc [of "s\<lparr>stk := r @ [x1]\<rparr>" r x1]
  by (simp add: Tuck_def goM_simps PushByteArray_def)

lemma PickN_ok:
  "stk s = r @ x # xs \<Longrightarrow> PickN (int (length xs)) s = (Inr (), s\<lparr>stk := r @ x # xs @ [x]\<rparr>)"
  by (simp add: PickN_def goM_simps PeekByteArray_split PushByteArray_def)

lemma RollN_ok:
  "stk s = r @ x # xs \<Longrightarrow> RollN (int (length xs)) s = (Inr (), s\<lparr>stk := r @ xs @ [x]\<rparr>)"
  by (simp add: RollN_def goM_simps nipN_split PushByteArray_def)

text \<open>
  The multi-element stack operations perform the stack transformations their comments
  document, for every count \<open>n\<close> and not only the counts the opcodes use: on a stack ending in three
  blocks \<open>xs\<close>, \<open>ys\<close>, \<open>zs\<close> of \<open>n\<close> elements each, \<^const>\<open>RotN\<close> rotates the three blocks,
  \<^const>\<open>SwapN\<close> swaps and \<^const>\<open>OverN\<close> copies over the top two, \<^const>\<open>DupN\<close> duplicates and
  \<^const>\<open>DropN\<close> removes the top one, and nothing else of the stack changes.
\<close>

theorem stack_transformations:
  assumes "stk s = r @ xs @ ys @ zs" "xs \<noteq> []" "length ys = length xs" "length zs = length xs"
    and "n = int (length xs)"
  shows "RotN n s = (Inr (), s\<lparr>stk := r @ ys @ zs @ xs\<rparr>)
    \<and> SwapN n s = (Inr (), s\<lparr>stk := r @ xs @ zs @ ys\<rparr>)
    \<and> OverN n s = (Inr (), s\<lparr>stk := r @ xs @ ys @ zs @ ys\<rparr>)
    \<and> DupN n s = (Inr (), s\<lparr>stk := r @ xs @ ys @ zs @ zs\<rparr>)
    \<and> DropN n s = (Inr (), s\<lparr>stk := r @ xs @ ys\<rparr>)"
proof -
  have ne: "ys \<noteq> []" "zs \<noteq> []" using assms by auto
  show ?thesis
    using RotN_ok [OF assms(1-4)] SwapN_ok [of s "r @ xs" ys zs] OverN_ok [of s "r @ xs" ys zs]
      DupN_ok [of s "r @ xs @ ys" zs] DropN_ok [of s "r @ xs @ ys" zs] assms ne
    by simp
qed

theorem stack_transformations_witness:
  "RotN 1 \<lparr>stk = [[1], [2], [3]], verifyMinimalData = True\<rparr>
     = (Inr (), \<lparr>stk = [[2], [3], [1]], verifyMinimalData = True\<rparr>)"
  using stack_transformations
    [of "\<lparr>stk = [[1], [2], [3]], verifyMinimalData = True\<rparr>" "[]" "[[1]]" "[[2]]" "[[3]]" 1]
  by simp

text \<open>
  No stack operation reads below the bottom of the stack: with fewer elements than
  an operation needs it returns the error \<^const>\<open>ErrInvalidStackOperation\<close> (and so do counts below
  one); the copying and rotating operations leave the stack as it was.
\<close>

theorem stack_underflow:
  assumes "1 \<le> n"
  shows "(Depth s < n \<longrightarrow> fst (DropN n s) = Inl (scriptError ErrInvalidStackOperation)
            \<and> DupN n s = (Inl (scriptError ErrInvalidStackOperation), s))
    \<and> (Depth s < 2 * n \<longrightarrow> SwapN n s = (Inl (scriptError ErrInvalidStackOperation), s)
            \<and> OverN n s = (Inl (scriptError ErrInvalidStackOperation), s))
    \<and> (Depth s < 3 * n \<longrightarrow> RotN n s = (Inl (scriptError ErrInvalidStackOperation), s))
    \<and> (Depth s \<le> n \<longrightarrow> PickN n s = (Inl (scriptError ErrInvalidStackOperation), s)
            \<and> RollN n s = (Inl (scriptError ErrInvalidStackOperation), s))
    \<and> (Depth s < 2 \<longrightarrow> fst (Tuck s) = Inl (scriptError ErrInvalidStackOperation))"
proof -
  obtain k where k: "nat n = Suc k" using assms by (cases "nat n") auto
  have drop: "fst (DropN n s) = Inl (scriptError ErrInvalidStackOperation)" if "Depth s < n"
  proof -
    have "length (stk s) < Suc k" using that k by (simp add: Depth_def)
    then obtain s' where "repeatM (Suc k) PopByteArray s = (Inl (scriptError ErrInvalidStackOperation), s')"
      using es.nip0_underflow [of s "Suc k"] by (auto simp: PopByteArray_def)
    then have "bindM (repeatM (Suc k) PopByteArray) (\<lambda>_. returnM ()) s
        = (Inl (scriptError ErrInvalidStackOperation), s')"
      by (rule bindM_Inl)
    then show ?thesis using assms k by (simp add: DropN_def del: repeatM.simps)
  qed
  have tuck: "fst (Tuck s) = Inl (scriptError ErrInvalidStackOperation)" if "Depth s < 2"
  proof (cases "stk s" rule: rev_cases)
    case Nil
    then show ?thesis unfolding Tuck_def by (subst bindM_Inl [OF PopByteArray_empty]) simp_all
  next
    case (snoc xs x)
    with that have "xs = []" by (simp add: Depth_def)
    with snoc show ?thesis
      by (simp add: Tuck_def bindM_apply PopByteArray_snoc [of s "[]" x] PopByteArray_empty)
  qed
  have nip: "bindM (repeatM (nat n) (bindM (nipN m) PushByteArray)) (\<lambda>_. returnM ()) s
      = (Inl (scriptError ErrInvalidStackOperation), s)" if "Depth s \<le> m" for m
    unfolding k by (rule bindM_Inl, rule es.nip_push_underflow) (use that in \<open>simp add: Depth_def\<close>)
  have peek: "bindM (repeatM (nat n) (bindM (PeekByteArray m) PushByteArray)) (\<lambda>_. returnM ()) s
      = (Inl (scriptError ErrInvalidStackOperation), s)" if "Depth s \<le> m" for m
    unfolding k by (rule bindM_Inl, rule es.peek_push_underflow) (use that in \<open>simp add: Depth_def\<close>)
  have dup: "DupN n s = (Inl (scriptError ErrInvalidStackOperation), s)" if "Depth s < n"
    using that assms peek [of "n - 1"] by (simp add: DupN_def)
  have swap: "SwapN n s = (Inl (scriptError ErrInvalidStackOperation), s)" if "Depth s < 2 * n"
    using that assms nip [of "2 * n - 1"] by (simp add: SwapN_def)
  have over: "OverN n s = (Inl (scriptError ErrInvalidStackOperation), s)" if "Depth s < 2 * n"
    using that assms peek [of "2 * n - 1"] by (simp add: OverN_def)
  have rot: "RotN n s = (Inl (scriptError ErrInvalidStackOperation), s)" if "Depth s < 3 * n"
    using that assms nip [of "3 * n - 1"] by (simp add: RotN_def)
  have pick: "PickN n s = (Inl (scriptError ErrInvalidStackOperation), s)" if "Depth s \<le> n"
    using that PeekByteArray_range [of n s] by (simp add: PickN_def Depth_def bindM_apply)
  have roll: "RollN n s = (Inl (scriptError ErrInvalidStackOperation), s)" if "Depth s \<le> n"
    using that nipN_range [of n s] by (simp add: RollN_def Depth_def bindM_apply)
  show ?thesis using drop tuck dup swap over rot pick roll by blast
qed

theorem stack_underflow_witness:
  "RotN 2 \<lparr>stk = [[1], [2], [3]], verifyMinimalData = True\<rparr>
     = (Inl (scriptError ErrInvalidStackOperation), \<lparr>stk = [[1], [2], [3]], verifyMinimalData = True\<rparr>)"
  using stack_underflow [of 2 "\<lparr>stk = [[1], [2], [3]], verifyMinimalData = True\<rparr>"]
  by (simp add: Depth_def)

end
