(* ===== verification/Script_Builder.thy ===== *)
theory Script_Builder
  imports Script_Parse Script_Num
begin

text \<open>
  Building scripts (\<^verbatim>\<open>src/txscript/scriptbuilder.go\<close>) and recognising the standard ones
  (\<^verbatim>\<open>src/txscript/standard.go\<close>).

  A builder is the script built so far and the first error; its methods return the builder they
  change.  An address enters only through the bytes of its \<^verbatim>\<open>ScriptAddress\<close>.
\<close>

unbundle bit_operations_syntax

section \<open>The builder\<close>

abbreviation (input) OP_DATA_1 :: byte where "OP_DATA_1 \<equiv> 0x01"

definition MaxScriptSize :: nat where "MaxScriptSize = 10000"

record ScriptBuilder =
  bscript :: bytes
  berr :: "script_err option"

abbreviation ErrScriptNotCanonical :: script_err where "ErrScriptNotCanonical \<equiv> PlainError"

definition NewScriptBuilder :: ScriptBuilder where
  "NewScriptBuilder = \<lparr>bscript = [], berr = None\<rparr>"

definition AddOps :: "bytes \<Rightarrow> ScriptBuilder \<Rightarrow> ScriptBuilder" where
  "AddOps opcodes b =
     (if berr b \<noteq> None then b
      else if length (bscript b) + length opcodes > MaxScriptSize
      then b\<lparr>berr := Some ErrScriptNotCanonical\<rparr>
      else b\<lparr>bscript := bscript b @ opcodes\<rparr>)"

definition AddOp :: "byte \<Rightarrow> ScriptBuilder \<Rightarrow> ScriptBuilder" where
  "AddOp op b =
     (if berr b \<noteq> None then b
      else if length (bscript b) + 1 > MaxScriptSize then b\<lparr>berr := Some ErrScriptNotCanonical\<rparr>
      else b\<lparr>bscript := bscript b @ [op]\<rparr>)"

definition canonicalDataSize :: "bytes \<Rightarrow> nat" where
  "canonicalDataSize d =
     (let dataLen = length d in
      if dataLen = 0 then 1
      else if dataLen = 1 \<and> d ! 0 \<le> 16 then 1
      else if dataLen = 1 \<and> d ! 0 = 0x81 then 1
      else if dataLen < unat OP_PUSHDATA1 then 1 + dataLen
      else if dataLen \<le> 0xff then 2 + dataLen
      else if dataLen \<le> 0xffff then 3 + dataLen
      else 5 + dataLen)"

definition addData :: "bytes \<Rightarrow> ScriptBuilder \<Rightarrow> ScriptBuilder" where
  "addData d b =
     (let dataLen = length d; append = (\<lambda>bs. b\<lparr>bscript := bscript b @ bs\<rparr>) in
      if dataLen = 0 \<or> dataLen = 1 \<and> d ! 0 = 0 then append [OP_0]
      else if dataLen = 1 \<and> d ! 0 \<le> 16 then append [(OP_1 - 1) + d ! 0]
      else if dataLen = 1 \<and> d ! 0 = 0x81 then append [OP_1NEGATE]
      else if dataLen < unat OP_PUSHDATA1 then append ([(OP_DATA_1 - 1) + of_nat dataLen] @ d)
      else if dataLen \<le> 0xff then append ([OP_PUSHDATA1, of_nat dataLen] @ d)
      else if dataLen \<le> 0xffff then append ([OP_PUSHDATA2] @ le_bytes 2 dataLen @ d)
      else append ([OP_PUSHDATA4] @ le_bytes 4 dataLen @ d))"

definition AddFullData :: "bytes \<Rightarrow> ScriptBuilder \<Rightarrow> ScriptBuilder" where
  "AddFullData d b = (if berr b \<noteq> None then b else addData d b)"

definition AddData :: "bytes \<Rightarrow> ScriptBuilder \<Rightarrow> ScriptBuilder" where
  "AddData d b =
     (if berr b \<noteq> None then b
      else if length (bscript b) + canonicalDataSize d > MaxScriptSize
      then b\<lparr>berr := Some ErrScriptNotCanonical\<rparr>
      else if length d > MaxScriptElementSize then b\<lparr>berr := Some ErrScriptNotCanonical\<rparr>
      else addData d b)"

definition AddInt64 :: "int \<Rightarrow> ScriptBuilder \<Rightarrow> script_err + ScriptBuilder" where
  "AddInt64 val b =
     (if berr b \<noteq> None then Inr b
      else if length (bscript b) + 1 > MaxScriptSize then Inr (b\<lparr>berr := Some ErrScriptNotCanonical\<rparr>)
      else if val = 0 then Inr (b\<lparr>bscript := bscript b @ [OP_0]\<rparr>)
      else if val = - 1 \<or> (val \<ge> 1 \<and> val \<le> 16) then
        Inr (b\<lparr>bscript := bscript b @ [(OP_1 - 1) + of_int val]\<rparr>)
      else bindE (scriptNum_Bytes val) (\<lambda>bs. Inr (AddData bs b)))"

definition Builder_Reset :: "ScriptBuilder \<Rightarrow> ScriptBuilder" where
  "Builder_Reset b = b\<lparr>bscript := [], berr := None\<rparr>"

definition Builder_Script :: "ScriptBuilder \<Rightarrow> script_err + bytes" where
  "Builder_Script b = (case berr b of Some e \<Rightarrow> Inl e | None \<Rightarrow> Inr (bscript b))"

section \<open>Standard scripts\<close>

definition payToPubKeyHashScript :: "bytes \<Rightarrow> script_err + bytes" where
  "payToPubKeyHashScript pubKeyHash = Builder_Script (AddOp OP_CHECKSIG (AddOp OP_EQUALVERIFY
     (AddData pubKeyHash (AddOp OP_HASH160 (AddOp OP_DUP NewScriptBuilder)))))"

definition payToWitnessPubKeyHashScript :: "bytes \<Rightarrow> script_err + bytes" where
  "payToWitnessPubKeyHashScript pubKeyHash = Builder_Script (AddData pubKeyHash (AddOp OP_0 NewScriptBuilder))"

definition payToScriptHashScript :: "bytes \<Rightarrow> script_err + bytes" where
  "payToScriptHashScript scriptHash = Builder_Script (AddOp OP_EQUAL
     (AddData scriptHash (AddOp OP_HASH160 NewScriptBuilder)))"

definition payToWitnessScriptHashScript :: "bytes \<Rightarrow> script_err + bytes" where
  "payToWitnessScriptHashScript scriptHash = Builder_Script (AddData scriptHash (AddOp OP_0 NewScriptBuilder))"

definition payToPubKeyScript :: "bytes \<Rightarrow> script_err + bytes" where
  "payToPubKeyScript serializedPubKey = Builder_Script (AddOp OP_CHECKSIG (AddData serializedPubKey NewScriptBuilder))"

definition MaxDataCarrierSize :: nat where "MaxDataCarrierSize = 80"

definition NullDataScript :: "bytes \<Rightarrow> script_err + bytes" where
  "NullDataScript d =
     (if length d > MaxDataCarrierSize then Inl (scriptError ErrTooMuchNullData)
      else Builder_Script (AddData d (AddOp OP_RETURN NewScriptBuilder)))"

definition MultiSigScript :: "bytes list \<Rightarrow> int \<Rightarrow> script_err + bytes" where
  "MultiSigScript pubkeys nrequired =
     (if int (length pubkeys) < nrequired then Inl (scriptError ErrTooManyRequiredSigs)
      else bindE (AddInt64 nrequired NewScriptBuilder) (\<lambda>builder.
        let builder = fold AddData pubkeys builder in
        bindE (AddInt64 (int (length pubkeys)) builder) (\<lambda>builder.
        Builder_Script (AddOp OP_CHECKMULTISIG builder))))"

datatype ScriptClass = NonStandardTy | PubKeyTy | PubKeyHashTy | WitnessV0PubKeyHashTy
  | ScriptHashTy | WitnessV0ScriptHashTy | MultiSigTy | NullDataTy

definition scriptClassToName :: "string list" where
  "scriptClassToName = [''nonstandard'', ''pubkey'', ''pubkeyhash'', ''witness_v0_keyhash'',
     ''scripthash'', ''witness_v0_scripthash'', ''multisig'', ''nulldata'']"

text \<open>A \<^verbatim>\<open>ScriptClass\<close> is a byte of the code, so its text is asked for any byte.\<close>

definition ScriptClass_String :: "byte \<Rightarrow> script_err + string" where
  "ScriptClass_String t =
     (if unat t > length scriptClassToName then Inr ''Invalid''
      else indexE scriptClassToName (unat t))"

definition isPubkey :: "parsedOpcode list \<Rightarrow> bool" where
  "isPubkey pops = (length pops = 2 \<and> (length (data (pops ! 0)) = 33 \<or> length (data (pops ! 0)) = 65)
     \<and> pop_value (pops ! 1) = OP_CHECKSIG)"

definition isPubkeyHash :: "parsedOpcode list \<Rightarrow> bool" where
  "isPubkeyHash pops = (length pops = 5 \<and> pop_value (pops ! 0) = OP_DUP \<and> pop_value (pops ! 1) = OP_HASH160
     \<and> pop_value (pops ! 2) = OP_DATA_20 \<and> pop_value (pops ! 3) = OP_EQUALVERIFY
     \<and> pop_value (pops ! 4) = OP_CHECKSIG)"

definition isMultiSig :: "parsedOpcode list \<Rightarrow> bool" where
  "isMultiSig pops =
     (let l = length pops in
      if l < 4 then False
      else if \<not> isSmallInt (opcode (pops ! 0)) then False
      else if \<not> isSmallInt (opcode (pops ! (l - 2))) then False
      else if pop_value (pops ! (l - 1)) \<noteq> OP_CHECKMULTISIG then False
      else if int l - 2 - 1 \<noteq> asSmallInt (opcode (pops ! (l - 2))) then False
      else list_all (\<lambda>pop. length (data pop) = 33 \<or> length (data pop) = 65) (drop 1 (take (l - 2) pops)))"

definition isNullData :: "parsedOpcode list \<Rightarrow> bool" where
  "isNullData pops =
     (let l = length pops in
      if l = 1 \<and> pop_value (pops ! 0) = OP_RETURN then True
      else l = 2 \<and> pop_value (pops ! 0) = OP_RETURN
        \<and> (isSmallInt (opcode (pops ! 1)) \<or> pop_value (pops ! 1) \<le> OP_PUSHDATA4)
        \<and> length (data (pops ! 1)) \<le> MaxDataCarrierSize)"

definition typeOfScript :: "parsedOpcode list \<Rightarrow> ScriptClass" where
  "typeOfScript pops =
     (if isPubkey pops then PubKeyTy
      else if isPubkeyHash pops then PubKeyHashTy
      else if isWitnessPubKeyHash pops then WitnessV0PubKeyHashTy
      else if isScriptHash pops then ScriptHashTy
      else if isWitnessScriptHash pops then WitnessV0ScriptHashTy
      else if isMultiSig pops then MultiSigTy
      else if isNullData pops then NullDataTy
      else NonStandardTy)"

definition GetScriptClass :: "bytes \<Rightarrow> ScriptClass" where
  "GetScriptClass script =
     (case parseScript script of (pops, Some e) \<Rightarrow> NonStandardTy | (pops, None) \<Rightarrow> typeOfScript pops)"

definition expectedInputs :: "parsedOpcode list \<Rightarrow> ScriptClass \<Rightarrow> int" where
  "expectedInputs pops class =
     (case class of PubKeyTy \<Rightarrow> 1 | PubKeyHashTy \<Rightarrow> 2 | WitnessV0PubKeyHashTy \<Rightarrow> 2 | ScriptHashTy \<Rightarrow> 1
      | WitnessV0ScriptHashTy \<Rightarrow> 1 | MultiSigTy \<Rightarrow> asSmallInt (opcode (pops ! 0)) + 1
      | _ \<Rightarrow> - 1)"

definition CalcMultiSigStats :: "bytes \<Rightarrow> script_err + int \<times> int" where
  "CalcMultiSigStats script =
     (case parseScript script of (pops, Some e) \<Rightarrow> Inl e
      | (pops, None) \<Rightarrow>
          if length pops < 4 then Inl (scriptError ErrNotMultisigScript)
          else Inr (asSmallInt (opcode (pops ! (length pops - 2))), asSmallInt (opcode (pops ! 0))))"

text \<open>The data of an opcode is set, so not \<^verbatim>\<open>nil\<close>, exactly for the opcodes that carry data.\<close>

definition PushedData :: "bytes \<Rightarrow> script_err + bytes list" where
  "PushedData script =
     (case parseScript script of (pops, Some e) \<Rightarrow> Inl e
      | (pops, None) \<Rightarrow> Inr (concat (map (\<lambda>pop.
          if op_length (opcode pop) \<noteq> 1 then [data pop]
          else if pop_value pop = OP_0 then [[]] else []) pops)))"

section \<open>Script information\<close>

record ScriptInfo =
  PkScriptClass :: ScriptClass
  NumInputs :: int
  ExpectedInputs :: int
  SigOps :: int

definition addInputs :: "int \<Rightarrow> int \<Rightarrow> int" where
  "addInputs expected shInputs = (if shInputs = - 1 then - 1 else expected + shInputs)"

definition parseE :: "bytes \<Rightarrow> script_err + parsedOpcode list" where
  "parseE script = (case parseScript script of (pops, Some e) \<Rightarrow> Inl e | (pops, None) \<Rightarrow> Inr pops)"

definition CalcScriptInfo :: "bytes \<Rightarrow> bytes \<Rightarrow> bytes list \<Rightarrow> bool \<Rightarrow> bool \<Rightarrow> script_err + ScriptInfo" where
  "CalcScriptInfo sigScript pkScript witness bip16 segwit =
     bindE (parseE sigScript) (\<lambda>sigPops. bindE (parseE pkScript) (\<lambda>pkPops.
     let cls = typeOfScript pkPops in
     if \<not> isPushOnly sigPops then Inl (scriptError ErrNotPushOnly)
     else let expected = expectedInputs pkPops cls in
     if cls = ScriptHashTy \<and> bip16 \<and> \<not> segwit then
       bindE (if sigPops = [] then Inl GoPanic else Inr (data (last sigPops))) (\<lambda>script.
       bindE (parseE script) (\<lambda>shPops.
       Inr \<lparr>PkScriptClass = cls, NumInputs = int (length sigPops),
            ExpectedInputs = addInputs expected (expectedInputs shPops (typeOfScript shPops)),
            SigOps = getSigOpCount shPops True\<rparr>))
     else if cls = WitnessV0PubKeyHashTy \<and> segwit then
       bindE (GetWitnessSigOpCount sigScript pkScript witness) (\<lambda>n.
       Inr \<lparr>PkScriptClass = cls, NumInputs = int (length witness), ExpectedInputs = expected, SigOps = n\<rparr>)
     else if cls = ScriptHashTy then
       bindE (sliceE sigScript 1 (length sigScript)) (\<lambda>inner.
       if IsWitnessProgram inner \<and> bip16 \<and> segwit then
         let inPops = fst (parseScript inner) in
         bindE (GetWitnessSigOpCount sigScript pkScript witness) (\<lambda>n.
         Inr \<lparr>PkScriptClass = cls, NumInputs = int (length witness) + int (length sigPops),
              ExpectedInputs = addInputs expected (expectedInputs inPops (typeOfScript inPops)),
              SigOps = n\<rparr>)
       else Inr \<lparr>PkScriptClass = cls, NumInputs = int (length sigPops), ExpectedInputs = expected,
                 SigOps = getSigOpCount pkPops True\<rparr>)
     else if cls = WitnessV0ScriptHashTy \<and> segwit then
       bindE (if witness = [] then Inl GoPanic else Inr (last witness)) (\<lambda>witnessScript.
       let wPops = fst (parseScript witnessScript) in
       bindE (GetWitnessSigOpCount sigScript pkScript witness) (\<lambda>n.
       Inr \<lparr>PkScriptClass = cls, NumInputs = int (length witness),
            ExpectedInputs = addInputs expected (expectedInputs wPops (typeOfScript wPops)),
            SigOps = n\<rparr>))
     else Inr \<lparr>PkScriptClass = cls, NumInputs = int (length sigPops), ExpectedInputs = expected,
               SigOps = getSigOpCount pkPops True\<rparr>))"

section \<open>What the builder writes\<close>

text \<open>The bytes that the handler of a push opcode pushes.\<close>

definition pushedValue :: "parsedOpcode \<Rightarrow> bytes" where
  "pushedValue pop =
     (let v = pop_value pop in
      if v = OP_0 then []
      else if v \<ge> OP_1 \<and> v \<le> OP_16 then [v - (OP_1 - 1)]
      else if v = OP_1NEGATE then [0x81] else data pop)"

lemma unparse_append:
  "unparseScript ps = Inr s \<Longrightarrow> unparseScript qs = Inr t \<Longrightarrow> unparseScript (ps @ qs) = Inr (s @ t)"
  by (induction ps arbitrary: s) (auto split: sum.splits)

lemma parse_append:
  "parseScript s = (ps, None) \<Longrightarrow> parseScript t = (qs, None) \<Longrightarrow> parseScript (s @ t) = (ps @ qs, None)"
  by (simp add: parse_iff unparse_append)

definition pushBytes :: "bytes \<Rightarrow> bytes" where
  "pushBytes d = bscript (addData d NewScriptBuilder)"

lemma addData_pushBytes: "addData d b = b\<lparr>bscript := bscript b @ pushBytes d\<rparr>"
  by (simp add: addData_def pushBytes_def NewScriptBuilder_def Let_def)

definition pushPop :: "bytes \<Rightarrow> parsedOpcode" where
  "pushPop d = fst (parseScript (pushBytes d)) ! 0"

lemma parse_one: "table_length (unat v) = 1 \<Longrightarrow>
    parseScript [v] = ([\<lparr>opcode = \<lparr>op_value = v, op_length = 1\<rparr>, data = []\<rparr>], None)"
  using parse_single [of v "[]"] by (simp add: appendPop_def opcodeArray_nth del: parseScript.simps(2))

lemma push_parse:
  assumes "length d < 2 ^ 32"
  shows "\<exists>p. parseScript (pushBytes d) = ([p], None) \<and> pushedValue p = (if d = [0] then [] else d)
     \<and> (pop_value p > OP_PUSHDATA4 \<or> checkMinimalDataPush p = Inr ())
     \<and> length (pushBytes d) = canonicalDataSize d"
proof -
  consider "d = [] \<or> d = [0]" | x where "d = [x]" "x \<noteq> 0" "x \<le> 16" | "d = [0x81]"
    | "\<not> (length d = 1 \<and> (d ! 0 \<le> 16 \<or> d ! 0 = 0x81))" "0 < length d" "length d < 76"
    | "76 \<le> length d" "length d \<le> 255"
    | "255 < length d" "length d \<le> 65535" | "65535 < length d"
    by (cases d; cases "tl d") (auto simp: linorder_not_less, fastforce+)
  then show ?thesis
  proof cases
    case 1
    then have "pushBytes d = [OP_0]" by (auto simp: pushBytes_def addData_def NewScriptBuilder_def)
    with 1 show ?thesis using parse_one [of OP_0]
      by (auto simp: table_length_def pushedValue_def checkMinimalDataPush_def canonicalDataSize_def
          simp del: parseScript.simps(2))
  next
    case (2 x)
    then have x: "unat x \<le> 16" "unat x \<noteq> 0" by (simp_all add: word_le_nat_alt unat_eq_0)
    then have u: "unat (0x50 + x) = 80 + unat x" by (simp add: unat_word_ariths)
    then have "\<not> 0x50 + x = 0" "0x51 \<le> 0x50 + x" "0x50 + x \<le> 0x60" "0x4e < 0x50 + x"
      using x by (simp_all add: word_le_nat_alt word_less_nat_alt unat_eq_0 [symmetric])
    moreover have "pushBytes d = [0x50 + x]"
      using 2 by (simp add: pushBytes_def addData_def NewScriptBuilder_def Let_def)
    ultimately show ?thesis using 2 x u parse_one [of "0x50 + x"]
      by (simp add: table_length_def pushedValue_def canonicalDataSize_def Let_def del: parseScript.simps(2))
  next
    case 3
    then have "pushBytes d = [OP_1NEGATE]" by (simp add: pushBytes_def addData_def NewScriptBuilder_def Let_def)
    with 3 show ?thesis using parse_one [of OP_1NEGATE]
      by (simp add: table_length_def pushedValue_def canonicalDataSize_def Let_def del: parseScript.simps(2))
  next
    case 4
    define v where "v = (of_nat (length d) :: byte)"
    have u: "unat v = length d" using 4 by (simp add: v_def unat_of_nat_byte)
    then have vs: "v \<noteq> 0" "\<not> 0x51 \<le> v" "v \<noteq> 0x4f"
      using 4 by (auto simp: word_le_nat_alt unat_eq_0 [symmetric])
    have "pushBytes d = v # d"
      using 4 by (auto simp: pushBytes_def addData_def NewScriptBuilder_def Let_def v_def)
    moreover have "parseScript (v # d @ []) = ([\<lparr>opcode = opcodeArray ! unat v, data = d\<rparr>], None)"
    proof -
      have "0 < unat v" "unat v \<le> 75" "length d = unat v" using u 4(2,3) by simp_all
      from parse_push [OF this, of "[]"] show ?thesis by (simp only: parseScript.simps(1) appendPop_def fst_conv snd_conv)
    qed
    moreover define p where "p = \<lparr>opcode = opcodeArray ! unat v, data = d\<rparr>"
    moreover have p: "pop_value p = v" "data p = d" by (simp_all add: p_def opcodeArray_nth)
    moreover have "checkMinimalDataPush p = Inr ()"
    proof -
      have "hd d = d ! 0" "d \<noteq> []" using 4 by (simp_all add: hd_conv_nth)
      then show ?thesis using 4 u by (auto simp: checkMinimalDataPush_def Let_def p)
    qed
    moreover have "d \<noteq> [0]" "canonicalDataSize d = Suc (length d)"
      using 4 by (auto simp: canonicalDataSize_def Let_def)
    ultimately show ?thesis using vs
      by (simp add: pushedValue_def Let_def del: parseScript.simps(2))
  next
    case 5
    then have ne: "d \<noteq> []" "d \<noteq> [0]" by auto
    with 5 have "pushBytes d = [OP_PUSHDATA1, of_nat (length d)] @ d"
      by (simp add: pushBytes_def addData_def NewScriptBuilder_def Let_def)
    with 5 ne show ?thesis
      by (auto simp: opcodeArray_at table_length_def appendPop_def pushedValue_def canonicalDataSize_def
        checkMinimalDataPush_def Let_def unat_of_nat_byte)
  next
    case 6
    then have ne: "d \<noteq> []" "d \<noteq> [0]" by auto
    with 6 have "pushBytes d = OP_PUSHDATA2 # le_bytes 2 (length d) @ d"
      by (simp add: pushBytes_def addData_def NewScriptBuilder_def Let_def)
    with 6 ne show ?thesis
      by (auto simp: opcodeArray_at table_length_def appendPop_def pushedValue_def canonicalDataSize_def
        checkMinimalDataPush_def Let_def le_nat_le_bytes_less)
  next
    case 7
    then have ne: "d \<noteq> []" "d \<noteq> [0]" by auto
    with 7 have "pushBytes d = OP_PUSHDATA4 # le_bytes 4 (length d) @ d"
      by (simp add: pushBytes_def addData_def NewScriptBuilder_def Let_def)
    with 7 ne assms show ?thesis
      by (auto simp: opcodeArray_at table_length_def appendPop_def pushedValue_def canonicalDataSize_def
        checkMinimalDataPush_def Let_def le_nat_le_bytes_less)
  qed
qed

text \<open>
  Adding data to a builder whose script parses appends one opcode that pushes the data with the
  shortest encoding the engine accepts, and the script grows by the announced size.  The one
  exception is the single byte 0, for which the builder writes \<^verbatim>\<open>OP_0\<close>, which pushes the
  empty array.
\<close>

theorem builder_push_roundtrip:
  assumes "parseScript (bscript b) = (pops, None)" "berr b = None" "length d \<le> MaxScriptElementSize"
    "length (bscript b) + canonicalDataSize d \<le> MaxScriptSize"
  shows "\<exists>p. berr (AddData d b) = None \<and> parseScript (bscript (AddData d b)) = (pops @ [p], None) \<and>
    pushedValue p = (if d = [0] then [] else d) \<and>
    (pop_value p > OP_PUSHDATA4 \<or> checkMinimalDataPush p = Inr ()) \<and>
    length (bscript (AddData d b)) = length (bscript b) + canonicalDataSize d"
proof -
  have "AddData d b = b\<lparr>bscript := bscript b @ pushBytes d\<rparr>"
    using assms by (simp add: AddData_def addData_pushBytes)
  moreover obtain p where "parseScript (pushBytes d) = ([p], None)" "pushedValue p = (if d = [0] then [] else d)"
     "pop_value p > OP_PUSHDATA4 \<or> checkMinimalDataPush p = Inr ()" "length (pushBytes d) = canonicalDataSize d"
    using push_parse [of d] assms(3) by (auto simp: MaxScriptElementSize_def)
  ultimately show ?thesis
    using parse_append [OF assms(1)] assms(2) by auto
qed

theorem builder_push_roundtrip_witness:
  "\<exists>p. parseScript (bscript (AddData [1, 2, 3] NewScriptBuilder)) = ([p], None) \<and> pushedValue p = [1, 2, 3]"
  using builder_push_roundtrip [of NewScriptBuilder "[]" "[1, 2, 3]"]
  by (auto simp: NewScriptBuilder_def MaxScriptElementSize_def MaxScriptSize_def canonicalDataSize_def)

section \<open>The standard scripts\<close>

lemma AddData_ok:
  "berr b = None \<Longrightarrow> length (bscript b) + canonicalDataSize d \<le> MaxScriptSize \<Longrightarrow> length d \<le> 520
   \<Longrightarrow> AddData d b = b\<lparr>bscript := bscript b @ pushBytes d\<rparr>"
  by (simp add: AddData_def addData_pushBytes MaxScriptElementSize_def)

lemma AddOp_ok:
  "berr b = None \<Longrightarrow> length (bscript b) < MaxScriptSize \<Longrightarrow> AddOp v b = b\<lparr>bscript := bscript b @ [v]\<rparr>"
  by (simp add: AddOp_def)

lemma direct_push:
  assumes "1 < length d" "length d < 76"
  shows "pushBytes d = of_nat (length d) # d" "canonicalDataSize d = Suc (length d)"
  using assms by (auto simp: pushBytes_def addData_def NewScriptBuilder_def canonicalDataSize_def Let_def)

lemma parse_direct:
  assumes "0 < length d" "length d < 76"
  shows "parseScript (of_nat (length d) # d @ rest) =
    appendPop \<lparr>opcode = \<lparr>op_value = of_nat (length d), op_length = int (length d) + 1\<rparr>, data = d\<rparr> (parseScript rest)"
proof -
  have u: "unat (of_nat (length d) :: byte) = length d" using assms by (simp add: unat_of_nat_byte)
  then show ?thesis
    using parse_push [of "of_nat (length d)" d rest] assms opcodeArray_at [of "length d"]
    by (simp add: table_length_def del: parseScript.simps(2))
qed

lemma parse_op: "table_length (unat v) = 1 \<Longrightarrow>
    parseScript (v # rest) = appendPop \<lparr>opcode = \<lparr>op_value = v, op_length = 1\<rparr>, data = []\<rparr> (parseScript rest)"
  using parse_single [of v rest] by (simp add: opcodeArray_nth del: parseScript.simps(2))

lemmas builder_simps = NewScriptBuilder_def AddData_ok AddOp_ok direct_push MaxScriptSize_def Builder_Script_def

lemmas parse_simps = parse_op parse_direct table_length_def appendPop_def

text \<open>
  The scripts that the builder makes for the five standard payments parse and are
  classified as the payment they were made for.
\<close>

theorem standard_scripts_recognised:
  assumes "length h20 = 20" "length h32 = 32" "length key = 33 \<or> length key = 65"
  shows "(\<exists>s. payToPubKeyHashScript h20 = Inr s \<and> GetScriptClass s = PubKeyHashTy) \<and>
    (\<exists>s. payToScriptHashScript h20 = Inr s \<and> GetScriptClass s = ScriptHashTy) \<and>
    (\<exists>s. payToWitnessPubKeyHashScript h20 = Inr s \<and> GetScriptClass s = WitnessV0PubKeyHashTy) \<and>
    (\<exists>s. payToWitnessScriptHashScript h32 = Inr s \<and> GetScriptClass s = WitnessV0ScriptHashTy) \<and>
    (\<exists>s. payToPubKeyScript key = Inr s \<and> GetScriptClass s = PubKeyTy)"
proof (intro conjI)
  show "\<exists>s. payToPubKeyHashScript h20 = Inr s \<and> GetScriptClass s = PubKeyHashTy"
    using assms parse_direct [of h20 "[OP_EQUALVERIFY, OP_CHECKSIG]"]
    by (simp add: payToPubKeyHashScript_def builder_simps GetScriptClass_def parse_simps typeOfScript_def
      isPubkey_def isPubkeyHash_def del: parseScript.simps(2))
next
  show "\<exists>s. payToScriptHashScript h20 = Inr s \<and> GetScriptClass s = ScriptHashTy"
    using assms parse_direct [of h20 "[OP_EQUAL]"]
    by (simp add: payToScriptHashScript_def builder_simps GetScriptClass_def parse_simps typeOfScript_def
      isPubkey_def isPubkeyHash_def isWitnessPubKeyHash_def isScriptHash_def del: parseScript.simps(2))
next
  show "\<exists>s. payToWitnessPubKeyHashScript h20 = Inr s \<and> GetScriptClass s = WitnessV0PubKeyHashTy"
    using assms parse_direct [of h20 "[]"]
    by (simp add: payToWitnessPubKeyHashScript_def builder_simps GetScriptClass_def parse_simps typeOfScript_def
      isPubkey_def isPubkeyHash_def isWitnessPubKeyHash_def del: parseScript.simps(2))
next
  show "\<exists>s. payToWitnessScriptHashScript h32 = Inr s \<and> GetScriptClass s = WitnessV0ScriptHashTy"
    using assms parse_direct [of h32 "[]"]
    by (simp add: payToWitnessScriptHashScript_def builder_simps GetScriptClass_def parse_simps typeOfScript_def
      isPubkey_def isPubkeyHash_def isWitnessPubKeyHash_def isScriptHash_def isWitnessScriptHash_def del: parseScript.simps(2))
next
  have "\<exists>s. payToPubKeyScript key = Inr s \<and> GetScriptClass s = PubKeyTy" if "length key = n" "n = 33 \<or> n = 65" for n
    using that parse_direct [of key "[OP_CHECKSIG]"]
    by (auto simp: payToPubKeyScript_def builder_simps GetScriptClass_def parse_simps typeOfScript_def
      isPubkey_def simp del: parseScript.simps(2))
  then show "\<exists>s. payToPubKeyScript key = Inr s \<and> GetScriptClass s = PubKeyTy" using assms by blast
qed


theorem standard_scripts_recognised_witness:
  "\<exists>s. payToPubKeyHashScript (replicate 20 7) = Inr s \<and> GetScriptClass s = PubKeyHashTy"
  using standard_scripts_recognised [of "replicate 20 7" "replicate 32 8" "replicate 33 2"] by simp

definition keyPop :: "bytes \<Rightarrow> parsedOpcode" where
  "keyPop d = \<lparr>opcode = \<lparr>op_value = of_nat (length d), op_length = int (length d) + 1\<rparr>, data = d\<rparr>"

lemma parse_keys:
  "list_all (\<lambda>d. length d = 33 \<or> length d = 65) keys \<Longrightarrow>
   parseScript (concat (map (\<lambda>d. of_nat (length d) # d) keys)) = (map keyPop keys, None)"
proof (induction keys)
  case (Cons d keys)
  then have "0 < length d" "length d < 76" by auto
  with Cons show ?case
    using parse_direct [of d "concat (map (\<lambda>d. of_nat (length d) # d) keys)"]
    by (simp add: appendPop_def keyPop_def del: parseScript.simps(2))
qed simp

lemma fold_AddData_keys:
  assumes "list_all (\<lambda>d. length d = 33 \<or> length d = 65) keys" "berr b = None"
    "length (bscript b) + 66 * length keys \<le> MaxScriptSize"
  shows "fold AddData keys b = b\<lparr>bscript := bscript b @ concat (map (\<lambda>d. of_nat (length d) # d) keys)\<rparr>"
  using assms
proof (induction keys arbitrary: b)
  case (Cons d keys)
  have d: "1 < length d" "length d < 76" "length d \<le> 65" using Cons.prems(1) by auto
  then have "AddData d b = b\<lparr>bscript := bscript b @ of_nat (length d) # d\<rparr>"
    using AddData_ok [of b d] Cons.prems by (simp add: direct_push)
  with Cons d show ?case by simp
qed simp

definition smallOp :: "nat \<Rightarrow> byte" where
  "smallOp n = (if n = 0 then 0 else 0x50 + of_nat n)"

lemma smallOp:
  assumes "n \<le> 16"
  shows "table_length (unat (smallOp n)) = 1" "isSmallInt \<lparr>op_value = smallOp n, op_length = l\<rparr>"
    "asSmallInt \<lparr>op_value = smallOp n, op_length = l\<rparr> = int n"
proof -
  have u: "unat (0x50 + of_nat n :: byte) = 80 + n"
    using assms by (simp add: unat_word_ariths unat_of_nat_byte)
  then show "table_length (unat (smallOp n)) = 1" using assms by (simp add: smallOp_def table_length_def)
  have "(0x51 :: byte) \<le> 0x50 + of_nat n" "0x50 + of_nat n \<le> (0x60 :: byte)" "0x50 + of_nat n \<noteq> (0 :: byte)" if "0 < n"
    using u that assms by (simp_all add: word_le_nat_alt unat_eq_0 [symmetric])
  then show "isSmallInt \<lparr>op_value = smallOp n, op_length = l\<rparr>"
    "asSmallInt \<lparr>op_value = smallOp n, op_length = l\<rparr> = int n"
    using assms by (auto simp: isSmallInt_def asSmallInt_def smallOp_def unat_of_nat_byte uint_nat simp del: of_nat_unat)
qed

lemma AddInt64_small:
  "berr b = None \<Longrightarrow> length (bscript b) < MaxScriptSize \<Longrightarrow> n \<le> 16 \<Longrightarrow>
   AddInt64 (int n) b = Inr (b\<lparr>bscript := bscript b @ [smallOp n]\<rparr>)"
  by (auto simp: AddInt64_def smallOp_def)

text \<open>
  A multi-signature script made for one to sixteen public keys is classified as such, and
  its statistics give back the number of keys and the number of required signatures.
\<close>

theorem multisig_script_stats:
  assumes "list_all (\<lambda>d. length d = 33 \<or> length d = 65) keys" "1 \<le> length keys" "length keys \<le> 16" "m \<le> length keys"
  shows "\<exists>s. MultiSigScript keys (int m) = Inr s \<and> GetScriptClass s = MultiSigTy \<and>
    CalcMultiSigStats s = Inr (int (length keys), int m)"
proof -
  have ne: "keys \<noteq> []" using assms(2) by auto
  define body where "body = concat (map (\<lambda>d. of_nat (length d) # d) keys)"
  define n where "n = length keys"
  have lb: "length body \<le> 66 * length keys"
    using assms(1) unfolding body_def by (induction keys) auto
  define s where "s = smallOp m # body @ [smallOp n, OP_CHECKMULTISIG]"
  have "MultiSigScript keys (int m) = Inr s"
    using assms lb fold_AddData_keys [OF assms(1), of "\<lparr>bscript = [smallOp m], berr = None\<rparr>"]
    by (simp add: MultiSigScript_def NewScriptBuilder_def AddInt64_small MaxScriptSize_def AddOp_ok
      Builder_Script_def s_def n_def body_def [symmetric])
  moreover define pops where "pops = \<lparr>opcode = \<lparr>op_value = smallOp m, op_length = 1\<rparr>, data = []\<rparr> #
      map keyPop keys @ [\<lparr>opcode = \<lparr>op_value = smallOp n, op_length = 1\<rparr>, data = []\<rparr>,
        \<lparr>opcode = \<lparr>op_value = OP_CHECKMULTISIG, op_length = 1\<rparr>, data = []\<rparr>]"
  moreover have ps: "parseScript s = (pops, None)"
  proof -
    have "parseScript [smallOp n, OP_CHECKMULTISIG] = ([\<lparr>opcode = \<lparr>op_value = smallOp n, op_length = 1\<rparr>, data = []\<rparr>,
        \<lparr>opcode = \<lparr>op_value = OP_CHECKMULTISIG, op_length = 1\<rparr>, data = []\<rparr>], None)"
      using smallOp [of n] assms by (simp add: parse_op appendPop_def n_def parse_one table_length_def del: parseScript.simps(2))
    from parse_append [OF parse_keys [OF assms(1)] this] show ?thesis
      using smallOp [of m] assms by (simp add: parse_op appendPop_def s_def pops_def body_def del: parseScript.simps(2))
  qed
  moreover have len: "length pops = n + 3" by (simp add: pops_def n_def)
  moreover have nth: "pops ! (n + 1) = \<lparr>opcode = \<lparr>op_value = smallOp n, op_length = 1\<rparr>, data = []\<rparr>"
    "pops ! (n + 2) = \<lparr>opcode = \<lparr>op_value = OP_CHECKMULTISIG, op_length = 1\<rparr>, data = []\<rparr>"
    "pops ! 0 = \<lparr>opcode = \<lparr>op_value = smallOp m, op_length = 1\<rparr>, data = []\<rparr>"
    by (simp_all add: pops_def n_def nth_append)
  moreover have "drop 1 (take (n + 1) pops) = map keyPop keys" by (simp add: pops_def n_def)
  moreover have "isMultiSig pops"
  proof -
    have "drop 1 (take (length pops - 2) pops) = map keyPop keys" by (simp add: pops_def)
    moreover have "length pops - 2 = n + 1" "length pops - 1 = n + 2" using len by simp_all
    moreover have "list_all (\<lambda>pop. length (data pop) = 33 \<or> length (data pop) = 65) (map keyPop keys)"
      using assms(1) by (simp add: list_all_iff keyPop_def)
    ultimately show ?thesis
      using len nth smallOp [of m] smallOp [of n] assms ne unfolding isMultiSig_def Let_def by (simp add: n_def)
  qed
  moreover have "typeOfScript pops = MultiSigTy"
  proof -
    have "n \<ge> 1" using assms by (simp add: n_def)
    then have "\<not> isPubkey pops" "\<not> isWitnessPubKeyHash pops" "\<not> isScriptHash pops" "\<not> isWitnessScriptHash pops"
      using len by (simp_all add: isPubkey_def isWitnessPubKeyHash_def isScriptHash_def isWitnessScriptHash_def)
    moreover have "\<not> isPubkeyHash pops" using len nth(2) by (auto simp: isPubkeyHash_def)
    ultimately show ?thesis using \<open>isMultiSig pops\<close> by (simp add: typeOfScript_def)
  qed
  moreover have "CalcMultiSigStats s = Inr (int n, int m)"
    using ps len nth smallOp(3) [of m] smallOp(3) [of n] assms ne by (simp add: CalcMultiSigStats_def n_def)
  ultimately show ?thesis by (auto simp: GetScriptClass_def n_def)
qed

theorem multisig_script_stats_witness:
  "\<exists>s. MultiSigScript [replicate 33 2, replicate 33 3, replicate 65 4] 2 = Inr s \<and>
     GetScriptClass s = MultiSigTy \<and> CalcMultiSigStats s = Inr (3, 2)"
  using multisig_script_stats [of "[replicate 33 2, replicate 33 3, replicate 65 4]" 2] by simp

lemma parseE_Inr: "parseE s = Inr pops \<longleftrightarrow> parseScript s = (pops, None)"
  by (auto simp: parseE_def split: prod.splits option.splits)

lemma parse_Nil_iff: "parseScript s = (pops, None) \<Longrightarrow> pops = [] \<longleftrightarrow> s = []"
  by (cases s) (auto simp: parse_iff simp del: parseScript.simps(2))

lemma parseE_no_panic: "parseE s \<noteq> Inl GoPanic"
  using parse_malformed_ErrMalformedPush [of s] by (auto simp: parseE_def split: prod.splits option.splits)

lemma typeOf_p2sh:
  assumes "parseScript pk = (pops, None)"
  shows "typeOfScript pops = ScriptHashTy \<longleftrightarrow> IsPayToScriptHash pk"
  using assms by (auto simp: typeOfScript_def IsPayToScriptHash_def isScriptHash_def isPubkey_def isPubkeyHash_def
      isWitnessPubKeyHash_def)

text \<open>
  For scripts that parse and a signature script that only pushes data, \<^verbatim>\<open>CalcScriptInfo\<close>
  panics exactly when the output is a pay-to-script-hash output and the signature script is
  empty, or the output is a version 0 witness script output and the witness is empty.
\<close>

theorem script_info_panics_iff:
  assumes sig: "parseE sigScript = Inr sigPops" "isPushOnly sigPops" and pk: "parseE pkScript = Inr pkPops"
  shows "CalcScriptInfo sigScript pkScript witness b16 segwit = Inl GoPanic \<longleftrightarrow>
     typeOfScript pkPops = ScriptHashTy \<and> sigScript = [] \<or>
     typeOfScript pkPops = WitnessV0ScriptHashTy \<and> segwit \<and> witness = []"
proof -
  have W: "GetWitnessSigOpCount sigScript pkScript witness = Inl GoPanic \<longleftrightarrow>
      typeOfScript pkPops = ScriptHashTy \<and> sigScript = []"
    using witness_sigops_panic [of sigScript pkScript witness] pk typeOf_p2sh [of pkScript pkPops] by (simp add: parseE_Inr)
  have E: "GetWitnessSigOpCount sigScript pkScript witness = Inl e \<Longrightarrow> e = GoPanic" for e
    by (auto simp: GetWitnessSigOpCount_def split: if_splits prod.splits option.splits)
  have P: "sigPops = [] \<longleftrightarrow> sigScript = []" using sig parse_Nil_iff by (simp add: parseE_Inr)
  show ?thesis
    using sig pk W E P parseE_no_panic
    unfolding CalcScriptInfo_def Let_def
    by (cases "GetWitnessSigOpCount sigScript pkScript witness"; cases "typeOfScript pkPops")
      (auto simp: bindE_def indexE_def sliceE_def Suc_le_eq split: sum.splits)
qed

theorem script_info_panics_iff_witness:
  "CalcScriptInfo [] ([OP_HASH160, OP_DATA_20] @ replicate 20 7 @ [OP_EQUAL]) [] True False = Inl GoPanic"
proof -
  define pk where "pk = [OP_HASH160, OP_DATA_20] @ replicate 20 7 @ [OP_EQUAL]"
  have "IsPayToScriptHash pk" by (simp add: p2sh_bytes pk_def nth_append)
  then obtain pops where "parseScript pk = (pops, None)"
    by (auto simp: IsPayToScriptHash_def split: prod.splits option.splits)
  then show ?thesis
    using script_info_panics_iff [of "[]" "[]" pk pops "[]" True False] typeOf_p2sh [of pk pops]
      \<open>IsPayToScriptHash pk\<close>
    by (simp add: parseE_Inr isPushOnly_def pk_def del: parseScript.simps(2))
qed

text \<open>The name of a class is looked up one position too far: its value 8 is accepted and panics.\<close>

lemma class_name_panics_iff: "ScriptClass_String t = Inl GoPanic \<longleftrightarrow> t = 8"
proof -
  have "unat t = 8 \<longleftrightarrow> t = 8" by (simp add: word_unat_eq_iff)
  then show ?thesis by (auto simp: ScriptClass_String_def scriptClassToName_def indexE_def)
qed

end
