(* ===== verification/Script_Engine.thy ===== *)
theory Script_Engine
  imports Script_SigHash Script_Stack Script_Builder
begin

text \<open>
  The state of the script engine and the handlers of all opcodes
  (\<^verbatim>\<open>src/txscript/engine.go\<close>, \<^verbatim>\<open>src/txscript/opcode.go\<close>).

  \<^verbatim>\<open>ripemd160\<close> and \<^verbatim>\<open>ecdsa.Verify\<close> are code of other packages; they, and the choice of the
  entry that the signature cache evicts, are the fields of a parameter \<open>crypto\<close>.  A handler is a
  computation on the engine that returns nothing or an error.  A \<^verbatim>\<open>nil\<close> witness program is
  \<open>None\<close>; a \<^verbatim>\<open>nil\<close> cache is \<open>None\<close>.
\<close>

unbundle bit_operations_syntax

section \<open>Flags\<close>

type_synonym ScriptFlags = "32 word"

definition ScriptBip16 :: ScriptFlags where "ScriptBip16 = push_bit 0 1"
definition ScriptStrictMultiSig :: ScriptFlags where "ScriptStrictMultiSig = push_bit 1 1"
definition ScriptDiscourageUpgradableNops :: ScriptFlags where
  "ScriptDiscourageUpgradableNops = push_bit 2 1"
definition ScriptVerifyCheckLockTimeVerify :: ScriptFlags where
  "ScriptVerifyCheckLockTimeVerify = push_bit 3 1"
definition ScriptVerifyCheckSequenceVerify :: ScriptFlags where
  "ScriptVerifyCheckSequenceVerify = push_bit 4 1"
definition ScriptVerifyCleanStack :: ScriptFlags where "ScriptVerifyCleanStack = push_bit 5 1"
definition ScriptVerifyDERSignatures :: ScriptFlags where "ScriptVerifyDERSignatures = push_bit 6 1"
definition ScriptVerifyLowS :: ScriptFlags where "ScriptVerifyLowS = push_bit 7 1"
definition ScriptVerifyMinimalData :: ScriptFlags where "ScriptVerifyMinimalData = push_bit 8 1"
definition ScriptVerifyNullFail :: ScriptFlags where "ScriptVerifyNullFail = push_bit 9 1"
definition ScriptVerifySigPushOnly :: ScriptFlags where "ScriptVerifySigPushOnly = push_bit 10 1"
definition ScriptVerifyStrictEncoding :: ScriptFlags where "ScriptVerifyStrictEncoding = push_bit 11 1"
definition ScriptVerifyWitness :: ScriptFlags where "ScriptVerifyWitness = push_bit 12 1"
definition ScriptVerifyDiscourageUpgradeableWitnessProgram :: ScriptFlags where
  "ScriptVerifyDiscourageUpgradeableWitnessProgram = push_bit 13 1"
definition ScriptVerifyMinimalIf :: ScriptFlags where "ScriptVerifyMinimalIf = push_bit 14 1"
definition ScriptVerifyWitnessPubKeyType :: ScriptFlags where
  "ScriptVerifyWitnessPubKeyType = push_bit 15 1"

definition MaxStackSize :: int where "MaxStackSize = 1000"
definition LockTimeThreshold :: int where "LockTimeThreshold = 500000000"

section \<open>The engine\<close>

datatype condVal = OpCondFalse | OpCondTrue | OpCondSkip

record crypto =
  ripemd160 :: "bytes \<Rightarrow> bytes"
  ecdsaVerify :: "PublicKey \<Rightarrow> bytes \<Rightarrow> int \<Rightarrow> int \<Rightarrow> bool"
  evictPick :: chooser

record Engine =
  scripts :: "parsedOpcode list list"
  scriptIdx :: nat
  scriptOff :: nat
  lastCodeSep :: nat
  dstack :: stack
  astack :: stack
  vm_tx :: MsgTx
  txIdx :: int
  condStack :: "condVal list"
  numOps :: int
  flags :: ScriptFlags
  sigCache :: "SigCache option"
  hashCache :: "TxSigHashes option"
  bip16 :: bool
  savedFirstStack :: "bytes list"
  witnessVersion :: int
  witnessProgram :: "bytes option"
  inputAmount :: "64 word"

type_synonym 'a vmM = "(Engine, script_err, 'a) goM"

definition onD :: "'a stackM \<Rightarrow> 'a vmM" where
  "onD m = zoomM dstack (\<lambda>d vm. vm\<lparr>dstack := d\<rparr>) m"

definition onA :: "'a stackM \<Rightarrow> 'a vmM" where
  "onA m = zoomM astack (\<lambda>d vm. vm\<lparr>astack := d\<rparr>) m"

definition seqM :: "unit vmM \<Rightarrow> 'a vmM \<Rightarrow> 'a vmM" where
  "seqM m k = bindM m (\<lambda>_. k)"

definition hasFlag :: "Engine \<Rightarrow> ScriptFlags \<Rightarrow> bool" where
  "hasFlag vm flag = (flags vm AND flag = flag)"

definition isBranchExecuting :: "Engine \<Rightarrow> bool" where
  "isBranchExecuting vm = (if length (condStack vm) = 0 then True else last (condStack vm) = OpCondTrue)"

definition isWitnessVersionActive :: "Engine \<Rightarrow> 64 word \<Rightarrow> bool" where
  "isWitnessVersionActive vm version = (witnessProgram vm \<noteq> None \<and> of_int (witnessVersion vm) = version)"

definition subScript :: "Engine \<Rightarrow> script_err + parsedOpcode list" where
  "subScript vm = bindE (indexE (scripts vm) (scriptIdx vm)) (\<lambda>s. sliceE s (lastCodeSep vm) (length s))"

section \<open>Encoding rules\<close>

definition checkHashTypeEncoding :: "Engine \<Rightarrow> SigHashType \<Rightarrow> script_err + unit" where
  "checkHashTypeEncoding vm hashType =
     (if \<not> hasFlag vm ScriptVerifyStrictEncoding then Inr ()
      else let sigHashType = hashType AND NOT SigHashAnyOneCanPay in
        if sigHashType < SigHashAll \<or> sigHashType > SigHashSingle
        then Inl (scriptError ErrInvalidSigHashType) else Inr ())"

definition checkPubKeyEncoding :: "Engine \<Rightarrow> bytes \<Rightarrow> script_err + unit" where
  "checkPubKeyEncoding vm pubKey =
     (if hasFlag vm ScriptVerifyWitnessPubKeyType \<and> isWitnessVersionActive vm 0 \<and> \<not> IsCompressedPubKey pubKey
      then Inl (scriptError ErrWitnessPubKeyType)
      else if \<not> hasFlag vm ScriptVerifyStrictEncoding then Inr ()
      else if length pubKey = 33 \<and> (pubKey ! 0 = 0x02 \<or> pubKey ! 0 = 0x03) then Inr ()
      else if length pubKey = 65 \<and> pubKey ! 0 = 0x04 then Inr ()
      else Inl (scriptError ErrPubKeyType))"

definition checkSigInt :: "bytes \<Rightarrow> nat \<Rightarrow> nat \<Rightarrow> ErrorCode \<Rightarrow> ErrorCode \<Rightarrow> ErrorCode \<Rightarrow> script_err + unit" where
  "checkSigInt sig off len zeroErr negErr padErr =
     (if len = 0 then Inl (scriptError zeroErr)
      else bindE (indexE sig off) (\<lambda>b0.
        if b0 AND 0x80 \<noteq> 0 then Inl (scriptError negErr)
        else if len > 1 \<and> b0 = 0x00 then
          bindE (indexE sig (off + 1)) (\<lambda>b1.
            if b1 AND 0x80 = 0 then Inl (scriptError padErr) else Inr ())
        else Inr ()))"

definition checkSignatureEncoding :: "Engine \<Rightarrow> bytes \<Rightarrow> script_err + unit" where
  "checkSignatureEncoding vm sig =
     (if \<not> hasFlag vm ScriptVerifyDERSignatures \<and> \<not> hasFlag vm ScriptVerifyLowS
         \<and> \<not> hasFlag vm ScriptVerifyStrictEncoding then Inr ()
      else let sigLen = length sig in
      if sigLen < 8 then Inl (scriptError ErrSigTooShort)
      else if sigLen > 72 then Inl (scriptError ErrSigTooLong)
      else bindE (indexE sig 0) (\<lambda>b0. if b0 \<noteq> 0x30 then Inl (scriptError ErrSigInvalidSeqID)
      else bindE (indexE sig 1) (\<lambda>b1. if unat b1 \<noteq> sigLen - 2 then Inl (scriptError ErrSigInvalidDataLen)
      else bindE (indexE sig 3) (\<lambda>b3.
        let rLen = unat b3; sTypeOffset = 4 + rLen; sLenOffset = sTypeOffset + 1 in
        if sTypeOffset \<ge> sigLen then Inl (scriptError ErrSigMissingSTypeID)
        else if sLenOffset \<ge> sigLen then Inl (scriptError ErrSigMissingSLen)
        else let sOffset = sLenOffset + 1 in
        bindE (indexE sig sLenOffset) (\<lambda>bs.
        let sLen = unat bs in
        if sOffset + sLen \<noteq> sigLen then Inl (scriptError ErrSigInvalidSLen)
        else bindE (indexE sig 2) (\<lambda>b2. if b2 \<noteq> 0x02 then Inl (scriptError ErrSigInvalidRIntID)
        else bindE (checkSigInt sig 4 rLen ErrSigZeroRLen ErrSigNegativeR ErrSigTooMuchRPadding) (\<lambda>_.
        bindE (indexE sig sTypeOffset) (\<lambda>bt. if bt \<noteq> 0x02 then Inl (scriptError ErrSigInvalidSIntID)
        else bindE (checkSigInt sig sOffset sLen ErrSigZeroSLen ErrSigNegativeS ErrSigTooMuchSPadding) (\<lambda>_.
        if hasFlag vm ScriptVerifyLowS then
          bindE (sliceE sig sOffset (sOffset + sLen)) (\<lambda>s.
            if SetBytes s > halfOrder then Inl (scriptError ErrSigHighS) else Inr ())
        else Inr ())))))))))"

section \<open>Handlers of the plain opcodes\<close>

type_synonym opfunc = "parsedOpcode \<Rightarrow> unit vmM"

abbreviation popB :: "bytes vmM" where "popB \<equiv> onD PopByteArray"
abbreviation popI :: "scriptNum vmM" where "popI \<equiv> onD PopInt"
abbreviation pushB :: "bytes \<Rightarrow> unit vmM" where "pushB so \<equiv> onD (PushByteArray so)"
abbreviation pushI :: "scriptNum \<Rightarrow> unit vmM" where "pushI n \<equiv> onD (PushInt n)"
abbreviation pushBool :: "bool \<Rightarrow> unit vmM" where "pushBool b \<equiv> onD (PushBool b)"

definition opcodeDisabled :: opfunc where "opcodeDisabled op = raiseM (scriptError ErrDisabledOpcode)"
definition opcodeReserved :: opfunc where "opcodeReserved op = raiseM (scriptError ErrReservedOpcode)"
definition opcodeInvalid :: opfunc where "opcodeInvalid op = raiseM (scriptError ErrReservedOpcode)"
definition opcodeFalse :: opfunc where "opcodeFalse op = pushB []"
definition opcodePushData :: opfunc where "opcodePushData op = pushB (data op)"
definition opcode1Negate :: opfunc where "opcode1Negate op = pushI (- 1)"
definition opcodeN :: opfunc where "opcodeN op = pushI (uint (pop_value op - (OP_1 - 1)))"

definition opcodeNop :: opfunc where
  "opcodeNop op = bindM (getM (\<lambda>vm. hasFlag vm ScriptDiscourageUpgradableNops)) (\<lambda>discourage.
     if pop_value op \<in> {OP_NOP1, OP_NOP4, OP_NOP5, OP_NOP6, OP_NOP7, OP_NOP8, OP_NOP9, OP_NOP10}
        \<and> discourage
     then raiseM (scriptError ErrDiscourageUpgradableNOPs) else returnM ())"

definition popIfBool :: "bool vmM" where
  "popIfBool = bindM (getM (\<lambda>vm. \<not> isWitnessVersionActive vm 0 \<or> \<not> hasFlag vm ScriptVerifyMinimalIf))
     (\<lambda>plain. if plain then onD PopBool
      else bindM popB (\<lambda>so.
        if length so > 1 then raiseM (scriptError ErrMinimalIf)
        else if length so = 1 \<and> so ! 0 \<noteq> 0x01 then raiseM (scriptError ErrMinimalIf)
        else returnM (asBool so)))"

definition pushCond :: "condVal \<Rightarrow> unit vmM" where
  "pushCond c = modifyM (\<lambda>vm. vm\<lparr>condStack := condStack vm @ [c]\<rparr>)"

definition opcodeIf :: opfunc where
  "opcodeIf op = bindM (getM isBranchExecuting) (\<lambda>executing.
     if executing then bindM popIfBool (\<lambda>ok. pushCond (if ok then OpCondTrue else OpCondFalse))
     else pushCond OpCondSkip)"

definition opcodeNotIf :: opfunc where
  "opcodeNotIf op = bindM (getM isBranchExecuting) (\<lambda>executing.
     if executing then bindM popIfBool (\<lambda>ok. pushCond (if \<not> ok then OpCondTrue else OpCondFalse))
     else pushCond OpCondSkip)"

fun flipCond :: "condVal \<Rightarrow> condVal" where
  "flipCond OpCondTrue = OpCondFalse"
| "flipCond OpCondFalse = OpCondTrue"
| "flipCond OpCondSkip = OpCondSkip"

definition opcodeElse :: opfunc where
  "opcodeElse op = bindM (getM condStack) (\<lambda>cs.
     if length cs = 0 then raiseM (scriptError ErrUnbalancedConditional)
     else modifyM (\<lambda>vm. vm\<lparr>condStack := butlast cs @ [flipCond (last cs)]\<rparr>))"

definition opcodeEndif :: opfunc where
  "opcodeEndif op = bindM (getM condStack) (\<lambda>cs.
     if length cs = 0 then raiseM (scriptError ErrUnbalancedConditional)
     else modifyM (\<lambda>vm. vm\<lparr>condStack := take (length cs - 1) cs\<rparr>))"

definition abstractVerify :: "ErrorCode \<Rightarrow> unit vmM" where
  "abstractVerify c = bindM (onD PopBool) (\<lambda>verified.
     if \<not> verified then raiseM (scriptError c) else returnM ())"

definition opcodeVerify :: opfunc where "opcodeVerify op = abstractVerify ErrVerify"
definition opcodeReturn :: opfunc where "opcodeReturn op = raiseM (scriptError ErrEarlyReturn)"

section \<open>Lock times\<close>

definition verifyLockTime :: "int \<Rightarrow> int \<Rightarrow> int \<Rightarrow> script_err + unit" where
  "verifyLockTime txLockTime threshold lockTime =
     (if \<not> ((txLockTime < threshold \<and> lockTime < threshold)
            \<or> (txLockTime \<ge> threshold \<and> lockTime \<ge> threshold))
      then Inl (scriptError ErrUnsatisfiedLockTime)
      else if lockTime > txLockTime then Inl (scriptError ErrUnsatisfiedLockTime)
      else Inr ())"

definition currentTxIn :: "Engine \<Rightarrow> script_err + TxIn" where
  "currentTxIn vm = (if txIdx vm < 0 then Inl GoPanic else indexE (TxIns (vm_tx vm)) (nat (txIdx vm)))"

definition peekNum5 :: "scriptNum vmM" where
  "peekNum5 = onD (bindM (PeekByteArray 0) (\<lambda>so.
     bindM (getM verifyMinimalData) (\<lambda>vmd. liftM (makeScriptNum so vmd 5))))"

definition opcodeCheckLockTimeVerify :: opfunc where
  "opcodeCheckLockTimeVerify op = bindM (getM id) (\<lambda>vm.
     if \<not> hasFlag vm ScriptVerifyCheckLockTimeVerify then
       (if hasFlag vm ScriptDiscourageUpgradableNops
        then raiseM (scriptError ErrDiscourageUpgradableNOPs) else returnM ())
     else bindM peekNum5 (\<lambda>lockTime.
       if lockTime < 0 then raiseM (scriptError ErrNegativeLockTime)
       else bindM (liftM (verifyLockTime (uint (LockTime (vm_tx vm))) LockTimeThreshold lockTime)) (\<lambda>_.
       bindM (liftM (currentTxIn vm)) (\<lambda>txIn.
       if Sequence txIn = MaxTxInSequenceNum then raiseM (scriptError ErrUnsatisfiedLockTime)
       else returnM ()))))"

definition opcodeCheckSequenceVerify :: opfunc where
  "opcodeCheckSequenceVerify op = bindM (getM id) (\<lambda>vm.
     if \<not> hasFlag vm ScriptVerifyCheckSequenceVerify then
       (if hasFlag vm ScriptDiscourageUpgradableNops
        then raiseM (scriptError ErrDiscourageUpgradableNOPs) else returnM ())
     else bindM peekNum5 (\<lambda>sequence.
       if sequence < 0 then raiseM (scriptError ErrNegativeLockTime)
       else if sequence AND uint SequenceLockTimeDisabled \<noteq> 0 then returnM ()
       else if sint (Version (vm_tx vm)) < 2 then raiseM (scriptError ErrUnsatisfiedLockTime)
       else bindM (liftM (currentTxIn vm)) (\<lambda>txIn.
       let txSequence = uint (Sequence txIn) in
       if txSequence AND uint SequenceLockTimeDisabled \<noteq> 0 then raiseM (scriptError ErrUnsatisfiedLockTime)
       else let lockTimeMask = uint (SequenceLockTimeIsSeconds OR SequenceLockTimeMask) in
         liftM (verifyLockTime (txSequence AND lockTimeMask) (uint SequenceLockTimeIsSeconds)
           (sequence AND lockTimeMask)))))"

section \<open>Stack manipulation, comparison and arithmetic\<close>

definition opcodeToAltStack :: opfunc where
  "opcodeToAltStack op = bindM popB (\<lambda>so. onA (PushByteArray so))"
definition opcodeFromAltStack :: opfunc where
  "opcodeFromAltStack op = bindM (onA PopByteArray) (\<lambda>so. pushB so)"
definition opcode2Drop :: opfunc where "opcode2Drop op = onD (DropN 2)"
definition opcode2Dup :: opfunc where "opcode2Dup op = onD (DupN 2)"
definition opcode3Dup :: opfunc where "opcode3Dup op = onD (DupN 3)"
definition opcode2Over :: opfunc where "opcode2Over op = onD (OverN 2)"
definition opcode2Rot :: opfunc where "opcode2Rot op = onD (RotN 2)"
definition opcode2Swap :: opfunc where "opcode2Swap op = onD (SwapN 2)"
definition opcodeIfDup :: opfunc where
  "opcodeIfDup op = bindM (onD (PeekByteArray 0)) (\<lambda>so. if asBool so then pushB so else returnM ())"
definition opcodeDepth :: opfunc where
  "opcodeDepth op = bindM (onD (getM Depth)) (\<lambda>d. pushI d)"
definition opcodeDrop :: opfunc where "opcodeDrop op = onD (DropN 1)"
definition opcodeDup :: opfunc where "opcodeDup op = onD (DupN 1)"
definition opcodeNip :: opfunc where "opcodeNip op = onD (NipN 1)"
definition opcodeOver :: opfunc where "opcodeOver op = onD (OverN 1)"
definition opcodePick :: opfunc where
  "opcodePick op = bindM popI (\<lambda>val. onD (PickN (scriptNum_Int32 val)))"
definition opcodeRoll :: opfunc where
  "opcodeRoll op = bindM popI (\<lambda>val. onD (RollN (scriptNum_Int32 val)))"
definition opcodeRot :: opfunc where "opcodeRot op = onD (RotN 1)"
definition opcodeSwap :: opfunc where "opcodeSwap op = onD (SwapN 1)"
definition opcodeTuck :: opfunc where "opcodeTuck op = onD Tuck"
definition opcodeSize :: opfunc where
  "opcodeSize op = bindM (onD (PeekByteArray 0)) (\<lambda>so. pushI (int (length so)))"
definition opcodeEqual :: opfunc where
  "opcodeEqual op = bindM popB (\<lambda>a. bindM popB (\<lambda>b. pushBool (a = b)))"
definition opcodeEqualVerify :: opfunc where
  "opcodeEqualVerify op = seqM (opcodeEqual op) (abstractVerify ErrEqualVerify)"

definition unaryNum :: "(scriptNum \<Rightarrow> scriptNum) \<Rightarrow> unit vmM" where
  "unaryNum f = bindM popI (\<lambda>m. pushI (f m))"

definition opcode1Add :: opfunc where "opcode1Add op = unaryNum (\<lambda>m. int64 (m + 1))"
definition opcode1Sub :: opfunc where "opcode1Sub op = unaryNum (\<lambda>m. int64 (m - 1))"
definition opcodeNegate :: opfunc where "opcodeNegate op = unaryNum (\<lambda>m. int64 (- m))"
definition opcodeAbs :: opfunc where "opcodeAbs op = unaryNum (\<lambda>m. if m < 0 then int64 (- m) else m)"
definition opcodeNot :: opfunc where "opcodeNot op = unaryNum (\<lambda>m. if m = 0 then 1 else 0)"
definition opcode0NotEqual :: opfunc where "opcode0NotEqual op = unaryNum (\<lambda>m. if m \<noteq> 0 then 1 else m)"

text \<open>The top element is the first argument \<open>v0\<close>, the one below it is \<open>v1\<close>.\<close>

definition binaryNum :: "(scriptNum \<Rightarrow> scriptNum \<Rightarrow> scriptNum) \<Rightarrow> unit vmM" where
  "binaryNum f = bindM popI (\<lambda>v0. bindM popI (\<lambda>v1. pushI (f v0 v1)))"

definition opcodeAdd :: opfunc where "opcodeAdd op = binaryNum (\<lambda>v0 v1. int64 (v0 + v1))"
definition opcodeSub :: opfunc where "opcodeSub op = binaryNum (\<lambda>v0 v1. int64 (v1 - v0))"
definition opcodeBoolAnd :: opfunc where
  "opcodeBoolAnd op = binaryNum (\<lambda>v0 v1. if v0 \<noteq> 0 \<and> v1 \<noteq> 0 then 1 else 0)"
definition opcodeBoolOr :: opfunc where
  "opcodeBoolOr op = binaryNum (\<lambda>v0 v1. if v0 \<noteq> 0 \<or> v1 \<noteq> 0 then 1 else 0)"
definition opcodeNumEqual :: opfunc where
  "opcodeNumEqual op = binaryNum (\<lambda>v0 v1. if v0 = v1 then 1 else 0)"
definition opcodeNumEqualVerify :: opfunc where
  "opcodeNumEqualVerify op = seqM (opcodeNumEqual op) (abstractVerify ErrNumEqualVerify)"
definition opcodeNumNotEqual :: opfunc where
  "opcodeNumNotEqual op = binaryNum (\<lambda>v0 v1. if v0 \<noteq> v1 then 1 else 0)"
definition opcodeLessThan :: opfunc where
  "opcodeLessThan op = binaryNum (\<lambda>v0 v1. if v1 < v0 then 1 else 0)"
definition opcodeGreaterThan :: opfunc where
  "opcodeGreaterThan op = binaryNum (\<lambda>v0 v1. if v1 > v0 then 1 else 0)"
definition opcodeLessThanOrEqual :: opfunc where
  "opcodeLessThanOrEqual op = binaryNum (\<lambda>v0 v1. if v1 \<le> v0 then 1 else 0)"
definition opcodeGreaterThanOrEqual :: opfunc where
  "opcodeGreaterThanOrEqual op = binaryNum (\<lambda>v0 v1. if v1 \<ge> v0 then 1 else 0)"
definition opcodeMin :: opfunc where
  "opcodeMin op = binaryNum (\<lambda>v0 v1. if v1 < v0 then v1 else v0)"
definition opcodeMax :: opfunc where
  "opcodeMax op = binaryNum (\<lambda>v0 v1. if v1 > v0 then v1 else v0)"
definition opcodeWithin :: opfunc where
  "opcodeWithin op = bindM popI (\<lambda>maxVal. bindM popI (\<lambda>minVal. bindM popI (\<lambda>x.
     pushI (if x \<ge> minVal \<and> x < maxVal then 1 else 0))))"

section \<open>Hashes\<close>

definition hashTop :: "(bytes \<Rightarrow> bytes) \<Rightarrow> unit vmM" where
  "hashTop h = bindM popB (\<lambda>buf. pushB (h buf))"

definition opcodeRipemd160 :: "crypto \<Rightarrow> opfunc" where
  "opcodeRipemd160 C op = hashTop (ripemd160 C)"
definition opcodeSha1 :: opfunc where "opcodeSha1 op = hashTop Sha1Sum"
definition opcodeSha256 :: opfunc where "opcodeSha256 op = hashTop Sum256"
definition opcodeHash160 :: "crypto \<Rightarrow> opfunc" where
  "opcodeHash160 C op = hashTop (\<lambda>buf. ripemd160 C (Sum256 buf))"
definition opcodeHash256 :: opfunc where "opcodeHash256 op = hashTop DoubleHashB"
definition opcodeCodeSeparator :: opfunc where
  "opcodeCodeSeparator op = modifyM (\<lambda>vm. vm\<lparr>lastCodeSep := scriptOff vm\<rparr>)"

section \<open>Signature checks\<close>

definition Signature_Verify :: "crypto \<Rightarrow> bytes \<Rightarrow> Signature \<Rightarrow> PublicKey \<Rightarrow> bool" where
  "Signature_Verify C hash sig pubKey = ecdsaVerify C pubKey hash (sigR sig) (sigS sig)"

definition copyHash :: "bytes \<Rightarrow> bytes" where
  "copyHash hash = take 32 (hash @ replicate 32 0)"

definition sigHashOf :: "parsedOpcode list \<Rightarrow> SigHashType \<Rightarrow> bytes vmM" where
  "sigHashOf script hashType = bindM (getM id) (\<lambda>vm. liftM (
     if isWitnessVersionActive vm 0 then
       let sigHashes = (case hashCache vm of Some h \<Rightarrow> h | None \<Rightarrow> NewTxSigHashes (vm_tx vm))
       in calcWitnessSignatureHash script sigHashes hashType (vm_tx vm) (txIdx vm) (inputAmount vm)
     else calcSignatureHash script hashType (vm_tx vm) (txIdx vm)))"

definition parseSigFor :: "Engine \<Rightarrow> bytes \<Rightarrow> script_err + Signature" where
  "parseSigFor vm sigBytes =
     (if hasFlag vm ScriptVerifyStrictEncoding \<or> hasFlag vm ScriptVerifyDERSignatures
      then ParseDERSignature sigBytes else ParseSignature sigBytes)"

definition verifyCached :: "crypto \<Rightarrow> bytes \<Rightarrow> Signature \<Rightarrow> PublicKey \<Rightarrow> bool vmM" where
  "verifyCached C hash sig pubKey = bindM (getM sigCache) (\<lambda>cache.
     case cache of
       None \<Rightarrow> returnM (Signature_Verify C hash sig pubKey)
     | Some c \<Rightarrow>
         let sigHash = copyHash hash in
         if SigCache_Exists c sigHash sig pubKey then returnM True
         else if Signature_Verify C hash sig pubKey then
           seqM (modifyM (\<lambda>vm. vm\<lparr>sigCache := Some (SigCache_Add (evictPick C) c sigHash sig pubKey)\<rparr>))
             (returnM True)
         else returnM False)"

definition opcodeCheckSig :: "crypto \<Rightarrow> opfunc" where
  "opcodeCheckSig C op = bindM popB (\<lambda>pkBytes. bindM popB (\<lambda>fullSigBytes.
     if length fullSigBytes < 1 then pushBool False
     else
       let hashType = ucast (last fullSigBytes); sigBytes = butlast fullSigBytes in
       bindM (getM id) (\<lambda>vm.
       bindM (liftM (checkHashTypeEncoding vm hashType)) (\<lambda>_.
       bindM (liftM (checkSignatureEncoding vm sigBytes)) (\<lambda>_.
       bindM (liftM (checkPubKeyEncoding vm pkBytes)) (\<lambda>_.
       bindM (liftM (subScript vm)) (\<lambda>sub.
       bindM (sigHashOf (if isWitnessVersionActive vm 0 then sub else removeOpcodeByData sub fullSigBytes)
                hashType) (\<lambda>hash.
       case ParsePubKey pkBytes of
         Inl _ \<Rightarrow> pushBool False
       | Inr pubKey \<Rightarrow>
           (case parseSigFor vm sigBytes of
              Inl _ \<Rightarrow> pushBool False
            | Inr signature \<Rightarrow> bindM (verifyCached C hash signature pubKey) (\<lambda>valid.
                if \<not> valid \<and> hasFlag vm ScriptVerifyNullFail \<and> length sigBytes > 0
                then raiseM (scriptError ErrNullFail)
                else pushBool valid))))))))))"

definition opcodeCheckSigVerify :: "crypto \<Rightarrow> opfunc" where
  "opcodeCheckSigVerify C op = seqM (opcodeCheckSig C op) (abstractVerify ErrCheckSigVerify)"

text \<open>Count operations against the limit, then continue.\<close>

definition countOp :: "int \<Rightarrow> unit vmM \<Rightarrow> unit vmM" where
  "countOp n k = seqM (modifyM (\<lambda>vm. vm\<lparr>numOps := numOps vm + n\<rparr>)) (bindM (getM numOps) (\<lambda>ops.
     if ops > MaxOpsPerScript then raiseM (scriptError ErrTooManyOperations) else k))"

record parsedSigInfo =
  rawSignature :: bytes
  parsedSignature :: "Signature option"
  parsed :: bool

text \<open>
  The parsed form of a signature: checked and parsed on its first use, remembered afterwards.
  The result \<open>None\<close> stands for a signature that cannot be parsed.
\<close>

definition parseOnce :: "parsedSigInfo \<Rightarrow> (Signature option \<times> parsedSigInfo) vmM" where
  "parseOnce sigInfo =
     (if parsed sigInfo then returnM (parsedSignature sigInfo, sigInfo)
      else let rawSig = rawSignature sigInfo; hashType = ucast (last rawSig); signature = butlast rawSig in
       bindM (getM id) (\<lambda>vm.
       bindM (liftM (checkHashTypeEncoding vm hashType)) (\<lambda>_.
       bindM (liftM (checkSignatureEncoding vm signature)) (\<lambda>_.
       case parseSigFor vm signature of
         Inl _ \<Rightarrow> returnM (None, sigInfo\<lparr>parsed := True\<rparr>)
       | Inr sig \<Rightarrow> returnM (Some sig, sigInfo\<lparr>parsed := True, parsedSignature := Some sig\<rparr>)))))"

text \<open>
  The loop over keys and signatures.  \<open>numPubKeys\<close> counts the keys not yet tried, as in the code
  after its increment; \<open>pubKeyIdx\<close> and \<open>signatureIdx\<close> are the positions tried next.
\<close>

fun multiSigLoop :: "crypto \<Rightarrow> parsedOpcode list \<Rightarrow> bytes list \<Rightarrow> nat \<Rightarrow> nat \<Rightarrow> nat \<Rightarrow> nat \<Rightarrow>
    parsedSigInfo list \<Rightarrow> bool vmM" where
  "multiSigLoop C script pubKeys 0 numSignatures pubKeyIdx signatureIdx signatures =
     returnM (numSignatures = 0)"
| "multiSigLoop C script pubKeys (Suc numPubKeys) numSignatures pubKeyIdx signatureIdx signatures =
     (if numSignatures = 0 then returnM True
      else if numSignatures > numPubKeys then returnM False
      else bindM (liftM (indexE signatures signatureIdx)) (\<lambda>sigInfo.
      bindM (liftM (indexE pubKeys pubKeyIdx)) (\<lambda>pubKey.
      if length (rawSignature sigInfo) = 0 then
        multiSigLoop C script pubKeys numPubKeys numSignatures (pubKeyIdx + 1) signatureIdx signatures
      else bindM (parseOnce sigInfo) (\<lambda>(parsedSig, sigInfo).
      let signatures = signatures[signatureIdx := sigInfo] in
      case parsedSig of
        None \<Rightarrow> multiSigLoop C script pubKeys numPubKeys numSignatures (pubKeyIdx + 1) signatureIdx signatures
      | Some sig \<Rightarrow>
          bindM (getM id) (\<lambda>vm.
          bindM (liftM (checkPubKeyEncoding vm pubKey)) (\<lambda>_.
          case ParsePubKey pubKey of
            Inl _ \<Rightarrow> multiSigLoop C script pubKeys numPubKeys numSignatures (pubKeyIdx + 1) signatureIdx signatures
          | Inr parsedPubKey \<Rightarrow>
              bindM (sigHashOf script (ucast (last (rawSignature sigInfo)))) (\<lambda>hash.
              bindM (verifyCached C hash sig parsedPubKey) (\<lambda>valid.
              if valid then
                multiSigLoop C script pubKeys numPubKeys (numSignatures - 1) (pubKeyIdx + 1) (signatureIdx + 1) signatures
              else
                multiSigLoop C script pubKeys numPubKeys numSignatures (pubKeyIdx + 1) signatureIdx signatures)))))))) "

definition opcodeCheckMultiSig :: "crypto \<Rightarrow> opfunc" where
  "opcodeCheckMultiSig C op = bindM popI (\<lambda>numKeys.
     let numPubKeys = scriptNum_Int32 numKeys in
     if numPubKeys < 0 then raiseM (scriptError ErrInvalidPubKeyCount)
     else if numPubKeys > MaxPubKeysPerMultiSig then raiseM (scriptError ErrInvalidPubKeyCount)
     else countOp numPubKeys (bindM (repeatM (nat numPubKeys) popB) (\<lambda>pubKeys.
     bindM popI (\<lambda>numSigs.
     let numSignatures = scriptNum_Int32 numSigs in
     if numSignatures < 0 then raiseM (scriptError ErrInvalidSignatureCount)
     else if numSignatures > numPubKeys then raiseM (scriptError ErrInvalidSignatureCount)
     else bindM (repeatM (nat numSignatures) popB) (\<lambda>sigs.
     bindM popB (\<lambda>dummy.
     bindM (getM id) (\<lambda>vm.
     if hasFlag vm ScriptStrictMultiSig \<and> length dummy \<noteq> 0 then raiseM (scriptError ErrSigNullDummy)
     else bindM (liftM (subScript vm)) (\<lambda>script.
     let script = (if \<not> isWitnessVersionActive vm 0 then foldl removeOpcodeByData script sigs else script);
         signatures = map (\<lambda>s. \<lparr>rawSignature = s, parsedSignature = None, parsed = False\<rparr>) sigs in
     bindM (multiSigLoop C script pubKeys (nat numPubKeys + 1) (nat numSignatures) 0 0 signatures) (\<lambda>success.
     if \<not> success \<and> hasFlag vm ScriptVerifyNullFail \<and> list_ex (\<lambda>s. length s > 0) sigs
     then raiseM (scriptError ErrNullFail)
     else pushBool success)))))))))"

definition opcodeCheckMultiSigVerify :: "crypto \<Rightarrow> opfunc" where
  "opcodeCheckMultiSigVerify C op = seqM (opcodeCheckMultiSig C op) (abstractVerify ErrCheckMultiSigVerify)"

section \<open>The table of handlers\<close>

definition opfuncs :: "crypto \<Rightarrow> opfunc list" where
  "opfuncs C = [
    opcodeFalse, opcodePushData, opcodePushData, opcodePushData, opcodePushData, opcodePushData,
    opcodePushData, opcodePushData, opcodePushData, opcodePushData, opcodePushData, opcodePushData,
    opcodePushData, opcodePushData, opcodePushData, opcodePushData, opcodePushData, opcodePushData,
    opcodePushData, opcodePushData, opcodePushData, opcodePushData, opcodePushData, opcodePushData,
    opcodePushData, opcodePushData, opcodePushData, opcodePushData, opcodePushData, opcodePushData,
    opcodePushData, opcodePushData, opcodePushData, opcodePushData, opcodePushData, opcodePushData,
    opcodePushData, opcodePushData, opcodePushData, opcodePushData, opcodePushData, opcodePushData,
    opcodePushData, opcodePushData, opcodePushData, opcodePushData, opcodePushData, opcodePushData,
    opcodePushData, opcodePushData, opcodePushData, opcodePushData, opcodePushData, opcodePushData,
    opcodePushData, opcodePushData, opcodePushData, opcodePushData, opcodePushData, opcodePushData,
    opcodePushData, opcodePushData, opcodePushData, opcodePushData, opcodePushData, opcodePushData,
    opcodePushData, opcodePushData, opcodePushData, opcodePushData, opcodePushData, opcodePushData,
    opcodePushData, opcodePushData, opcodePushData, opcodePushData, opcodePushData, opcodePushData,
    opcodePushData, opcode1Negate, opcodeReserved, opcodeN, opcodeN, opcodeN, opcodeN, opcodeN,
    opcodeN, opcodeN, opcodeN, opcodeN, opcodeN, opcodeN, opcodeN, opcodeN, opcodeN, opcodeN,
    opcodeN, opcodeNop, opcodeReserved, opcodeIf, opcodeNotIf, opcodeReserved, opcodeReserved,
    opcodeElse, opcodeEndif, opcodeVerify, opcodeReturn, opcodeToAltStack, opcodeFromAltStack,
    opcode2Drop, opcode2Dup, opcode3Dup, opcode2Over, opcode2Rot, opcode2Swap, opcodeIfDup,
    opcodeDepth, opcodeDrop, opcodeDup, opcodeNip, opcodeOver, opcodePick, opcodeRoll, opcodeRot,
    opcodeSwap, opcodeTuck, opcodeDisabled, opcodeDisabled, opcodeDisabled, opcodeDisabled,
    opcodeSize, opcodeDisabled, opcodeDisabled, opcodeDisabled, opcodeDisabled, opcodeEqual,
    opcodeEqualVerify, opcodeReserved, opcodeReserved, opcode1Add, opcode1Sub, opcodeDisabled,
    opcodeDisabled, opcodeNegate, opcodeAbs, opcodeNot, opcode0NotEqual, opcodeAdd, opcodeSub,
    opcodeDisabled, opcodeDisabled, opcodeDisabled, opcodeDisabled, opcodeDisabled, opcodeBoolAnd,
    opcodeBoolOr, opcodeNumEqual, opcodeNumEqualVerify, opcodeNumNotEqual, opcodeLessThan,
    opcodeGreaterThan, opcodeLessThanOrEqual, opcodeGreaterThanOrEqual, opcodeMin, opcodeMax,
    opcodeWithin, opcodeRipemd160 C, opcodeSha1, opcodeSha256, opcodeHash160 C, opcodeHash256,
    opcodeCodeSeparator, opcodeCheckSig C, opcodeCheckSigVerify C, opcodeCheckMultiSig C,
    opcodeCheckMultiSigVerify C, opcodeNop, opcodeCheckLockTimeVerify, opcodeCheckSequenceVerify,
    opcodeNop, opcodeNop, opcodeNop, opcodeNop, opcodeNop, opcodeNop, opcodeNop, opcodeInvalid,
    opcodeInvalid, opcodeInvalid, opcodeInvalid, opcodeInvalid, opcodeInvalid, opcodeInvalid,
    opcodeInvalid, opcodeInvalid, opcodeInvalid, opcodeInvalid, opcodeInvalid, opcodeInvalid,
    opcodeInvalid, opcodeInvalid, opcodeInvalid, opcodeInvalid, opcodeInvalid, opcodeInvalid,
    opcodeInvalid, opcodeInvalid, opcodeInvalid, opcodeInvalid, opcodeInvalid, opcodeInvalid,
    opcodeInvalid, opcodeInvalid, opcodeInvalid, opcodeInvalid, opcodeInvalid, opcodeInvalid,
    opcodeInvalid, opcodeInvalid, opcodeInvalid, opcodeInvalid, opcodeInvalid, opcodeInvalid,
    opcodeInvalid, opcodeInvalid, opcodeInvalid, opcodeInvalid, opcodeInvalid, opcodeInvalid,
    opcodeInvalid, opcodeInvalid, opcodeInvalid, opcodeInvalid, opcodeInvalid, opcodeInvalid,
    opcodeInvalid, opcodeInvalid, opcodeInvalid, opcodeInvalid, opcodeInvalid, opcodeInvalid,
    opcodeInvalid, opcodeInvalid, opcodeInvalid, opcodeInvalid, opcodeInvalid, opcodeInvalid,
    opcodeInvalid, opcodeInvalid, opcodeInvalid, opcodeInvalid, opcodeInvalid, opcodeInvalid,
    opcodeInvalid, opcodeInvalid, opcodeInvalid]"

end
