(* ===== verification/Script_Inv.thy ===== *)
theory Script_Inv
  imports Script_Engine
begin

text \<open>
  The contract that every opcode handler keeps: it never panics, pushes no element above the size
  limit, counts operations within the limit, and leaves the scripts, the program counter, the
  transaction and the configuration of the engine alone.  The rules of the contract are proved
  once for an arbitrary invariant and frame and used on stacks and on engines.
\<close>

unbundle bit_operations_syntax

section \<open>Contracts of computations\<close>

text \<open>
  A computation keeps a contract when, from a state that satisfies \<open>Inv\<close>, it never raises a bad
  error, and when it returns, its result satisfies \<open>A\<close>, its final state satisfies \<open>Inv\<close>, and the
  two states are related by \<open>Fr\<close>, which says what the computation leaves alone.
\<close>

locale op_contract =
  fixes Inv :: "'s \<Rightarrow> bool" and Fr :: "'s \<Rightarrow> 's \<Rightarrow> bool" and bad :: "'e \<Rightarrow> bool"
  assumes Fr_refl: "Fr s s"
    and Fr_trans: "Fr s t \<Longrightarrow> Fr t u \<Longrightarrow> Fr s u"
begin

definition ok :: "('a \<Rightarrow> bool) \<Rightarrow> ('s, 'e, 'a) goM \<Rightarrow> bool" where
  "ok A m = (\<forall>s r s'. Inv s \<longrightarrow> m s = (r, s') \<longrightarrow>
     (case r of Inl e \<Rightarrow> \<not> bad e | Inr x \<Rightarrow> A x \<and> Inv s' \<and> Fr s s'))"

lemma okI:
  assumes "\<And>s e s'. Inv s \<Longrightarrow> m s = (Inl e, s') \<Longrightarrow> \<not> bad e"
    and "\<And>s x s'. Inv s \<Longrightarrow> m s = (Inr x, s') \<Longrightarrow> A x \<and> Inv s' \<and> Fr s s'"
  shows "ok A m"
  using assms by (simp add: ok_def split: sum.split)

lemma ok_result: "ok A m \<Longrightarrow> Inv s \<Longrightarrow> m s = (r, s') \<Longrightarrow>
    case r of Inl e \<Rightarrow> \<not> bad e | Inr x \<Rightarrow> A x \<and> Inv s' \<and> Fr s s'"
  unfolding ok_def by blast

lemma okD_Inl: "ok A m \<Longrightarrow> Inv s \<Longrightarrow> m s = (Inl e, s') \<Longrightarrow> \<not> bad e"
  by (fastforce simp: ok_def)

lemma okD_Inr: "ok A m \<Longrightarrow> Inv s \<Longrightarrow> m s = (Inr x, s') \<Longrightarrow> A x \<and> Inv s' \<and> Fr s s'"
  by (fastforce simp: ok_def)

lemma bindM_cases:
  assumes "bindM m f s = (r, s'')"
  obtains e where "m s = (Inl e, s'')" "r = Inl e"
  | x s' where "m s = (Inr x, s')" "f x s' = (r, s'')"
  using assms by (auto simp: bindM_apply split: prod.splits sum.splits)

lemma ok_bind:
  assumes "ok A m" "\<And>x. A x \<Longrightarrow> ok B (f x)"
  shows "ok B (bindM m f)"
  unfolding ok_def
proof (intro allI impI)
  fix s r s'' assume "Inv s" "bindM m f s = (r, s'')"
  from this(2) show "case r of Inl e \<Rightarrow> \<not> bad e | Inr x \<Rightarrow> B x \<and> Inv s'' \<and> Fr s s''"
  proof (cases rule: bindM_cases)
    case (1 e)
    then show ?thesis using okD_Inl [OF assms(1) \<open>Inv s\<close>] by simp
  next
    case (2 x s')
    then have x: "A x" "Inv s'" "Fr s s'" using okD_Inr [OF assms(1) \<open>Inv s\<close>] by blast+
    show ?thesis
    proof (cases r)
      case (Inl e)
      then show ?thesis using okD_Inl [OF assms(2) [OF x(1)] x(2)] 2(2) by simp
    next
      case (Inr y)
      then show ?thesis using okD_Inr [OF assms(2) [OF x(1)] x(2)] 2(2) Fr_trans [OF x(3)] by simp
    qed
  qed
qed

lemma ok_weaken: "ok A m \<Longrightarrow> (\<And>x. A x \<Longrightarrow> B x) \<Longrightarrow> ok B m"
  by (rule okI) (simp add: okD_Inl, blast dest: okD_Inr)

lemma ok_return: "ok (\<lambda>_. True) (returnM x)"
  by (auto simp: ok_def returnM_apply Fr_refl)

lemma ok_return_is: "ok (\<lambda>y. y = x) (returnM x)"
  by (auto simp: ok_def returnM_apply Fr_refl)

lemma ok_raise: "\<not> bad e \<Longrightarrow> ok A (raiseM e)"
  by (auto simp: ok_def raiseM_apply)

lemma ok_get: "ok (\<lambda>_. True) (getM f)"
  by (auto simp: ok_def getM_apply Fr_refl)

lemma ok_get_id: "ok Inv (getM id)"
  by (auto simp: ok_def getM_apply Fr_refl)

lemma ok_lift: "(\<And>e. r = Inl e \<Longrightarrow> \<not> bad e) \<Longrightarrow> ok (\<lambda>x. r = Inr x) (liftM r)"
  by (auto simp: ok_def liftM_apply Fr_refl split: sum.split)

lemma ok_if: "(b \<Longrightarrow> ok A m) \<Longrightarrow> (\<not> b \<Longrightarrow> ok A m') \<Longrightarrow> ok A (if b then m else m')"
  by simp

lemma ok_modify: "(\<And>s. Inv s \<Longrightarrow> Inv (f s) \<and> Fr s (f s)) \<Longrightarrow> ok (\<lambda>_. True) (modifyM f)"
  by (auto simp: ok_def modifyM_apply)

lemma ok_option: "(x = None \<Longrightarrow> ok A m) \<Longrightarrow> (\<And>y. x = Some y \<Longrightarrow> ok A (f y)) \<Longrightarrow> ok A (case x of None \<Rightarrow> m | Some y \<Rightarrow> f y)"
  by (cases x) simp_all

lemma ok_sum: "(\<And>y. x = Inl y \<Longrightarrow> ok A (f y)) \<Longrightarrow> (\<And>y. x = Inr y \<Longrightarrow> ok A (g y)) \<Longrightarrow> ok A (case x of Inl y \<Rightarrow> f y | Inr y \<Rightarrow> g y)"
  by (cases x) simp_all

lemma ok_prod: "(\<And>y z. x = (y, z) \<Longrightarrow> ok A (f y z)) \<Longrightarrow> ok A (case x of (y, z) \<Rightarrow> f y z)"
  by (cases x) simp_all

lemma ok_repeat: "ok A m \<Longrightarrow> ok (\<lambda>xs. length xs = n \<and> list_all A xs) (repeatM n m)"
proof (induction n)
  case 0
  show ?case by (simp add: ok_weaken [OF ok_return_is])
next
  case (Suc n)
  have "ok (\<lambda>xs. length xs = Suc n \<and> list_all A xs) (bindM m (\<lambda>x. bindM (repeatM n m) (\<lambda>xs. returnM (x # xs))))"
    by (rule ok_bind [OF Suc.prems], rule ok_bind [OF Suc.IH [OF Suc.prems]])
      (simp add: ok_weaken [OF ok_return_is])
  then show ?case by simp
qed

lemma ok_times: "ok A m \<Longrightarrow> \<not> bad e \<Longrightarrow>
    ok (\<lambda>_. True) (if b then raiseM e else bindM (repeatM k m) (\<lambda>_. returnM ()))"
  by (intro ok_if ok_raise ok_bind [OF ok_repeat] ok_return) simp_all

end

section \<open>Contracts of the stack operations\<close>

definition elem_ok :: "bytes \<Rightarrow> bool" where
  "elem_ok x = (length x \<le> MaxScriptElementSize)"

definition elems_ok :: "stack \<Rightarrow> bool" where
  "elems_ok s = list_all elem_ok (stk s)"

interpretation so: op_contract elems_ok "\<lambda>s s'. verifyMinimalData s' = verifyMinimalData s" "\<lambda>e. e = GoPanic"
  by unfold_locales simp_all

lemma okS_push: "elem_ok x \<Longrightarrow> so.ok (\<lambda>_. True) (PushByteArray x)"
  unfolding PushByteArray_def by (rule so.ok_modify) (simp add: elems_ok_def)

lemma elems_ok_nth: "elems_ok s \<Longrightarrow> 0 \<le> i \<Longrightarrow> i < int (length (stk s)) \<Longrightarrow> elem_ok (stk s ! nat (int (length (stk s)) - i - 1))"
  by (simp add: elems_ok_def list_all_length nat_less_iff)

lemma okS_nip: "so.ok elem_ok (nipN i)"
proof -
  have t: "list_all elem_ok (take n xs)" "list_all elem_ok (drop n xs)" if "list_all elem_ok xs" for n xs
    using that by (auto simp: list_all_iff dest: in_set_takeD in_set_dropD)
  show ?thesis
    unfolding so.ok_def
  proof (intro allI impI)
    fix s r s' assume ok: "elems_ok s" and n: "nipN i s = (r, s')"
    define so where "so = stk s ! nat (int (length (stk s)) - i - 1)"
    have "elem_ok so" if "\<not> (i < 0 \<or> i > int (length (stk s)) - 1)"
      unfolding so_def using that by (intro elems_ok_nth [OF ok]) simp_all
    then show "case r of Inl e \<Rightarrow> e \<noteq> GoPanic
        | Inr x \<Rightarrow> elem_ok x \<and> elems_ok s' \<and> verifyMinimalData s' = verifyMinimalData s"
      using n ok unfolding nipN_def Let_def so_def [symmetric] by (auto simp: elems_ok_def t split: if_splits)
  qed
qed

lemma okS_peek: "so.ok elem_ok (PeekByteArray i)"
  using elems_ok_nth by (auto simp: so.ok_def PeekByteArray_def Let_def split: if_splits)

lemma scriptNum_Bytes_small:
  assumes "\<bar>n\<bar> < 2 ^ 39"
  shows "\<exists>v. scriptNum_Bytes n = Inr v \<and> length v \<le> 5"
proof -
  have "\<bar>n\<bar> < 2 ^ 63" using assms by simp
  then obtain v where "scriptNum_Bytes n = Inr v" "sm_value v = n" "checkMinimalDataEncoding v = Inr ()"
    by (rule scriptNum_Bytes_ok)
  then show ?thesis using sm_value_length [of v 5] assms by auto
qed

lemma okS_pushInt: "\<bar>n\<bar> < 2 ^ 39 \<Longrightarrow> so.ok (\<lambda>_. True) (PushInt n)"
proof -
  assume "\<bar>n\<bar> < 2 ^ 39"
  then obtain v where "scriptNum_Bytes n = Inr v" "length v \<le> 5" using scriptNum_Bytes_small by blast
  then show ?thesis
    unfolding PushInt_def by (intro so.ok_bind [OF so.ok_lift] okS_push) (simp_all add: elem_ok_def MaxScriptElementSize_def)
qed

lemma makeScriptNum_no_panic: "makeScriptNum v m L \<noteq> Inl GoPanic"
  by (auto simp: makeScriptNum_def checkMinimalDataEncoding_def Let_def split: if_splits)

lemma okS_popInt: "so.ok (\<lambda>n. \<bar>n\<bar> < 2 ^ 31) PopInt"
  unfolding PopInt_def PopByteArray_def defaultScriptNumLen_def
proof (intro so.ok_bind [OF okS_nip] so.ok_bind [OF so.ok_get])
  fix so vmd
  show "so.ok (\<lambda>n. \<bar>n\<bar> < 2 ^ 31) (liftM (makeScriptNum so vmd 4))"
    using makeScriptNum_range [of so vmd 4] by (intro so.ok_weaken [OF so.ok_lift]) (auto simp: makeScriptNum_no_panic)
qed

lemma okS_popBool: "so.ok (\<lambda>_. True) PopBool"
  unfolding PopBool_def PopByteArray_def by (intro so.ok_bind [OF okS_nip] so.ok_return)

lemma okS_pushBool: "so.ok (\<lambda>_. True) (PushBool b)"
  unfolding PushBool_def by (intro okS_push) (simp add: elem_ok_def fromBool_def MaxScriptElementSize_def)

lemma okS_push_from: "so.ok elem_ok m \<Longrightarrow> so.ok (\<lambda>_. True) (bindM m PushByteArray)"
  by (rule so.ok_bind [OF _ okS_push])

lemma okS_moves:
  shows "so.ok (\<lambda>_. True) (DropN n)" "so.ok (\<lambda>_. True) (DupN n)" "so.ok (\<lambda>_. True) (RotN n)" "so.ok (\<lambda>_. True) (SwapN n)"
    "so.ok (\<lambda>_. True) (OverN n)" "so.ok (\<lambda>_. True) (PickN n)" "so.ok (\<lambda>_. True) (RollN n)" "so.ok (\<lambda>_. True) (NipN n)"
  unfolding DropN_def DupN_def RotN_def SwapN_def OverN_def PickN_def RollN_def NipN_def PopByteArray_def Let_def
  by (rule so.ok_times [OF _ scriptError_neq_panic(1)] okS_push_from okS_nip okS_peek so.ok_bind [OF okS_nip so.ok_return])+

lemma okS_tuck: "so.ok (\<lambda>_. True) Tuck"
  unfolding Tuck_def PopByteArray_def
  by (rule so.ok_bind [OF okS_nip], rule so.ok_bind [OF okS_nip]) (intro so.ok_bind [OF okS_push] okS_push; assumption)

section \<open>The invariant of the engine\<close>

definition vm_ok :: "Engine \<Rightarrow> bool" where
  "vm_ok vm = (elems_ok (dstack vm) \<and> elems_ok (astack vm) \<and>
     scriptIdx vm < length (scripts vm) \<and> scriptOff vm \<le> length (scripts vm ! scriptIdx vm) \<and>
     lastCodeSep vm \<le> scriptOff vm \<and> 0 \<le> txIdx vm \<and> txIdx vm < int (length (TxIns (vm_tx vm))) \<and>
     0 \<le> numOps vm \<and> numOps vm \<le> MaxOpsPerScript)"

definition frame :: "Engine \<Rightarrow> Engine \<Rightarrow> bool" where
  "frame vm vm' = (scripts vm' = scripts vm \<and> scriptIdx vm' = scriptIdx vm \<and> scriptOff vm' = scriptOff vm \<and>
     vm_tx vm' = vm_tx vm \<and> txIdx vm' = txIdx vm \<and> flags vm' = flags vm \<and> hashCache vm' = hashCache vm \<and>
     bip16 vm' = bip16 vm \<and> savedFirstStack vm' = savedFirstStack vm \<and> witnessVersion vm' = witnessVersion vm \<and>
     witnessProgram vm' = witnessProgram vm \<and> inputAmount vm' = inputAmount vm \<and>
     verifyMinimalData (dstack vm') = verifyMinimalData (dstack vm) \<and>
     verifyMinimalData (astack vm') = verifyMinimalData (astack vm))"

interpretation vo: op_contract vm_ok frame "\<lambda>e. e = GoPanic"
  by unfold_locales (simp_all add: frame_def)

abbreviation okU :: "unit vmM \<Rightarrow> bool" where "okU \<equiv> vo.ok (\<lambda>_. True)"

lemma zoom_cases:
  assumes "zoomM sel upd m s = (r, s')"
  obtains t where "m (sel s) = (r, t)" "s' = upd t s"
  using assms by (auto simp: zoomM_apply split: prod.splits)

lemma okD: "so.ok A m \<Longrightarrow> vo.ok A (onD m)"
  unfolding onD_def
  by (rule vo.okI; erule zoom_cases)
    (auto simp: vm_ok_def frame_def dest: so.okD_Inl so.okD_Inr)

lemma okA: "so.ok A m \<Longrightarrow> vo.ok A (onA m)"
  unfolding onA_def
  by (rule vo.okI; erule zoom_cases)
    (auto simp: vm_ok_def frame_def dest: so.okD_Inl so.okD_Inr)

lemma okseq: "okU m \<Longrightarrow> vo.ok A k \<Longrightarrow> vo.ok A (seqM m k)"
  unfolding seqM_def by (rule vo.ok_bind)

lemmas ok_popB = okD [OF okS_nip [of 0, folded PopByteArray_def]]
lemmas ok_popI = okD [OF okS_popInt]
lemmas ok_popBool = okD [OF okS_popBool]
lemmas ok_pushB = okD [OF okS_push]
lemmas ok_pushI = okD [OF okS_pushInt]
lemmas ok_pushBool = okD [OF okS_pushBool]
lemmas ok_peek = okD [OF okS_peek]

lemmas ok_rules = vo.ok_bind [OF ok_popB] vo.ok_bind [OF ok_popI] vo.ok_bind [OF ok_popBool] vo.ok_bind [OF ok_peek]
  vo.ok_bind [OF vo.ok_get_id] vo.ok_bind [OF vo.ok_get]
  okseq vo.ok_if vo.ok_raise vo.ok_return ok_pushB ok_pushI ok_pushBool okD [OF okS_tuck] okS_moves [THEN okD]

lemma okcount: "0 \<le> n \<Longrightarrow> okU k \<Longrightarrow> okU (countOp n k)"
proof -
  assume n: "0 \<le> n" and k: "okU k"
  have "countOp n k = (\<lambda>vm. if numOps vm + n > MaxOpsPerScript
      then (Inl (scriptError ErrTooManyOperations), vm\<lparr>numOps := numOps vm + n\<rparr>) else k (vm\<lparr>numOps := numOps vm + n\<rparr>))"
    by (simp add: countOp_def seqM_def goM_simps fun_eq_iff)
  moreover have "vm_ok (vm\<lparr>numOps := numOps vm + n\<rparr>) \<and> frame vm (vm\<lparr>numOps := numOps vm + n\<rparr>)"
    if "vm_ok vm" "\<not> numOps vm + n > MaxOpsPerScript" for vm
    using that n by (auto simp: vm_ok_def frame_def)
  ultimately show ?thesis
    using vo.okD_Inl [OF k] vo.okD_Inr [OF k] vo.Fr_trans
    by (intro vo.okI) (auto split: if_splits, blast+)
qed

section \<open>Contracts of the handlers\<close>

lemma okverify: "okU (abstractVerify c)"
  unfolding abstractVerify_def by (intro ok_rules) simp

lemma ok_popIfBool: "vo.ok (\<lambda>_. True) popIfBool"
  unfolding popIfBool_def by (intro ok_rules ok_popBool) simp_all

lemma ok_pushCond: "okU (pushCond c)"
  unfolding pushCond_def by (rule vo.ok_modify) (simp add: vm_ok_def frame_def)

lemma ok_unary: "(\<And>m. \<bar>m\<bar> < 2 ^ 31 \<Longrightarrow> \<bar>f m\<bar> < 2 ^ 39) \<Longrightarrow> okU (unaryNum f)"
  unfolding unaryNum_def by (intro ok_rules)

lemma ok_binary: "(\<And>v0 v1. \<bar>v0\<bar> < 2 ^ 31 \<Longrightarrow> \<bar>v1\<bar> < 2 ^ 31 \<Longrightarrow> \<bar>f v0 v1\<bar> < 2 ^ 39) \<Longrightarrow> okU (binaryNum f)"
  unfolding binaryNum_def by (intro ok_rules)

lemma ok_hashTop: "(\<And>x. length (h x) \<le> 520) \<Longrightarrow> okU (hashTop h)"
  unfolding hashTop_def by (intro ok_rules) (simp add: elem_ok_def MaxScriptElementSize_def)

subsection \<open>Pure checks\<close>

lemma checkSigInt_safe: "0 < len \<Longrightarrow> off + len \<le> length sig \<Longrightarrow> safeE (checkSigInt sig off len a b c)"
  unfolding checkSigInt_def by (intro safeE_if safeE_bindE safeE_indexE) auto

lemma checkSigInt_safe0: "off + len \<le> length sig \<Longrightarrow> safeE (checkSigInt sig off len a b c)"
  using checkSigInt_safe by (cases "len = 0") (simp_all add: checkSigInt_def)

lemma checkSignatureEncoding_safe: "safeE (checkSignatureEncoding vm sig)"
  unfolding checkSignatureEncoding_def Let_def
  by (intro safeE_if safeE_bindE safeE_indexE safeE_sliceE checkSigInt_safe0) (auto simp: pureE_iff)

lemma checkHashTypeEncoding_safe: "safeE (checkHashTypeEncoding vm h)"
  by (simp add: checkHashTypeEncoding_def Let_def)

lemma checkPubKeyEncoding_safe: "safeE (checkPubKeyEncoding vm k)"
  by (simp add: checkPubKeyEncoding_def)

lemma subScript_safe: "vm_ok vm \<Longrightarrow> safeE (subScript vm)"
  unfolding subScript_def
  by (intro safeE_bindE safeE_indexE safeE_sliceE) (auto simp: vm_ok_def pureE_iff)

lemma sliceI_safe: "0 \<le> i \<Longrightarrow> i \<le> j \<Longrightarrow> j \<le> int (length b) \<Longrightarrow> safeE (sliceI b i j)"
  by (simp add: sliceI_def)

lemma length_setScripts [simp]: "length (setScripts c i l) = length l" "length (zeroSequences i l) = length l"
  by (simp_all add: setScripts_def zeroSequences_def)

lemma calcSignatureHash_safe:
  "0 \<le> idx \<Longrightarrow> idx < int (length (TxIns tx)) \<Longrightarrow> safeE (calcSignatureHash s ht tx idx)"
  unfolding calcSignatureHash_def sigHashTx_def Let_def
  by (intro safeE_if safeE_bindE sliceI_safe)
    (auto simp: shallowCopyTx_def bindE_Inr_iff split: if_splits)

lemma calcWitnessSignatureHash_safe:
  "0 \<le> idx \<Longrightarrow> safeE (calcWitnessSignatureHash s h ht tx idx amt)"
  by (simp add: calcWitnessSignatureHash_def)

lemma currentTxIn_safe: "vm_ok vm \<Longrightarrow> safeE (currentTxIn vm)"
  by (simp add: currentTxIn_def vm_ok_def nat_less_iff)

lemma verifyLockTime_safe: "safeE (verifyLockTime a b c)"
  by (simp add: verifyLockTime_def)

lemma ok_liftE: "safeE r \<Longrightarrow> vo.ok (\<lambda>x. r = Inr x) (liftM r)"
  by (rule vo.ok_lift) (auto simp: safeE_def)

lemma ok_sigHashOf: "vo.ok (\<lambda>_. True) (sigHashOf script ht)"
  unfolding sigHashOf_def Let_def
  by (intro vo.ok_bind [OF vo.ok_get_id] vo.ok_weaken [OF ok_liftE] safeE_if
      calcWitnessSignatureHash_safe calcSignatureHash_safe) (simp_all add: vm_ok_def)

lemma ok_verifyCached: "vo.ok (\<lambda>_. True) (verifyCached C h s k)"
  unfolding verifyCached_def Let_def
  by (intro vo.ok_bind [OF vo.ok_get] vo.ok_option vo.ok_return vo.ok_if okseq vo.ok_modify) (auto simp: vm_ok_def frame_def)

lemma ok_peekNum5: "vo.ok (\<lambda>_. True) peekNum5"
  unfolding peekNum5_def
  by (intro okD so.ok_bind [OF okS_peek] so.ok_bind [OF so.ok_get] so.ok_weaken [OF so.ok_lift])
    (auto simp: makeScriptNum_no_panic)

lemmas ok_sig_rules = vo.ok_bind [OF ok_sigHashOf] vo.ok_bind [OF ok_verifyCached] vo.ok_bind [OF ok_liftE]
  checkHashTypeEncoding_safe checkSignatureEncoding_safe checkPubKeyEncoding_safe subScript_safe
  currentTxIn_safe verifyLockTime_safe vo.ok_bind [OF ok_peekNum5] vo.ok_sum vo.ok_option

lemma ok_checkSig: "okU (opcodeCheckSig C op)"
  unfolding opcodeCheckSig_def Let_def by (intro ok_rules ok_sig_rules) simp_all

lemma ok_parseOnce: "vo.ok (\<lambda>p. rawSignature (snd p) = rawSignature i) (parseOnce i)"
  unfolding parseOnce_def Let_def
  by (intro ok_rules ok_sig_rules vo.ok_weaken [OF vo.ok_return_is]) auto

lemma ok_multiSigLoop:
  assumes "pubKeyIdx + numPubKeys = length pubKeys + 1" "signatureIdx + numSignatures = length signatures"
  shows "vo.ok (\<lambda>_. True) (multiSigLoop C script pubKeys numPubKeys numSignatures pubKeyIdx signatureIdx signatures)"
  using assms
proof (induction numPubKeys arbitrary: numSignatures pubKeyIdx signatureIdx signatures)
  case 0
  show ?case by (simp add: vo.ok_return)
next
  case (Suc numPubKeys)
  show ?case
    unfolding multiSigLoop.simps Let_def
    apply (intro ok_rules ok_sig_rules vo.ok_bind [OF ok_parseOnce] vo.ok_prod)
    using Suc.prems by (auto intro!: Suc.IH)
qed

lemma ok_checkMultiSig: "okU (opcodeCheckMultiSig C op)"
  unfolding opcodeCheckMultiSig_def Let_def
  by (intro ok_rules ok_sig_rules okcount vo.ok_bind [OF vo.ok_repeat [OF ok_popB]] vo.ok_bind [OF ok_multiSigLoop])
    auto

subsection \<open>All handlers\<close>

lemma int64_32: "\<bar>x\<bar> < 2 ^ 39 \<Longrightarrow> int64 x = x"
  by (rule int64_id) auto

lemma ok_opcodeN: "okU (opcodeN op)"
proof -
  have "0 \<le> uint (pop_value op - (OP_1 - 1))" "uint (pop_value op - (OP_1 - 1)) < 2 ^ 8"
    using uint_lt2p [of "pop_value op - (OP_1 - 1)"] by simp_all
  then show ?thesis unfolding opcodeN_def by (intro ok_rules) simp
qed

definition crypto_ok :: "crypto \<Rightarrow> bool" where
  "crypto_ok C = (\<forall>x. length (ripemd160 C x) = 20)"

lemma ok_stack_handlers:
  "okU (opcodeToAltStack op)" "okU (opcodeFromAltStack op)" "okU (opcode2Drop op)" "okU (opcode2Dup op)"
  "okU (opcode3Dup op)" "okU (opcode2Over op)" "okU (opcode2Rot op)" "okU (opcode2Swap op)" "okU (opcodeIfDup op)"
  "okU (opcodeDrop op)" "okU (opcodeDup op)" "okU (opcodeNip op)" "okU (opcodeOver op)" "okU (opcodePick op)"
  "okU (opcodeRoll op)" "okU (opcodeRot op)" "okU (opcodeSwap op)" "okU (opcodeTuck op)"
  unfolding opcodeToAltStack_def opcodeFromAltStack_def opcode2Drop_def opcode2Dup_def opcode3Dup_def opcode2Over_def
    opcode2Rot_def opcode2Swap_def opcodeIfDup_def opcodeDrop_def opcodeDup_def opcodeNip_def opcodeOver_def
    opcodePick_def opcodeRoll_def opcodeRot_def opcodeSwap_def opcodeTuck_def
  by (intro ok_rules okA [OF okS_push] vo.ok_bind [OF okA [OF okS_nip [of 0, folded PopByteArray_def]]]; assumption?)+

lemma ok_opcodeSize: "okU (opcodeSize op)"
  unfolding opcodeSize_def by (intro ok_rules) (simp add: elem_ok_def MaxScriptElementSize_def)

lemma ok_equal: "okU (opcodeEqual op)" 
  unfolding opcodeEqual_def by (intro ok_rules)

lemma ok_num_handlers:
  "okU (opcode1Add op)" "okU (opcode1Sub op)" "okU (opcodeNegate op)" "okU (opcodeAbs op)" "okU (opcodeNot op)"
  "okU (opcode0NotEqual op)" "okU (opcodeAdd op)" "okU (opcodeSub op)" "okU (opcodeBoolAnd op)" "okU (opcodeBoolOr op)"
  "okU (opcodeNumEqual op)" "okU (opcodeNumNotEqual op)" "okU (opcodeLessThan op)"
  "okU (opcodeGreaterThan op)" "okU (opcodeLessThanOrEqual op)" "okU (opcodeGreaterThanOrEqual op)" "okU (opcodeMin op)"
  "okU (opcodeMax op)"
  unfolding opcode1Add_def opcode1Sub_def opcodeNegate_def opcodeAbs_def opcodeNot_def opcode0NotEqual_def opcodeAdd_def
    opcodeSub_def opcodeBoolAnd_def opcodeBoolOr_def opcodeNumEqual_def opcodeNumNotEqual_def opcodeLessThan_def
    opcodeGreaterThan_def opcodeLessThanOrEqual_def opcodeGreaterThanOrEqual_def opcodeMin_def opcodeMax_def
  by (intro ok_unary ok_binary; auto simp: int64_32)+

lemma ok_within: "okU (opcodeWithin op)"
  unfolding opcodeWithin_def by (intro ok_rules) simp

lemma ok_verify_handlers:
  "okU (opcodeEqualVerify op)" "okU (opcodeNumEqualVerify op)" "okU (opcodeCheckSigVerify C op)"
  "okU (opcodeCheckMultiSigVerify C op)" "okU (opcodeVerify op)"
  unfolding opcodeEqualVerify_def opcodeNumEqualVerify_def opcodeCheckSigVerify_def opcodeCheckMultiSigVerify_def opcodeVerify_def
  by (intro okseq ok_equal ok_num_handlers ok_checkSig ok_checkMultiSig okverify)+

lemma ok_hash_handlers:
  "crypto_ok C \<Longrightarrow> okU (opcodeRipemd160 C op)" "okU (opcodeSha1 op)" "okU (opcodeSha256 op)"
  "crypto_ok C \<Longrightarrow> okU (opcodeHash160 C op)" "okU (opcodeHash256 op)"
  unfolding opcodeRipemd160_def opcodeSha1_def opcodeSha256_def opcodeHash160_def opcodeHash256_def
  by (rule ok_hashTop, simp add: crypto_ok_def)+

lemma ok_flow_handlers:
  "okU (opcodeDisabled op)" "okU (opcodeReserved op)" "okU (opcodeInvalid op)" "okU (opcodeReturn op)"
  "okU (opcodeNop op)" "okU (opcodeIf op)" "okU (opcodeNotIf op)" "okU (opcodeElse op)" "okU (opcodeEndif op)"
  "okU (opcodeCodeSeparator op)" "okU (opcodeFalse op)" "okU (opcode1Negate op)"
  unfolding opcodeDisabled_def opcodeReserved_def opcodeInvalid_def opcodeReturn_def opcodeNop_def opcodeIf_def
    opcodeNotIf_def opcodeElse_def opcodeEndif_def opcodeCodeSeparator_def opcodeFalse_def opcode1Negate_def
  by (intro ok_rules vo.ok_bind [OF ok_popIfBool] ok_pushCond vo.ok_modify;
      simp add: vm_ok_def frame_def elem_ok_def)+

lemma ok_lock_handlers: "okU (opcodeCheckLockTimeVerify op)" "okU (opcodeCheckSequenceVerify op)"
  unfolding opcodeCheckLockTimeVerify_def opcodeCheckSequenceVerify_def Let_def
  by (intro ok_rules ok_sig_rules vo.ok_weaken [OF ok_liftE]; simp)+

lemma ok_pushData: "elem_ok (data op) \<Longrightarrow> okU (opcodePushData op)"
  unfolding opcodePushData_def by (intro ok_rules)

lemma opfuncs_ok:
  "crypto_ok C \<Longrightarrow> list_all (\<lambda>f. f = opcodeDepth \<or> (\<forall>op. elem_ok (data op) \<longrightarrow> okU (f op))) (opfuncs C)"
  by (simp add: opfuncs_def ok_stack_handlers ok_opcodeSize ok_equal ok_num_handlers ok_within ok_verify_handlers
      ok_hash_handlers ok_flow_handlers ok_lock_handlers ok_pushData ok_opcodeN ok_checkSig ok_checkMultiSig)

lemma length_opfuncs: "length (opfuncs C) = 256"
  by (simp add: opfuncs_def)

end
