(* ===== verification/Script_Exec.thy ===== *)
theory Script_Exec
  imports Script_Inv
begin

text \<open>
  Running scripts: one opcode, one step, a whole run, and the construction of an engine
  (\<^verbatim>\<open>executeOpcode\<close>, \<^verbatim>\<open>Step\<close>, \<^verbatim>\<open>Execute\<close>, \<^verbatim>\<open>NewEngine\<close> and their helpers in
  \<^verbatim>\<open>src/txscript/engine.go\<close>).  The calls that only write log messages are left out.
\<close>

section \<open>One opcode\<close>

definition executeOpcode :: "crypto \<Rightarrow> parsedOpcode \<Rightarrow> unit vmM" where
  "executeOpcode C pop =
     (if isDisabled pop then raiseM (scriptError ErrDisabledOpcode)
      else if alwaysIllegal pop then raiseM (scriptError ErrReservedOpcode)
      else
        let rest = bindM (getM id) (\<lambda>vm.
          if \<not> isBranchExecuting vm \<and> \<not> isConditional pop then returnM ()
          else bindM (if verifyMinimalData (dstack vm) \<and> isBranchExecuting vm \<and> pop_value pop \<le> OP_PUSHDATA4
                      then liftM (checkMinimalDataPush pop) else returnM ())
            (\<lambda>_. (opfuncs C ! unat (pop_value pop)) pop))
        in if pop_value pop > OP_16 then countOp 1 rest
           else if length (data pop) > MaxScriptElementSize then raiseM (scriptError ErrElementTooBig)
           else rest)"

section \<open>Stacks as arrays\<close>

text \<open>A call whose error the code drops.\<close>

definition dropErr :: "('s, 'e, unit) goM \<Rightarrow> ('s, 'e, unit) goM" where
  "dropErr m = (\<lambda>s. (Inr (), snd (m s)))"

definition getStack :: "stack \<Rightarrow> bytes list" where
  "getStack s = map (\<lambda>i. case fst (PeekByteArray (Depth s - int i - 1) s) of Inr so \<Rightarrow> so | Inl _ \<Rightarrow> [])
     [0..<nat (Depth s)]"

definition setStack :: "bytes list \<Rightarrow> unit stackM" where
  "setStack d = (\<lambda>s. fold (\<lambda>x r. PushByteArray x (snd r)) d (dropErr (DropN (Depth s)) s))"

definition GetStack :: "Engine \<Rightarrow> bytes list" where "GetStack vm = getStack (dstack vm)"
definition SetStack :: "bytes list \<Rightarrow> unit vmM" where "SetStack d = onD (setStack d)"
definition GetAltStack :: "Engine \<Rightarrow> bytes list" where "GetAltStack vm = getStack (astack vm)"
definition SetAltStack :: "bytes list \<Rightarrow> unit vmM" where "SetAltStack d = onA (setStack d)"

section \<open>One step\<close>

definition validPC :: "Engine \<Rightarrow> script_err + unit" where
  "validPC vm =
     (if scriptIdx vm \<ge> length (scripts vm) then Inl (scriptError ErrInvalidProgramCounter)
      else if scriptOff vm \<ge> length (scripts vm ! scriptIdx vm)
      then Inl (scriptError ErrInvalidProgramCounter) else Inr ())"

definition curPC :: "Engine \<Rightarrow> script_err + nat \<times> nat" where
  "curPC vm = bindE (validPC vm) (\<lambda>_. Inr (scriptIdx vm, scriptOff vm))"

definition appendScript :: "bytes \<Rightarrow> unit vmM" where
  "appendScript script = bindM (liftM (parseE script)) (\<lambda>pops.
     modifyM (\<lambda>vm. vm\<lparr>scripts := scripts vm @ [pops]\<rparr>))"

definition verifyWitnessProgram :: "bytes list \<Rightarrow> unit vmM" where
  "verifyWitnessProgram witness = bindM (getM id) (\<lambda>vm.
     seqM (if isWitnessVersionActive vm 0 then
         let prog = the (witnessProgram vm) in
         if length prog = payToWitnessPubKeyHashDataSize then
           (if length witness \<noteq> 2 then raiseM (scriptError ErrWitnessProgramMismatch)
            else bindM (liftM (payToPubKeyHashScript prog)) (\<lambda>pkScript.
              seqM (appendScript pkScript) (SetStack witness)))
         else if length prog = payToWitnessScriptHashDataSize then
           (if length witness = 0 then raiseM (scriptError ErrWitnessProgramEmpty)
            else let witnessScript = last witness in
              if length witnessScript > MaxScriptSize then raiseM (scriptError ErrScriptTooBig)
              else if Sum256 witnessScript \<noteq> prog then raiseM (scriptError ErrWitnessProgramMismatch)
              else seqM (appendScript witnessScript) (SetStack (butlast witness)))
         else raiseM (scriptError ErrWitnessProgramWrongLength)
       else if hasFlag vm ScriptVerifyDiscourageUpgradeableWitnessProgram
       then raiseM (scriptError ErrDiscourageUpgradableWitnessProgram)
       else modifyM (\<lambda>vm. vm\<lparr>witnessProgram := None\<rparr>))
     (bindM (getM id) (\<lambda>vm.
       if isWitnessVersionActive vm 0 \<and> list_ex (\<lambda>e. length e > MaxScriptElementSize) (GetStack vm)
       then raiseM (scriptError ErrElementTooBig) else returnM ())))"

definition CheckErrorCondition :: "bool \<Rightarrow> unit vmM" where
  "CheckErrorCondition finalScript = bindM (getM id) (\<lambda>vm.
     if scriptIdx vm < length (scripts vm) then raiseM (scriptError ErrScriptUnfinished)
     else if finalScript \<and> isWitnessVersionActive vm 0 \<and> Depth (dstack vm) \<noteq> 1
     then raiseM (scriptError ErrEvalFalse)
     else if finalScript \<and> hasFlag vm ScriptVerifyCleanStack \<and> Depth (dstack vm) \<noteq> 1
     then raiseM (scriptError ErrCleanStack)
     else if Depth (dstack vm) < 1 then raiseM (scriptError ErrEmptyStack)
     else bindM (onD PopBool) (\<lambda>v. if \<not> v then raiseM (scriptError ErrEvalFalse) else returnM ()))"

definition nextIdx :: "unit vmM" where
  "nextIdx = modifyM (\<lambda>vm. vm\<lparr>scriptIdx := scriptIdx vm + 1\<rparr>)"

text \<open>What follows the last opcode of a script; the result says whether the run is done.\<close>

definition switchScript :: "unit vmM" where
  "switchScript = bindM (getM id) (\<lambda>vm.
     if scriptIdx vm = 0 \<and> bip16 vm then
       seqM nextIdx (modifyM (\<lambda>vm. vm\<lparr>savedFirstStack := GetStack vm\<rparr>))
     else if scriptIdx vm = 1 \<and> bip16 vm then
       seqM nextIdx (seqM (CheckErrorCondition False) (
       bindM (liftM (if savedFirstStack vm = [] then Inl GoPanic else Inr (last (savedFirstStack vm)))) (\<lambda>script.
       seqM (appendScript script) (SetStack (butlast (savedFirstStack vm))))))
     else if scriptIdx vm = 1 \<and> witnessProgram vm \<noteq> None
          \<or> scriptIdx vm = 2 \<and> witnessProgram vm \<noteq> None \<and> bip16 vm then
       seqM nextIdx (bindM (liftM (currentTxIn vm)) (\<lambda>txIn. verifyWitnessProgram (Witness txIn)))
     else nextIdx)"

definition endOfScript :: "bool vmM" where
  "endOfScript = bindM (getM id) (\<lambda>vm.
     if length (condStack vm) \<noteq> 0 then raiseM (scriptError ErrUnbalancedConditional)
     else seqM (onA (dropErr (\<lambda>s. DropN (Depth s) s)))
       (seqM (modifyM (\<lambda>vm. vm\<lparr>numOps := 0, scriptOff := 0\<rparr>))
       (seqM switchScript
       (seqM (modifyM (\<lambda>vm. if scriptIdx vm < length (scripts vm)
                \<and> scriptOff vm \<ge> length (scripts vm ! scriptIdx vm)
              then vm\<lparr>scriptIdx := scriptIdx vm + 1\<rparr> else vm))
       (seqM (modifyM (\<lambda>vm. vm\<lparr>lastCodeSep := 0\<rparr>))
       (getM (\<lambda>vm. scriptIdx vm \<ge> length (scripts vm))))))))"

definition Step :: "crypto \<Rightarrow> bool vmM" where
  "Step C = bindM (getM id) (\<lambda>vm.
     bindM (liftM (validPC vm)) (\<lambda>_.
     let pop = scripts vm ! scriptIdx vm ! scriptOff vm in
     seqM (modifyM (\<lambda>vm. vm\<lparr>scriptOff := scriptOff vm + 1\<rparr>))
     (seqM (executeOpcode C pop)
     (bindM (getM id) (\<lambda>vm.
       let combinedStackSize = Depth (dstack vm) + Depth (astack vm) in
       if combinedStackSize > MaxStackSize then raiseM (scriptError ErrStackOverflow)
       else if scriptOff vm \<ge> length (scripts vm ! scriptIdx vm) then endOfScript
       else returnM False)))))"

section \<open>A whole run\<close>

text \<open>
  The loop of \<^verbatim>\<open>Execute\<close> may in principle not end, in which case it has the value \<^const>\<open>None\<close>;
  that it always ends is a theorem.
\<close>

partial_function (option) Execute :: "crypto \<Rightarrow> Engine \<Rightarrow> ((script_err + unit) \<times> Engine) option" where
  "Execute C vm = (case Step C vm of (r, vm') \<Rightarrow>
     (case r of Inl err \<Rightarrow> Some (Inl err, vm')
      | Inr done \<Rightarrow> if \<not> done then Execute C vm' else Some (CheckErrorCondition True vm')))"

section \<open>A new engine\<close>

fun parseScripts :: "bytes list \<Rightarrow> script_err + parsedOpcode list list" where
  "parseScripts [] = Inr []"
| "parseScripts (scr # rest) =
     (if length scr > MaxScriptSize then Inl (scriptError ErrScriptTooBig)
      else bindE (parseE scr) (\<lambda>pops. bindE (parseScripts rest) (\<lambda>ps. Inr (pops # ps))))"

text \<open>The witness program of an input, when there is one.\<close>

definition findWitnessProgram :: "Engine \<Rightarrow> bytes \<Rightarrow> bytes \<Rightarrow> bytes list \<Rightarrow> script_err + bytes option" where
  "findWitnessProgram vm scriptSig scriptPubKey witness =
     (if isWitnessProgram (scripts vm ! 1) then
        (if length scriptSig \<noteq> 0 then Inl (scriptError ErrWitnessMalleated) else Inr (Some scriptPubKey))
      else if length witness \<noteq> 0 \<and> bip16 vm then
        (let sigPops = scripts vm ! 0 in
         if length sigPops = 1 \<and> canonicalPush (sigPops ! 0) \<and> IsWitnessProgram (data (sigPops ! 0))
         then Inr (Some (data (sigPops ! 0)))
         else Inl (scriptError ErrWitnessMalleatedP2SH))
      else Inr None)"

definition setWitness :: "bytes \<Rightarrow> bytes \<Rightarrow> bytes list \<Rightarrow> Engine \<Rightarrow> script_err + Engine" where
  "setWitness scriptSig scriptPubKey witness vm =
     (if hasFlag vm ScriptVerifyWitness then
        (if \<not> hasFlag vm ScriptBip16 then Inl (scriptError ErrInvalidFlags)
         else bindE (findWitnessProgram vm scriptSig scriptPubKey witness) (\<lambda>witProgram.
           case witProgram of
             Some prog \<Rightarrow> bindE (ExtractWitnessProgramInfo prog) (\<lambda>(version, program).
               Inr (vm\<lparr>witnessVersion := version, witnessProgram := Some program\<rparr>))
           | None \<Rightarrow> if witnessProgram vm = None \<and> length witness \<noteq> 0
                     then Inl (scriptError ErrWitnessUnexpected) else Inr vm))
      else Inr vm)"

text \<open>The value of \<^verbatim>\<open>Engine\<close> with the given fields set and the others zero.\<close>

definition zeroEngine :: "ScriptFlags \<Rightarrow> SigCache option \<Rightarrow> TxSigHashes option \<Rightarrow> 64 word \<Rightarrow> Engine" where
  "zeroEngine fs sc hc amt =
     \<lparr>scripts = [], scriptIdx = 0, scriptOff = 0, lastCodeSep = 0,
      dstack = \<lparr>stk = [], verifyMinimalData = False\<rparr>, astack = \<lparr>stk = [], verifyMinimalData = False\<rparr>,
      vm_tx = \<lparr>Version = 0, TxIns = [], TxOuts = [], LockTime = 0\<rparr>, txIdx = 0, condStack = [], numOps = 0, flags = fs,
      sigCache = sc, hashCache = hc, bip16 = False, savedFirstStack = [], witnessVersion = 0,
      witnessProgram = None, inputAmount = amt\<rparr>"

text \<open>Installs the parsed scripts, the pay-to-script-hash mode and the minimal data checks.\<close>

definition setScriptsOf :: "bytes \<Rightarrow> parsedOpcode list list \<Rightarrow> Engine \<Rightarrow> script_err + Engine" where
  "setScriptsOf scriptSig ss vm =
     (let vm = vm\<lparr>scripts := ss, scriptIdx := (if length scriptSig = 0 then 1 else 0)\<rparr>;
          p2sh = hasFlag vm ScriptBip16 \<and> isScriptHash (scripts vm ! 1) in
      if p2sh \<and> \<not> isPushOnly (scripts vm ! 0) then Inl (scriptError ErrNotPushOnly)
      else
        let vm = vm\<lparr>bip16 := p2sh\<rparr> in
        if hasFlag vm ScriptVerifyMinimalData
        then Inr (vm\<lparr>dstack := dstack vm\<lparr>verifyMinimalData := True\<rparr>,
                     astack := astack vm\<lparr>verifyMinimalData := True\<rparr>\<rparr>)
        else Inr vm)"

definition NewEngine :: "bytes \<Rightarrow> MsgTx \<Rightarrow> int \<Rightarrow> ScriptFlags \<Rightarrow> SigCache option \<Rightarrow> TxSigHashes option
    \<Rightarrow> 64 word \<Rightarrow> script_err + Engine" where
  "NewEngine scriptPubKey tx idx fs sc hc amt =
     (if idx < 0 \<or> idx \<ge> int (length (TxIns tx)) then Inl (scriptError ErrInvalidIndex)
      else
        let txIn = TxIns tx ! nat idx; scriptSig = SignatureScript txIn; vm = zeroEngine fs sc hc amt in
        if length scriptSig = 0 \<and> length scriptPubKey = 0 then Inl (scriptError ErrEvalFalse)
        else if hasFlag vm ScriptVerifyCleanStack \<and> (\<not> hasFlag vm ScriptBip16 \<and> \<not> hasFlag vm ScriptVerifyWitness)
        then Inl (scriptError ErrInvalidFlags)
        else if hasFlag vm ScriptVerifySigPushOnly \<and> \<not> IsPushOnlyScript scriptSig
        then Inl (scriptError ErrNotPushOnly)
        else bindE (parseScripts [scriptSig, scriptPubKey]) (\<lambda>ss.
          bindE (setScriptsOf scriptSig ss vm) (\<lambda>vm.
          bindE (setWitness scriptSig scriptPubKey (Witness txIn) vm) (\<lambda>vm.
          Inr (vm\<lparr>vm_tx := tx, txIdx := idx\<rparr>)))))"

end
