(* ===== verification/Script_Safety.thy ===== *)
theory Script_Safety
  imports Script_Exec
begin

unbundle bit_operations_syntax

text \<open>
  What holds during a run of the script engine: the helpers in closed form, the contract of one
  opcode and of one step, the invariant \<open>run_ok\<close> that every step keeps, the measure
  \<open>steps_left\<close> that every step decreases, and that a run of a new engine ends without a panic.
\<close>

section \<open>Lemmas on the helpers\<close>

lemma getStack_eq: "getStack s = stk s"
proof (rule nth_equalityI)
  show "length (getStack s) = length (stk s)" by (simp add: getStack_def Depth_def)
  fix i assume "i < length (getStack s)"
  then have i: "i < length (stk s)" by (simp add: getStack_def Depth_def)
  have "stk s = take i (stk s) @ stk s ! i # drop (Suc i) (stk s)" using i by (rule id_take_nth_drop)
  from es.peek_ok [OF this] have "PeekByteArray (int (length (stk s)) - int i - 1) s = (Inr (stk s ! i), s)"
    using i by (simp add: of_nat_diff diff_diff_eq add.commute)
  then show "getStack s ! i = stk s ! i" using i by (simp add: getStack_def Depth_def)
qed

lemma clear_eq: "dropErr (DropN (Depth s)) s = (Inr (), s\<lparr>stk := []\<rparr>)"
proof (cases "stk s = []")
  case True
  then show ?thesis by (simp add: dropErr_def DropN_def Depth_def raiseM_apply)
next
  case False
  then have "\<not> Depth s < 1" by (simp add: Depth_def Suc_le_eq flip: of_nat_less_iff)
  moreover have "repeatM (nat (Depth s)) PopByteArray s = (Inr (rev (stk s)), s\<lparr>stk := []\<rparr>)"
    using es.nip0_drop [of s "[]" "stk s"] by (simp add: PopByteArray_def Depth_def)
  ultimately show ?thesis by (simp add: dropErr_def DropN_def bindM_Inr returnM_apply)
qed

lemma setStack_eq: "setStack d s = (Inr (), s\<lparr>stk := d\<rparr>)"
proof -
  have "fold (\<lambda>x r. PushByteArray x (snd r)) d (Inr (), t) = (Inr (), t\<lparr>stk := stk t @ d\<rparr>)" for t
    by (induction d arbitrary: t) (simp_all add: PushByteArray_def modifyM_apply)
  then show ?thesis by (simp add: setStack_def clear_eq)
qed

lemma GetStack_eq: "GetStack vm = stk (dstack vm)"
  by (simp add: GetStack_def getStack_eq)

lemma SetStack_eq: "SetStack d vm = (Inr (), vm\<lparr>dstack := dstack vm\<lparr>stk := d\<rparr>\<rparr>)"
  by (simp add: SetStack_def onD_def zoomM_apply setStack_eq)

lemma appendScript_cases:
  assumes "appendScript s vm = (r, vm')"
  obtains e where "r = Inl e" "e \<noteq> GoPanic"
  | pops where "r = Inr ()" "parseScript s = (pops, None)" "vm' = vm\<lparr>scripts := scripts vm @ [pops]\<rparr>"
  using assms parseE_no_panic [of s]
  by (auto simp: appendScript_def goM_simps parseE_Inr split: sum.splits)

text \<open>How running one opcode can end: before the handler, without a handler, or in the handler.\<close>

lemma executeOpcode_cases:
  assumes "executeOpcode C pop vm = (r, vm')" "vm_ok vm"
  obtains (fail) e where "r = Inl e" "e \<noteq> GoPanic"
  | (skip) n where "r = Inr ()" "vm' = vm\<lparr>numOps := n\<rparr>" "numOps vm \<le> n" "n \<le> MaxOpsPerScript" "\<not> isBranchExecuting vm"
  | (run) n where "(opfuncs C ! unat (pop_value pop)) pop (vm\<lparr>numOps := n\<rparr>) = (r, vm')" "numOps vm \<le> n" "n \<le> MaxOpsPerScript"
      "pop_value pop > OP_16 \<or> length (data pop) \<le> MaxScriptElementSize" "isBranchExecuting vm \<or> isConditional pop"
proof -
  define rest where "rest = bindM (getM id) (\<lambda>vm.
          if \<not> isBranchExecuting vm \<and> \<not> isConditional pop then returnM ()
          else bindM (if verifyMinimalData (dstack vm) \<and> isBranchExecuting vm \<and> pop_value pop \<le> OP_PUSHDATA4
                      then liftM (checkMinimalDataPush pop) else returnM ())
            (\<lambda>_. (opfuncs C ! unat (pop_value pop)) pop))"
  have [simp]: "isBranchExecuting (vm\<lparr>numOps := n\<rparr>) = isBranchExecuting vm" for n by (simp add: isBranchExecuting_def)
  have mp: "checkMinimalDataPush pop \<noteq> Inl GoPanic" by (auto simp: checkMinimalDataPush_def Let_def)
  have rest: thesis if "rest (vm\<lparr>numOps := n\<rparr>) = (r, vm')" "numOps vm \<le> n" "n \<le> MaxOpsPerScript"
      "pop_value pop > OP_16 \<or> length (data pop) \<le> MaxScriptElementSize" for n
  proof (cases "\<not> isBranchExecuting vm \<and> \<not> isConditional pop")
    case True
    then show thesis using that by (intro skip [of n]) (simp_all add: rest_def goM_simps)
  next
    case False
    show thesis
    proof (cases "\<exists>e. r = Inl e \<and> e \<noteq> GoPanic")
      case True
      then show thesis using fail by blast
    next
      case 2: False
      then have "(opfuncs C ! unat (pop_value pop)) pop (vm\<lparr>numOps := n\<rparr>) = (r, vm')"
        using that(1) False mp unfolding rest_def
        by (auto simp: goM_simps split: if_splits sum.splits)
      then show thesis using that False by (intro run [of n]) auto
    qed
  qed
  consider "isDisabled pop \<or> alwaysIllegal pop" | "\<not> (isDisabled pop \<or> alwaysIllegal pop)" "pop_value pop > OP_16"
    | "\<not> (isDisabled pop \<or> alwaysIllegal pop)" "\<not> pop_value pop > OP_16" "length (data pop) > MaxScriptElementSize"
    | "\<not> (isDisabled pop \<or> alwaysIllegal pop)" "\<not> pop_value pop > OP_16" "\<not> length (data pop) > MaxScriptElementSize"
    by blast
  then show thesis
  proof cases
    case 1
    then have "\<exists>c. executeOpcode C pop = raiseM (scriptError c)"
      by (cases "isDisabled pop") (auto simp: executeOpcode_def)
    then obtain c where "executeOpcode C pop = raiseM (scriptError c)" ..
    then show thesis using assms(1) by (intro fail [of "scriptError c"]) (simp_all add: raiseM_apply)
  next
    case 2
    then have "executeOpcode C pop = countOp 1 rest" by (simp add: executeOpcode_def rest_def [symmetric])
    moreover have "countOp 1 rest vm = (if numOps vm + 1 > MaxOpsPerScript
      then (Inl (scriptError ErrTooManyOperations), vm\<lparr>numOps := numOps vm + 1\<rparr>) else rest (vm\<lparr>numOps := numOps vm + 1\<rparr>))"
      by (simp add: countOp_def seqM_def goM_simps)
    ultimately show thesis
      using assms(1) rest [of "numOps vm + 1"] fail [of "scriptError ErrTooManyOperations"] 2
      by (cases "numOps vm + 1 > MaxOpsPerScript") auto
  next
    case 3
    then have "executeOpcode C pop = raiseM (scriptError ErrElementTooBig)" by (simp add: executeOpcode_def)
    then show thesis using assms(1) by (intro fail [of "scriptError ErrElementTooBig"]) (simp_all add: raiseM_apply)
  next
    case 4
    then have "executeOpcode C pop = rest" by (simp add: executeOpcode_def rest_def [symmetric])
    then show thesis using assms 4 by (intro rest [of "numOps vm"]) (simp_all add: vm_ok_def)
  qed
qed


definition small :: "Engine \<Rightarrow> bool" where
  "small vm = (length (stk (dstack vm)) < 2 ^ 31)"

lemma opcodeDepth_ok:
  assumes "vm_ok vm" "small vm" "opcodeDepth op vm = (r, vm')"
  shows "case r of Inl e \<Rightarrow> e \<noteq> GoPanic | Inr _ \<Rightarrow> vm_ok vm' \<and> frame vm vm'"
proof -
  have d: "onD (getM Depth) vm = (Inr (Depth (dstack vm)), vm)" by (simp add: onD_def goM_simps)
  have "pushI (Depth (dstack vm)) vm = (r, vm')"
    using assms(3) by (simp add: opcodeDepth_def bindM_apply d)
  moreover have "okU (pushI (Depth (dstack vm)))"
    using assms(2) by (intro ok_pushI) (simp add: Depth_def small_def)
  ultimately show ?thesis
    using vo.ok_result [OF _ assms(1)] by (fastforce split: sum.splits)
qed

lemma handler_ok:
  assumes "crypto_ok C" "vm_ok vm" "small vm" "elem_ok (data pop)"
    "(opfuncs C ! unat (pop_value pop)) pop vm = (r, vm')"
  shows "case r of Inl e \<Rightarrow> e \<noteq> GoPanic | Inr _ \<Rightarrow> vm_ok vm' \<and> frame vm vm'"
proof -
  define f where "f = opfuncs C ! unat (pop_value pop)"
  have "f = opcodeDepth \<or> (\<forall>op. elem_ok (data op) \<longrightarrow> okU (f op))"
    using opfuncs_ok [OF assms(1)] unat_byte_less [of "pop_value pop"]
    by (auto simp: f_def list_all_length length_opfuncs)
  then consider "f = opcodeDepth" | "okU (f pop)" using assms(4) by blast
  then show ?thesis
  proof cases
    case 1
    then show ?thesis using opcodeDepth_ok [OF assms(2,3)] assms(5) by (simp add: f_def)
  next
    case 2
    then show ?thesis using vo.ok_result [OF 2 assms(2)] assms(5) unfolding f_def by (auto split: sum.splits)
  qed
qed

lemma wf_pop_data: "wf_pop pop \<Longrightarrow> pop_value pop > OP_16 \<Longrightarrow> data pop = []"
  using wf_pop_single [of pop] by (simp add: table_length_def word_less_nat_alt)

lemma executeOpcode_ok:
  assumes "crypto_ok C" "vm_ok vm" "small vm" "wf_pop pop" "executeOpcode C pop vm = (r, vm')"
  shows "case r of Inl e \<Rightarrow> e \<noteq> GoPanic | Inr _ \<Rightarrow> vm_ok vm' \<and> frame vm vm'"
  using assms(5,2)
proof (cases rule: executeOpcode_cases)
  case (fail e)
  then show ?thesis by simp
next
  case (skip n)
  then show ?thesis using assms(2) by (simp add: vm_ok_def frame_def)
next
  case (run n)
  have "vm_ok (vm\<lparr>numOps := n\<rparr>)" "small (vm\<lparr>numOps := n\<rparr>)" "frame vm (vm\<lparr>numOps := n\<rparr>)"
    using assms(2,3) run by (auto simp: vm_ok_def small_def frame_def)
  moreover have "elem_ok (data pop)"
    using run(4) wf_pop_data [OF assms(4)] by (auto simp: elem_ok_def)
  ultimately show ?thesis
    using handler_ok [OF assms(1) _ _ _ run(1)] by (cases r) (auto intro: vo.Fr_trans)
qed

section \<open>Switching to the next script\<close>

lemma bindM_elim:
  assumes "bindM m f s = (r, s'')"
  obtains e where "m s = (Inl e, s'')" "r = Inl e"
  | x s' where "m s = (Inr x, s')" "f x s' = (r, s'')"
  using assms by (auto simp: bindM_apply split: prod.splits sum.splits)

lemma seqM_elim:
  assumes "seqM m k s = (r, s'')"
  obtains e where "m s = (Inl e, s'')" "r = Inl e"
  | s' where "m s = (Inr (), s')" "k s' = (r, s'')"
  using assms unfolding seqM_def by (auto elim!: bindM_elim)

lemma seqM_modify: "seqM (modifyM f) k vm = k (f vm)"
  by (simp add: seqM_def bindM_apply modifyM_apply)

lemma bindM_get: "bindM (getM f) k vm = k (f vm) vm"
  by (simp add: bindM_apply getM_apply)

lemma onD_PopBool_cases:
  assumes "onD PopBool vm = (r, vm')" "elems_ok (dstack vm)"
  obtains (fail) e where "r = Inl e" "e \<noteq> GoPanic"
  | (pass) b d where "r = Inr b" "vm' = vm\<lparr>dstack := d\<rparr>" "elems_ok d" "verifyMinimalData d = verifyMinimalData (dstack vm)"
proof -
  from assms(1) obtain d where d: "PopBool (dstack vm) = (r, d)" and v: "vm' = vm\<lparr>dstack := d\<rparr>"
    unfolding onD_def by (rule zoom_cases) simp
  show thesis
  proof (cases r)
    case (Inl e)
    with d have "PopBool (dstack vm) = (Inl e, d)" by simp
    from so.okD_Inl [OF okS_popBool assms(2) this] show thesis by (rule fail [OF Inl])
  next
    case (Inr b)
    with d have "PopBool (dstack vm) = (Inr b, d)" by simp
    from so.okD_Inr [OF okS_popBool assms(2) this] show thesis using pass [OF Inr v] by simp
  qed
qed

lemma CheckErrorCondition_cases:
  assumes "CheckErrorCondition b vm = (r, vm')" "elems_ok (dstack vm)"
  obtains (fail) e where "r = Inl e" "e \<noteq> GoPanic"
  | (pass) d where "r = Inr ()" "vm' = vm\<lparr>dstack := d\<rparr>" "elems_ok d" "verifyMinimalData d = verifyMinimalData (dstack vm)"
     "scriptIdx vm \<ge> length (scripts vm)"
proof -
  define m where "m = bindM (onD PopBool) (\<lambda>v. if \<not> v then raiseM (scriptError ErrEvalFalse) else returnM ())"
  have fail': thesis if "r = Inl (scriptError c)" for c using that fail by simp
  have "(\<exists>c. r = Inl (scriptError c)) \<or> m vm = (r, vm') \<and> scriptIdx vm \<ge> length (scripts vm)"
    using assms(1) unfolding CheckErrorCondition_def m_def [symmetric] bindM_get
    by (auto simp: raiseM_apply split: if_splits)
  then show thesis
  proof
    assume "m vm = (r, vm') \<and> scriptIdx vm \<ge> length (scripts vm)"
    then have m: "m vm = (r, vm')" and i: "scriptIdx vm \<ge> length (scripts vm)" by auto
    from m [unfolded m_def] show thesis
    proof (cases rule: bindM_elim)
      case (1 e)
      from 1(1) assms(2) show thesis using 1(2) fail by (cases rule: onD_PopBool_cases) auto
    next
      case (2 v vm1)
      from 2(1) assms(2) show thesis
      proof (cases rule: onD_PopBool_cases)
        case (pass b d)
        then show thesis
          using \<open>(if \<not> v then _ else _) vm1 = _\<close> i that(2) [of d] fail'
          by (cases v) (auto simp: raiseM_apply returnM_apply)
      qed simp
    qed
  qed (use fail' in blast)
qed

definition tx_small :: "MsgTx \<Rightarrow> bool" where
  "tx_small tx = list_all (\<lambda>i. length (Witness i) < 2 ^ 31) (TxIns tx)"

text \<open>What moving to the next script keeps and changes.\<close>

definition added :: "Engine \<Rightarrow> parsedOpcode list list \<Rightarrow> bool" where
  "added vm new = (new = [] \<or> scriptIdx vm \<in> {1, 2} \<and> 
     (\<exists>pops. new = [pops] \<and> list_all wf_pop pops \<and> length pops \<le> MaxScriptSize))"

definition switched :: "Engine \<Rightarrow> Engine \<Rightarrow> bool" where
  "switched vm vm' = (\<exists>d wp new saved. vm' = vm\<lparr>scriptIdx := Suc (scriptIdx vm), dstack := d, witnessProgram := wp,
       scripts := scripts vm @ new, savedFirstStack := saved\<rparr> \<and> elems_ok d \<and> length (stk d) < 2 ^ 31 \<and>
     verifyMinimalData d = verifyMinimalData (dstack vm) \<and>
     list_all elem_ok saved \<and> length saved < 2 ^ 31 \<and> added vm new \<and>
     (scriptIdx vm = 0 \<and> bip16 vm \<longrightarrow> stk d = saved))"

definition saved_ok :: "Engine \<Rightarrow> bool" where
  "saved_ok vm = (list_all elem_ok (savedFirstStack vm) \<and> length (savedFirstStack vm) < 2 ^ 31)"

lemma switchedI:
  assumes "vm' = vm\<lparr>scriptIdx := Suc (scriptIdx vm), dstack := d, witnessProgram := wp,
       scripts := scripts vm @ new, savedFirstStack := saved\<rparr>" "elems_ok d" "length (stk d) < 2 ^ 31"
     "verifyMinimalData d = verifyMinimalData (dstack vm)"
     "list_all elem_ok saved" "length saved < 2 ^ 31" "added vm new"
     "scriptIdx vm = 0 \<Longrightarrow> bip16 vm \<Longrightarrow> stk d = saved"
  shows "switched vm vm'"
  unfolding switched_def
  by (rule exI [of _ d], rule exI [of _ wp], rule exI [of _ new], rule exI [of _ saved]) (use assms in simp)

lemma list_all_butlast: "list_all P xs \<Longrightarrow> list_all P (butlast xs)"
  by (auto simp: list_all_iff dest: in_set_butlastD)

lemma bindM_lift_Inr: "bindM (liftM (Inr x)) f = f x"
  by (rule ext) (simp add: goM_simps)

lemma pop_bytes_nonempty: "pop_bytes p = Inr b \<Longrightarrow> b \<noteq> []"
  by (auto simp: pop_bytes_def Let_def split: if_splits)

lemma parse_length: "parseScript s = (pops, None) \<Longrightarrow> length pops \<le> length s"
proof -
  have "unparseScript pops = Inr s \<Longrightarrow> length pops \<le> length s"
  proof (induction pops arbitrary: s)
    case (Cons p ps)
    then obtain b t where "pop_bytes p = Inr b" "unparseScript ps = Inr t" "s = b @ t"
      by (auto split: sum.splits)
    then show ?case using Cons.IH [of t] pop_bytes_nonempty [of p b] by (cases b) auto
  qed simp
  then show "parseScript s = (pops, None) \<Longrightarrow> length pops \<le> length s" using parse_iff by blast
qed

lemma appendSet_cases:
  assumes "seqM (appendScript s) (SetStack w) vm = (r, vm')"
  obtains (fail) e where "r = Inl e" "e \<noteq> GoPanic"
  | (pass) pops where "r = Inr ()" "list_all wf_pop pops" "length pops \<le> length s"
      "vm' = vm\<lparr>scripts := scripts vm @ [pops], dstack := dstack vm\<lparr>stk := w\<rparr>\<rparr>"
  using assms
proof (cases rule: seqM_elim)
  case (1 e)
  from 1(1) show thesis using fail 1(2) by (cases rule: appendScript_cases) auto
next
  case (2 vm1)
  from 2(1) show thesis
  proof (cases rule: appendScript_cases)
    case (2 pops)
    then have "list_all wf_pop pops" "length pops \<le> length s" using parse_iff [of s pops] parse_length by simp_all
    then show thesis using pass [of pops] 2 \<open>SetStack w vm1 = _\<close> by (simp add: SetStack_eq)
  qed simp
qed

lemma berr_no_panic:
  "berr b \<noteq> Some GoPanic \<Longrightarrow> berr (AddOp op b) \<noteq> Some GoPanic"
  "berr b \<noteq> Some GoPanic \<Longrightarrow> berr (AddData d b) \<noteq> Some GoPanic"
  by (auto simp: AddOp_def AddData_def addData_def Let_def)

lemma p2pkh_no_panic: "payToPubKeyHashScript h \<noteq> Inl GoPanic"
proof -
  let ?b = "AddOp OP_CHECKSIG (AddOp OP_EQUALVERIFY (AddData h (AddOp OP_HASH160 (AddOp OP_DUP NewScriptBuilder))))"
  have "berr ?b \<noteq> Some GoPanic" by (intro berr_no_panic) (simp add: NewScriptBuilder_def)
  then show ?thesis unfolding payToPubKeyHashScript_def Builder_Script_def by (cases "berr ?b") auto
qed

lemma p2pkh_length: "payToPubKeyHashScript h = Inr s \<Longrightarrow> length s \<le> MaxScriptSize"
  unfolding payToPubKeyHashScript_def Builder_Script_def
  by (subst (asm) (1 2) AddOp_def) (auto split: option.splits if_splits)

lemma verifyWitnessProgram_cases:
  assumes "verifyWitnessProgram w vm = (r, vm')" "elems_ok (dstack vm)"
  obtains (fail) e where "r = Inl e" "e \<noteq> GoPanic"
  | (run) d pops where "r = Inr ()" "list_all wf_pop pops" "length pops \<le> MaxScriptSize" "elems_ok (dstack vm\<lparr>stk := d\<rparr>)" "length d \<le> length w"
      "vm' = vm\<lparr>scripts := scripts vm @ [pops], dstack := dstack vm\<lparr>stk := d\<rparr>\<rparr>"
  | (pass) "r = Inr ()" "vm' = vm\<lparr>witnessProgram := None\<rparr>"
proof -
  let ?check = "bindM (getM id) (\<lambda>vm.
       if isWitnessVersionActive vm 0 \<and> list_ex (\<lambda>e. length e > MaxScriptElementSize) (GetStack vm)
       then raiseM (scriptError ErrElementTooBig) else returnM ())"
  let ?prog = "the (witnessProgram vm)"
  have fail': thesis if "r = Inl (scriptError c)" for c using that fail by simp
  have act: "isWitnessVersionActive (vm\<lparr>scripts := a, dstack := b\<rparr>) = isWitnessVersionActive vm" for a b
    by (rule ext) (simp add: isWitnessVersionActive_def)
  have use: thesis if a: "isWitnessVersionActive vm 0" and m: "seqM (seqM (appendScript s) (SetStack d)) ?check vm = (r, vm')"
     and l: "length d \<le> length w" "length s \<le> MaxScriptSize" for s d
    using m
  proof (cases rule: seqM_elim)
    case (1 e)
    from 1(1) show thesis using fail 1(2) by (cases rule: appendSet_cases) auto
  next
    case (2 vm1)
    from 2(1) show thesis
    proof (cases rule: appendSet_cases)
      case (pass pops)
      show thesis
      proof (cases "list_ex (\<lambda>e. length e > MaxScriptElementSize) d")
        case True
        then show thesis using 2(2) pass a
          by (intro fail' [of ErrElementTooBig]) (simp add: bindM_get act GetStack_eq raiseM_apply)
      next
        case False
        then have "elems_ok (dstack vm\<lparr>stk := d\<rparr>)"
          by (auto simp: elems_ok_def elem_ok_def list_ex_iff list_all_iff not_less)
        then show thesis using 2(2) pass a False l run [of pops d]
          by (simp add: bindM_get act GetStack_eq returnM_apply)
      qed
    qed simp
  qed
  note m = assms(1) [simplified verifyWitnessProgram_def bindM_get id_apply]
  have seq_raise: "seqM (raiseM e) k vm = (Inl e, vm)" for e and k :: "unit vmM"
    by (simp add: seqM_def bindM_apply raiseM_apply)
  consider "isWitnessVersionActive vm 0" "length ?prog = payToWitnessPubKeyHashDataSize" "length w \<noteq> 2"
    | "isWitnessVersionActive vm 0" "length ?prog = payToWitnessPubKeyHashDataSize" "length w = 2"
    | "isWitnessVersionActive vm 0" "length ?prog = payToWitnessScriptHashDataSize" "w = [] \<or> length (last w) > MaxScriptSize \<or> Sum256 (last w) \<noteq> ?prog"
    | "isWitnessVersionActive vm 0" "length ?prog = payToWitnessScriptHashDataSize" "\<not> (w = [] \<or> length (last w) > MaxScriptSize \<or> Sum256 (last w) \<noteq> ?prog)"
    | "isWitnessVersionActive vm 0" "length ?prog \<noteq> payToWitnessPubKeyHashDataSize" "length ?prog \<noteq> payToWitnessScriptHashDataSize"
    | "\<not> isWitnessVersionActive vm 0" "hasFlag vm ScriptVerifyDiscourageUpgradeableWitnessProgram"
    | "\<not> isWitnessVersionActive vm 0" "\<not> hasFlag vm ScriptVerifyDiscourageUpgradeableWitnessProgram"
    by blast
  then show thesis
  proof cases
    case 1
    then show thesis using m by (intro fail' [of ErrWitnessProgramMismatch]) (simp add: seq_raise)
  next
    case 2
    show thesis
    proof (cases "payToPubKeyHashScript ?prog")
      case (Inl e)
      then have "e \<noteq> GoPanic" using p2pkh_no_panic by metis
      then show thesis using 2 m Inl by (intro fail [of e]) (simp_all add: Let_def seqM_def bindM_apply liftM_def)
    next
      case (Inr s)
      then show thesis using 2 m use [of s w] p2pkh_length [OF Inr] by (simp add: Let_def bindM_lift_Inr)
    qed
  next
    case 3
    then show thesis using m fail' by (auto simp: seq_raise Let_def payToWitnessScriptHashDataSize_def payToWitnessPubKeyHashDataSize_def split: if_splits)
  next
    case 4
    then have "length w \<noteq> 0" by simp
    then show thesis using 4 m use [of "last w" "butlast w"] by (simp add: Let_def payToWitnessScriptHashDataSize_def payToWitnessPubKeyHashDataSize_def)
  next
    case 5
    then show thesis using m by (intro fail' [of ErrWitnessProgramWrongLength]) (simp add: seq_raise Let_def)
  next
    case 6
    then show thesis using m by (intro fail' [of ErrDiscourageUpgradableWitnessProgram]) (simp add: seq_raise)
  next
    case 7
    have "\<not> isWitnessVersionActive (vm\<lparr>witnessProgram := None\<rparr>) 0" by (simp add: isWitnessVersionActive_def)
    then show thesis using 7 m pass by (simp add: seqM_modify bindM_get returnM_apply)
  qed
qed

lemma switchScript_cases:
  assumes "switchScript vm = (r, vm')" "elems_ok (dstack vm)" "length (stk (dstack vm)) < 2 ^ 31" "saved_ok vm"
    "0 \<le> txIdx vm" "txIdx vm < int (length (TxIns (vm_tx vm)))" "tx_small (vm_tx vm)"
    "scriptIdx vm = 1 \<and> bip16 vm \<Longrightarrow> savedFirstStack vm \<noteq> []"
  shows "case r of Inl e \<Rightarrow> e \<noteq> GoPanic | Inr _ \<Rightarrow> switched vm vm'"
proof -
  let ?vm = "vm\<lparr>scriptIdx := Suc (scriptIdx vm)\<rparr>"
  note m = assms(1) [unfolded switchScript_def bindM_get id_apply nextIdx_def seqM_modify]
  let ?w = "scriptIdx vm = 1 \<and> witnessProgram vm \<noteq> None
          \<or> scriptIdx vm = 2 \<and> witnessProgram vm \<noteq> None \<and> bip16 vm"
  consider "scriptIdx vm = 0 \<and> bip16 vm" | "scriptIdx vm = 1 \<and> bip16 vm"
    | "\<not> (scriptIdx vm = 0 \<and> bip16 vm)" "\<not> (scriptIdx vm = 1 \<and> bip16 vm)" ?w
    | "\<not> (scriptIdx vm = 0 \<and> bip16 vm)" "\<not> (scriptIdx vm = 1 \<and> bip16 vm)" "\<not> ?w" by blast
  then show ?thesis
  proof cases
    case 1
    then have "r = Inr ()" "vm' = ?vm\<lparr>savedFirstStack := stk (dstack vm)\<rparr>"
      using m by (simp_all add: modifyM_apply GetStack_eq)
    then show ?thesis using assms(2,3)
      by (simp, intro switchedI [where d = "dstack vm" and wp = "witnessProgram vm" and new = "[]" and saved = "stk (dstack vm)"])
         (simp_all add: added_def elems_ok_def)
  next
    case 2
    then have s: "savedFirstStack vm \<noteq> []" using assms(8) by blast
    let ?rest = "seqM (appendScript (last (savedFirstStack vm))) (SetStack (butlast (savedFirstStack vm)))"
    have "seqM (CheckErrorCondition False) ?rest ?vm = (r, vm')"
      using m 2 s by (simp add: bindM_lift_Inr)
    then show ?thesis
    proof (cases rule: seqM_elim)
      case (1 e)
      have "elems_ok (dstack ?vm)" using assms(2) by simp
      with 1(1) show ?thesis using 1(2) by (cases rule: CheckErrorCondition_cases) auto
    next
      case (2 vm1)
      have "elems_ok (dstack ?vm)" using assms(2) by simp
      with 2(1) show ?thesis
      proof (cases rule: CheckErrorCondition_cases)
        case p: (pass d)
        from 2(2) show ?thesis
        proof (cases rule: appendSet_cases)
          case (pass pops)
          have "elem_ok (last (savedFirstStack vm))"
            using assms(4) s by (simp add: saved_ok_def list_all_iff)
          then have l: "length pops \<le> MaxScriptSize" using pass(3) by (simp add: elem_ok_def MaxScriptElementSize_def MaxScriptSize_def)
          have b: "length (butlast (savedFirstStack vm)) < 2 ^ 31" using assms(4) by (auto simp: saved_ok_def)
          show ?thesis using pass p assms(4) \<open>scriptIdx vm = 1 \<and> bip16 vm\<close> b l
            by (simp, intro switchedI [where d = "d\<lparr>stk := butlast (savedFirstStack vm)\<rparr>" and wp = "witnessProgram vm" and new = "[pops]" and saved = "savedFirstStack vm"])
               (simp_all add: added_def elems_ok_def saved_ok_def list_all_butlast)
        qed simp
      qed simp
    qed
  next
    case 3
    have n: "nat (txIdx vm) < length (TxIns (vm_tx vm))" using assms(5,6) by (simp add: nat_less_iff)
    define txIn where "txIn = TxIns (vm_tx vm) ! nat (txIdx vm)"
    have t: "currentTxIn vm = Inr txIn" "txIn \<in> set (TxIns (vm_tx vm))"
      using assms(5,6) n by (simp_all add: currentTxIn_def indexE_def txIn_def)
    then have "verifyWitnessProgram (Witness txIn) ?vm = (r, vm')"
      using m unfolding if_not_P [OF 3(1)] if_not_P [OF 3(2)] if_P [OF 3(3)] t(1) bindM_lift_Inr by simp
    moreover have "elems_ok (dstack ?vm)" using assms(2) by simp
    ultimately show ?thesis
    proof (cases rule: verifyWitnessProgram_cases)
      case (run d pops)
      have "length d < 2 ^ 31" using run(5) t(2) assms(7) by (auto simp: tx_small_def list_all_iff)
      then show ?thesis using run assms(4) 3
        by (simp, intro switchedI [where d = "dstack vm\<lparr>stk := d\<rparr>" and wp = "witnessProgram vm" and new = "[pops]" and saved = "savedFirstStack vm"])
           (auto simp: added_def saved_ok_def)
    next
      case pass
      then show ?thesis using assms(2,3,4) 3
        by (simp, intro switchedI [where d = "dstack vm" and wp = None and new = "[]" and saved = "savedFirstStack vm"])
           (auto simp: added_def saved_ok_def)
    qed simp
  next
    case 4
    then have "r = Inr ()" "vm' = ?vm"
      using m unfolding if_not_P [OF 4(1)] if_not_P [OF 4(2)] if_not_P [OF 4(3)] by (simp_all add: modifyM_apply)
    then show ?thesis using assms(2,3,4) 4
      by (simp, intro switchedI [where d = "dstack vm" and wp = "witnessProgram vm" and new = "[]" and saved = "savedFirstStack vm"])
         (auto simp: added_def saved_ok_def)
  qed
qed

section \<open>The invariant of a run\<close>

text \<open>
  Between two steps of a pay-to-script-hash spend the saved stack of the signature script is still
  the data stack at the start of the public key script, and is not empty after its first opcode.
\<close>

definition bip_ok :: "Engine \<Rightarrow> bool" where
  "bip_ok vm = (bip16 vm \<longrightarrow> 2 \<le> length (scripts vm) \<and> isScriptHash (scripts vm ! 1) \<and>
     (scriptIdx vm = 1 \<longrightarrow> (if scriptOff vm = 0 then stk (dstack vm) = savedFirstStack vm \<and> condStack vm = []
                            else savedFirstStack vm \<noteq> [])))"

definition scripts_ok :: "parsedOpcode list list \<Rightarrow> bool" where
  "scripts_ok ss = list_all (\<lambda>s. list_all wf_pop s \<and> length s \<le> MaxScriptSize) ss"

definition run_ok :: "Engine \<Rightarrow> bool" where
  "run_ok vm = (vm_ok vm \<and> scripts_ok (scripts vm) \<and> length (stk (dstack vm)) < 2 ^ 31 \<and> tx_small (vm_tx vm) \<and>
     saved_ok vm \<and> bip_ok vm)"

text \<open>How many scripts a run may still go through, and how many steps it may still take.\<close>

definition scripts_left :: "Engine \<Rightarrow> nat" where
  "scripts_left vm = length (scripts vm) - scriptIdx vm + min 2 (3 - scriptIdx vm)"

definition steps_left :: "Engine \<Rightarrow> nat" where
  "steps_left vm = MaxScriptSize * scripts_left vm - scriptOff vm"

lemma hash160_nonempty:
  assumes "opcodeHash160 C op vm = (Inr (), vm')"
  shows "stk (dstack vm) \<noteq> []"
proof
  assume e: "stk (dstack vm) = []"
  then have "fst (PopByteArray (dstack vm)) \<noteq> Inr x" for x
    by (simp add: PopByteArray_def nipN_def goM_simps)
  then have "\<exists>e. fst (onD PopByteArray vm) = Inl e"
    by (cases "fst (PopByteArray (dstack vm))") (auto simp: onD_def zoomM_apply split: prod.splits)
  then show False using assms unfolding opcodeHash160_def hashTop_def
    by (auto simp: bindM_apply split: prod.splits)
qed

lemma scriptHash_first:
  assumes "isScriptHash pops"
  shows "length pops = 3" "pop_value (pops ! 0) = OP_HASH160"
  using assms by (auto simp: isScriptHash_def)

lemma opfuncs_hash160: "opfuncs C ! unat OP_HASH160 = opcodeHash160 C"
  by (simp add: opfuncs_def)

lemma first_opcode_nonempty:
  assumes "executeOpcode C pop vm = (Inr (), vm')" "vm_ok vm" "condStack vm = []" "pop_value pop = OP_HASH160"
  shows "stk (dstack vm) \<noteq> []"
  using assms(1,2)
proof (cases rule: executeOpcode_cases)
  case (skip n)
  then show ?thesis using assms(3) by (simp add: isBranchExecuting_def)
next
  case (run n)
  then show ?thesis using hash160_nonempty [of C pop "vm\<lparr>numOps := n\<rparr>"] assms(4) opfuncs_hash160 [of C] by simp
qed simp

text \<open>The end of a script.\<close>

lemma onA_clear: "onA (dropErr (\<lambda>s. DropN (Depth s) s)) vm = (Inr (), vm\<lparr>astack := astack vm\<lparr>stk := []\<rparr>\<rparr>)"
  using clear_eq [of "astack vm"] by (simp add: onA_def zoomM_apply dropErr_def)

definition skipEmpty :: "Engine \<Rightarrow> Engine" where
  "skipEmpty vm = (if scriptIdx vm < length (scripts vm) \<and> scriptOff vm \<ge> length (scripts vm ! scriptIdx vm)
     then vm\<lparr>scriptIdx := scriptIdx vm + 1\<rparr> else vm)\<lparr>lastCodeSep := 0\<rparr>"

lemma endOfScript_cases:
  assumes "endOfScript vm = (r, vm')"
  defines "vm1 \<equiv> vm\<lparr>astack := astack vm\<lparr>stk := []\<rparr>, numOps := 0, scriptOff := 0\<rparr>"
  obtains (unbalanced) "r = Inl (scriptError ErrUnbalancedConditional)"
  | (fail) e where "r = Inl e" "switchScript vm1 = (Inl e, vm')" "condStack vm = []"
  | (pass) vm2 where "switchScript vm1 = (Inr (), vm2)" "condStack vm = []" "vm' = skipEmpty vm2"
     "r = Inr (scriptIdx vm' \<ge> length (scripts vm'))"
proof (cases "condStack vm = []")
  case False
  then show thesis using unbalanced assms(1) by (simp add: endOfScript_def bindM_get raiseM_apply)
next
  case True
  let ?a = "vm\<lparr>astack := astack vm\<lparr>stk := []\<rparr>\<rparr>"
  let ?rest = "seqM (modifyM (\<lambda>vm. if scriptIdx vm < length (scripts vm)
                \<and> scriptOff vm \<ge> length (scripts vm ! scriptIdx vm)
              then vm\<lparr>scriptIdx := scriptIdx vm + 1\<rparr> else vm))
       (seqM (modifyM (\<lambda>vm. vm\<lparr>lastCodeSep := 0\<rparr>))
       (getM (\<lambda>vm. scriptIdx vm \<ge> length (scripts vm))))"
  have a: "seqM (onA (dropErr (\<lambda>s. DropN (Depth s) s))) k vm = k ?a" for k :: "bool vmM"
    by (simp add: seqM_def bindM_apply onA_clear)
  have "seqM switchScript ?rest vm1 = (r, vm')"
    using assms(1) True by (simp add: endOfScript_def bindM_get a seqM_modify [of _ "seqM switchScript _"] vm1_def)
  then show thesis
  proof (cases rule: seqM_elim)
    case (1 e)
    then show thesis using fail True by blast
  next
    case (2 vm2)
    from 2(2) have "vm' = skipEmpty vm2" "r = Inr (scriptIdx vm' \<ge> length (scripts vm'))"
      by (auto simp: seqM_modify getM_apply skipEmpty_def)
    then show thesis using pass 2 True by blast
  qed
qed

lemma skipEmpty_run_ok:
  assumes sw: "switched vm1 vm2" and v: "vm1 = vm\<lparr>astack := astack vm\<lparr>stk := []\<rparr>, numOps := 0, scriptOff := 0\<rparr>"
    and a: "vm_ok vm" "scripts_ok (scripts vm)" "tx_small (vm_tx vm)" "condStack vm = []"
    "bip16 vm \<Longrightarrow> 2 \<le> length (scripts vm) \<and> isScriptHash (scripts vm ! 1)"
  shows "elems_ok (dstack (skipEmpty vm2))" "scripts_left (skipEmpty vm2) < scripts_left vm" "scriptOff (skipEmpty vm2) = 0"
    "scriptIdx (skipEmpty vm2) < length (scripts (skipEmpty vm2)) \<Longrightarrow> run_ok (skipEmpty vm2)"
proof -
  from sw obtain d wp new saved where v2: "vm2 = vm1\<lparr>scriptIdx := Suc (scriptIdx vm1), dstack := d, witnessProgram := wp,
       scripts := scripts vm1 @ new, savedFirstStack := saved\<rparr>" and d: "elems_ok d" "length (stk d) < 2 ^ 31"
     and sv: "list_all elem_ok saved" "length saved < 2 ^ 31" and n: "added vm1 new"
     and b: "scriptIdx vm1 = 0 \<and> bip16 vm1 \<longrightarrow> stk d = saved"
    unfolding switched_def by blast
  have idx: "scriptIdx vm < length (scripts vm)" using a(1) by (simp add: vm_ok_def)
  have sk: "scriptIdx (skipEmpty vm2) = Suc (scriptIdx vm) \<or> scriptIdx (skipEmpty vm2) = Suc (Suc (scriptIdx vm))"
    by (simp add: skipEmpty_def v2 v)
  have f: "scripts (skipEmpty vm2) = scripts vm @ new" "dstack (skipEmpty vm2) = d" "scriptOff (skipEmpty vm2) = 0"
    "savedFirstStack (skipEmpty vm2) = saved" "lastCodeSep (skipEmpty vm2) = 0" "numOps (skipEmpty vm2) = 0"
    "stk (astack (skipEmpty vm2)) = []" "vm_tx (skipEmpty vm2) = vm_tx vm" "txIdx (skipEmpty vm2) = txIdx vm"
    "bip16 (skipEmpty vm2) = bip16 vm" "condStack (skipEmpty vm2) = condStack vm"
    by (simp_all add: skipEmpty_def v2 v)
  show "elems_ok (dstack (skipEmpty vm2))" "scriptOff (skipEmpty vm2) = 0" using d f by simp_all
  show "scripts_left (skipEmpty vm2) < scripts_left vm"
    using n sk idx by (auto simp: scripts_left_def f added_def v)
  assume i: "scriptIdx (skipEmpty vm2) < length (scripts (skipEmpty vm2))"
  have "vm_ok (skipEmpty vm2)"
    using i a(1) d by (simp add: vm_ok_def f elems_ok_def MaxOpsPerScript_def)
  moreover have "scripts_ok (scripts (skipEmpty vm2))" using a(2) n by (auto simp: f scripts_ok_def added_def)
  moreover have "bip_ok (skipEmpty vm2)"
    using a(4,5) sk b by (auto simp: bip_ok_def f v nth_append)
  ultimately show "run_ok (skipEmpty vm2)" using d sv a(3) by (simp add: run_ok_def saved_ok_def f)
qed

lemma endOfScript_ok:
  assumes "endOfScript vm = (r, vm')" "vm_ok vm" "scripts_ok (scripts vm)" "length (stk (dstack vm)) < 2 ^ 31"
    "tx_small (vm_tx vm)" "saved_ok vm" "bip16 vm \<Longrightarrow> 2 \<le> length (scripts vm) \<and> isScriptHash (scripts vm ! 1)"
    "scriptIdx vm = 1 \<and> bip16 vm \<Longrightarrow> savedFirstStack vm \<noteq> []"
  shows "case r of Inl e \<Rightarrow> e \<noteq> GoPanic
    | Inr d \<Rightarrow> elems_ok (dstack vm') \<and> scripts_left vm' < scripts_left vm \<and> scriptOff vm' = 0 \<and> (\<not> d \<longrightarrow> run_ok vm')"
proof -
  define vm1 where v: "vm1 = vm\<lparr>astack := astack vm\<lparr>stk := []\<rparr>, numOps := 0, scriptOff := 0\<rparr>"
  have sw: "case r' of Inl e \<Rightarrow> e \<noteq> GoPanic | Inr _ \<Rightarrow> switched vm1 vm2" if "switchScript vm1 = (r', vm2)" for r' vm2
    using that assms(2-) by (intro switchScript_cases) (simp_all add: v vm_ok_def saved_ok_def)
  from assms(1) show ?thesis
  proof (cases rule: endOfScript_cases)
    case (fail e)
    then show ?thesis using sw unfolding v by fastforce
  next
    case (pass vm2)
    then have "switched vm1 vm2" using sw unfolding v by fastforce
    from skipEmpty_run_ok [OF this v assms(2,3,5) pass(2) assms(7)] show ?thesis using pass by (simp add: not_le)
  qed simp
qed

lemma Step_cases:
  assumes "Step C vm = (r, vm')"
  defines "pop \<equiv> scripts vm ! scriptIdx vm ! scriptOff vm" and "vm1 \<equiv> vm\<lparr>scriptOff := scriptOff vm + 1\<rparr>"
  obtains (pc) "r = Inl (scriptError ErrInvalidProgramCounter)"
  | (fail) e where "r = Inl e" "executeOpcode C pop vm1 = (Inl e, vm')" "validPC vm = Inr ()"
  | (overflow) vm2 where "r = Inl (scriptError ErrStackOverflow)"
  | (go) vm2 where "executeOpcode C pop vm1 = (Inr (), vm2)" "validPC vm = Inr ()"
      "Depth (dstack vm2) + Depth (astack vm2) \<le> MaxStackSize"
      "(if scriptOff vm2 \<ge> length (scripts vm2 ! scriptIdx vm2) then endOfScript vm2 else (Inr False, vm2)) = (r, vm')"
proof (cases "validPC vm")
  case (Inl e)
  then have "e = scriptError ErrInvalidProgramCounter" by (auto simp: validPC_def split: if_splits)
  then show thesis using pc assms(1) Inl by (auto simp: Step_def goM_simps)
next
  case (Inr u)
  let ?k = "bindM (getM id) (\<lambda>vm.
       let combinedStackSize = Depth (dstack vm) + Depth (astack vm) in
       if combinedStackSize > MaxStackSize then raiseM (scriptError ErrStackOverflow)
       else if scriptOff vm \<ge> length (scripts vm ! scriptIdx vm) then endOfScript
       else returnM False)"
  have v: "validPC vm = Inr ()" using Inr by simp
  have "seqM (executeOpcode C pop) ?k vm1 = (r, vm')"
    using assms(1) by (simp add: Step_def bindM_get v bindM_lift_Inr seqM_modify pop_def vm1_def Let_def)
  then show thesis
  proof (cases rule: seqM_elim)
    case (1 e)
    then show thesis using fail v by blast
  next
    case (2 vm2)
    show thesis
    proof (cases "Depth (dstack vm2) + Depth (astack vm2) > MaxStackSize")
      case True
      then show thesis using overflow 2 by (simp add: bindM_get raiseM_apply Let_def)
    next
      case False
      then show thesis using 2 v go [of vm2] by (simp add: bindM_get returnM_apply Let_def if_distribR split: if_splits)
    qed
  qed
qed

lemma steps_left_next:
  assumes "scriptIdx vm < length (scripts vm)" "scriptOff vm < length (scripts vm ! scriptIdx vm)" "scripts_ok (scripts vm)"
  shows "steps_left (vm\<lparr>scriptOff := Suc (scriptOff vm)\<rparr>) < steps_left vm"
    "scripts_left vm' < scripts_left vm \<Longrightarrow> steps_left vm' < steps_left vm"
proof -
  have l: "scriptOff vm < MaxScriptSize" using assms by (auto simp: scripts_ok_def list_all_length intro: less_le_trans)
  have p: "1 \<le> scripts_left vm" using assms(1) by (simp add: scripts_left_def)
  have le: "MaxScriptSize \<le> MaxScriptSize * scripts_left vm" using p by (cases "scripts_left vm") simp_all
  have sl: "scripts_left (vm\<lparr>scriptOff := Suc (scriptOff vm)\<rparr>) = scripts_left vm" by (simp add: scripts_left_def)
  show "steps_left (vm\<lparr>scriptOff := Suc (scriptOff vm)\<rparr>) < steps_left vm"
    unfolding steps_left_def sl using diff_less_mono2 [OF lessI less_le_trans [OF l le]] by simp
  assume "scripts_left vm' < scripts_left vm"
  then have "MaxScriptSize * Suc (scripts_left vm') \<le> MaxScriptSize * scripts_left vm" by (intro mult_le_mono2) simp
  then have "MaxScriptSize + MaxScriptSize * scripts_left vm' \<le> MaxScriptSize * scripts_left vm" by simp
  then show "steps_left vm' < steps_left vm" unfolding steps_left_def using l by linarith
qed

lemma Step_ok:
  assumes "crypto_ok C" "run_ok vm" "Step C vm = (r, vm')"
  shows "case r of Inl e \<Rightarrow> e \<noteq> GoPanic
    | Inr d \<Rightarrow> elems_ok (dstack vm') \<and> steps_left vm' < steps_left vm \<and> (\<not> d \<longrightarrow> run_ok vm') \<and>
        (scriptOff vm' = 0 \<or> Depth (dstack vm') + Depth (astack vm') \<le> MaxStackSize)"
proof -
  define pop where "pop = scripts vm ! scriptIdx vm ! scriptOff vm"
  define vm1 where "vm1 = vm\<lparr>scriptOff := scriptOff vm + 1\<rparr>"
  have run: "vm_ok vm" "scripts_ok (scripts vm)" "length (stk (dstack vm)) < 2 ^ 31" "tx_small (vm_tx vm)"
     "saved_ok vm" "bip_ok vm" using assms(2) by (auto simp: run_ok_def)
  have pc: "scriptIdx vm < length (scripts vm)" "scriptOff vm < length (scripts vm ! scriptIdx vm)" if "validPC vm = Inr ()"
    using that by (auto simp: validPC_def split: if_splits)
  have ex: "case r' of Inl e \<Rightarrow> e \<noteq> GoPanic | Inr _ \<Rightarrow> vm_ok vm2 \<and> frame vm1 vm2"
    if "executeOpcode C pop vm1 = (r', vm2)" "validPC vm = Inr ()" for r' vm2
  proof (rule executeOpcode_ok [OF assms(1) _ _ _ that(1)])
    show "vm_ok vm1" "small vm1" using run pc [OF that(2)] by (simp_all add: vm1_def vm_ok_def small_def)
    show "wf_pop pop" using run(2) pc [OF that(2)] by (simp add: pop_def scripts_ok_def list_all_length)
  qed
  from assms(3) show ?thesis
  proof (cases rule: Step_cases)
    case (fail e)
    then show ?thesis using ex [of "Inl e" vm'] by (simp add: pop_def vm1_def)
  next
    case (go vm2)
    have e: "executeOpcode C pop vm1 = (Inr (), vm2)" using go(1) by (simp add: pop_def vm1_def)
    then have v2: "vm_ok vm2" and fr: "frame vm1 vm2" using ex [OF _ go(2)] by fastforce+
    note pc = pc [OF go(2)]
    have sv: "savedFirstStack vm2 \<noteq> []" if "scriptIdx vm2 = 1 \<and> bip16 vm2"
    proof (cases "scriptOff vm = 0")
      case True
      have b: "bip16 vm" "scriptIdx vm = 1" using that fr by (simp_all add: frame_def vm1_def)
      then have h: "isScriptHash (scripts vm ! 1)" "stk (dstack vm) = savedFirstStack vm" "condStack vm = []"
        using run(6) True by (auto simp: bip_ok_def)
      have "stk (dstack vm1) \<noteq> []"
        using first_opcode_nonempty [OF e] scriptHash_first [OF h(1)] h run(1) pc True b
        by (simp add: pop_def vm1_def vm_ok_def)
      then show ?thesis using h(2) fr by (simp add: vm1_def frame_def)
    next
      case False
      then show ?thesis using that fr run(6) by (auto simp: frame_def vm1_def bip_ok_def)
    qed
    have ln: "length (stk (dstack vm2)) < 2 ^ 31" using go(3) by (simp add: Depth_def MaxStackSize_def)
    have st: "scripts_left vm2 = scripts_left vm" "steps_left vm2 < steps_left vm"
      using fr steps_left_next(1) [OF pc run(2)] by (simp_all add: frame_def vm1_def scripts_left_def steps_left_def)
    have bip: "bip16 vm2 \<Longrightarrow> 2 \<le> length (scripts vm2) \<and> isScriptHash (scripts vm2 ! 1)"
      using fr run(6) by (simp add: frame_def vm1_def bip_ok_def)
    have keep: "scripts_ok (scripts vm2)" "tx_small (vm_tx vm2)" "saved_ok vm2" "scriptOff vm2 = Suc (scriptOff vm)"
      using fr run by (simp_all add: frame_def vm1_def saved_ok_def)
    show ?thesis
    proof (cases "scriptOff vm2 \<ge> length (scripts vm2 ! scriptIdx vm2)")
      case True
      then have "endOfScript vm2 = (r, vm')" using go(4) by simp
      from endOfScript_ok [OF this v2 keep(1) ln keep(2,3) bip sv] show ?thesis
        using steps_left_next(2) [OF pc run(2), of vm'] st by (auto split: sum.splits)
    next
      case False
      then have "r = Inr False" "vm' = vm2" using go(4) by auto
      moreover have "run_ok vm2" using v2 keep ln bip sv by (auto simp: run_ok_def bip_ok_def)
      ultimately show ?thesis using st v2 go(3) by (simp add: vm_ok_def)
    qed
  qed simp_all
qed

section \<open>A new engine can run\<close>

lemma parseScripts2:
  assumes "parseScripts [a, b] = Inr ss"
  obtains p q where "ss = [p, q]" "parseScript a = (p, None)" "parseScript b = (q, None)"
    "length a \<le> MaxScriptSize" "length b \<le> MaxScriptSize"
  using assms by (auto simp: bindE_Inr_iff parseE_Inr split: if_splits)

lemma parseScripts_safe: "safeE (parseScripts ss)"
  by (induction ss) (auto simp: safeE_def bindE_def parseE_no_panic split: sum.splits)

lemma setWitness_Inr:
  assumes "setWitness a b w vm = Inr vm'"
  obtains v p where "vm' = vm\<lparr>witnessVersion := v, witnessProgram := p\<rparr>"
proof -
  have "vm' = vm\<lparr>witnessVersion := witnessVersion vm, witnessProgram := witnessProgram vm\<rparr> \<or>
    (\<exists>v p. vm' = vm\<lparr>witnessVersion := v, witnessProgram := Some p\<rparr>)"
    using assms by (auto simp: setWitness_def bindE_Inr_iff split: if_splits option.splits)
  then show thesis using that by blast
qed

lemma NewEngine_cases:
  assumes "NewEngine pk tx idx fs sc hc amt = Inr vm"
  obtains p q m v w where "0 \<le> idx" "idx < int (length (TxIns tx))"
    "parseScript (SignatureScript (TxIns tx ! nat idx)) = (p, None)" "parseScript pk = (q, None)"
    "length p \<le> MaxScriptSize" "length q \<le> MaxScriptSize" "list_all wf_pop p" "list_all wf_pop q"
    "vm = (zeroEngine fs sc hc amt)\<lparr>scripts := [p, q],
       scriptIdx := (if SignatureScript (TxIns tx ! nat idx) = [] then 1 else 0),
       bip16 := hasFlag (zeroEngine fs sc hc amt) ScriptBip16 \<and> isScriptHash q,
       dstack := \<lparr>stk = [], verifyMinimalData = m\<rparr>, astack := \<lparr>stk = [], verifyMinimalData = m\<rparr>,
       witnessVersion := v, witnessProgram := w, vm_tx := tx, txIdx := idx\<rparr>"
proof -
  let ?sig = "SignatureScript (TxIns tx ! nat idx)"
  let ?z = "zeroEngine fs sc hc amt"
  have idx: "\<not> (idx < 0 \<or> idx \<ge> int (length (TxIns tx)))"
    using assms by (auto simp: NewEngine_def)
  define m where "m = bindE (parseScripts [?sig, pk]) (\<lambda>ss.
          bindE (setScriptsOf ?sig ss ?z) (\<lambda>vm.
          bindE (setWitness ?sig pk (Witness (TxIns tx ! nat idx)) vm) (\<lambda>vm.
          Inr (vm\<lparr>vm_tx := tx, txIdx := idx\<rparr>))))"
  have "m = Inr vm" using assms idx unfolding NewEngine_def Let_def m_def [symmetric] by (auto split: if_splits)
  then obtain ss vm2 vm3 where ss: "parseScripts [?sig, pk] = Inr ss" "setScriptsOf ?sig ss ?z = Inr vm2"
     and vm3: "setWitness ?sig pk (Witness (TxIns tx ! nat idx)) vm2 = Inr vm3" "vm = vm3\<lparr>vm_tx := tx, txIdx := idx\<rparr>"
    unfolding m_def bindE_Inr_iff by blast
  from ss(1) obtain p q where pq: "ss = [p, q]" "parseScript ?sig = (p, None)" "parseScript pk = (q, None)"
    and len: "length ?sig \<le> MaxScriptSize" "length pk \<le> MaxScriptSize"
    by (rule parseScripts2)
  define vm1 where "vm1 = ?z\<lparr>scripts := [p, q], scriptIdx := (if ?sig = [] then 1 else 0),
       bip16 := hasFlag ?z ScriptBip16 \<and> isScriptHash q\<rparr>"
  from vm3(1) obtain v w where w: "vm3 = vm2\<lparr>witnessVersion := v, witnessProgram := w\<rparr>" by (rule setWitness_Inr)
  have "vm2 = vm1\<lparr>dstack := \<lparr>stk = [], verifyMinimalData = hasFlag vm1 ScriptVerifyMinimalData\<rparr>,
     astack := \<lparr>stk = [], verifyMinimalData = hasFlag vm1 ScriptVerifyMinimalData\<rparr>\<rparr>"
    using ss(2) unfolding setScriptsOf_def Let_def pq(1)
    by (auto simp: vm1_def zeroEngine_def hasFlag_def split: if_splits)
  then show thesis using that [where p = p and q = q and m = "hasFlag vm1 ScriptVerifyMinimalData" and v = v and w = w] vm3(2) w pq len idx
      parse_length [OF pq(2)] parse_length [OF pq(3)] parse_iff [of ?sig p] parse_iff [of pk q]
    by (simp add: vm1_def)
qed

lemma NewEngine_run_ok:
  assumes "NewEngine pk tx idx fs sc hc amt = Inr vm" "tx_small tx"
  shows "run_ok vm \<and> scriptOff vm = 0 \<and> scripts_left vm \<le> 4"
  using assms(1)
proof (cases rule: NewEngine_cases)
  case (1 p q m v w)
  then show ?thesis using assms(2)
    by (simp add: run_ok_def vm_ok_def elems_ok_def zeroEngine_def scripts_ok_def saved_ok_def bip_ok_def
      scripts_left_def MaxOpsPerScript_def)
qed

lemma NewEngine_safe: "NewEngine pk tx idx fs sc hc amt \<noteq> Inl GoPanic"
proof -
  have x: "safeE (ExtractWitnessProgramInfo s)" for s
    using parseE_no_panic [of s] by (auto simp: ExtractWitnessProgramInfo_def safeE_def parseE_def split: prod.splits option.splits)
  have f: "safeE (findWitnessProgram vm a b w)" for vm a b w
    by (simp add: findWitnessProgram_def Let_def safeE_def)
  have w: "safeE (setWitness a b w vm)" for a b w vm
    unfolding setWitness_def by (auto intro!: safeE_if safeE_bindE x f simp: safeE_simps split: option.splits)
  have s: "safeE (setScriptsOf a ss vm)" for a ss vm by (simp add: setScriptsOf_def Let_def safeE_def)
  have "safeE (NewEngine pk tx idx fs sc hc amt)"
    unfolding NewEngine_def Let_def by (intro safeE_if safeE_bindE parseScripts_safe s w) (simp_all add: safeE_def)
  then show ?thesis by (simp add: safeE_def)
qed

section \<open>Runs\<close>

text \<open>The states an engine goes through, with the number of steps taken.\<close>

inductive engine_run :: "crypto \<Rightarrow> Engine \<Rightarrow> nat \<Rightarrow> Engine \<Rightarrow> bool" for C vm where
  start: "engine_run C vm 0 vm"
| step: "engine_run C vm n vm1 \<Longrightarrow> Step C vm1 = (Inr False, vm2) \<Longrightarrow> engine_run C vm (Suc n) vm2"

lemma engine_run_ok:
  assumes "engine_run C vm n vm'" "crypto_ok C" "run_ok vm"
  shows "run_ok vm' \<and> n + steps_left vm' \<le> steps_left vm"
  using assms(1)
proof induction
  case start
  then show ?case using assms(3) by simp
next
  case (step n vm1 vm2)
  then show ?case using Step_ok [OF assms(2) _ step(2)] by fastforce
qed

lemma Execute_returns:
  assumes "crypto_ok C" "run_ok vm"
  shows "\<exists>r vm'. Execute C vm = Some (r, vm') \<and> r \<noteq> Inl GoPanic"
  using assms(2)
proof (induction "steps_left vm" arbitrary: vm rule: less_induct)
  case less
  obtain r vm' where s: "Step C vm = (r, vm')" by fastforce
  note ok = Step_ok [OF assms(1) less.prems s]
  show ?case
  proof (cases r)
    case (Inl e)
    then show ?thesis using s ok by (simp add: Execute.simps)
  next
    case (Inr d)
    show ?thesis
    proof (cases d)
      case True
      obtain r2 vm2 where c: "CheckErrorCondition True vm' = (r2, vm2)" by fastforce
      have "elems_ok (dstack vm')" using ok Inr by simp
      from c this have "r2 \<noteq> Inl GoPanic" by (cases rule: CheckErrorCondition_cases) auto
      then show ?thesis using s Inr True c by (simp add: Execute.simps [of C vm])
    next
      case False
      then show ?thesis using less.hyps [of vm'] ok s Inr by (simp add: Execute.simps [of C vm])
    qed
  qed
qed

section \<open>Properties\<close>

text \<open>
  C5: Building an engine for any scripts, transaction, flags and caches and running it never
  panics, and the run always returns a result: the loop of Execute ends for every script, and
  no index, slice or conversion in it goes out of range.  The only assumptions are that a
  RIPEMD-160 digest has 20 bytes and that no input has 2^31 or more witness items.
\<close>

theorem script_execution_safe:
  assumes "crypto_ok C" "tx_small tx"
  shows "case NewEngine pk tx idx fs sc hc amt of
      Inl e \<Rightarrow> e \<noteq> GoPanic
    | Inr vm \<Rightarrow> \<exists>r vm'. Execute C vm = Some (r, vm') \<and> r \<noteq> Inl GoPanic"
  using NewEngine_safe [of pk tx idx fs sc hc amt] NewEngine_run_ok [OF _ assms(2)] Execute_returns [OF assms(1)]
  by (auto split: sum.splits)

definition nopTx :: MsgTx where
  "nopTx = \<lparr>Version = 1, TxIns = [\<lparr>PreviousOutPoint = \<lparr>Hash = [], Index = 0\<rparr>, SignatureScript = [],
     Witness = [], Sequence = 0\<rparr>], TxOuts = [], LockTime = 0\<rparr>"

definition zeroCrypto :: crypto where
  "zeroCrypto = \<lparr>ripemd160 = (\<lambda>_. replicate 20 0), ecdsaVerify = (\<lambda>_ _ _ _. False), evictPick = (\<lambda>_. 0)\<rparr>"

theorem script_execution_safe_witness:
  "case NewEngine [0x61, OP_1] nopTx 0 0 None None 0 of
      Inl e \<Rightarrow> e \<noteq> GoPanic
    | Inr vm \<Rightarrow> \<exists>r vm'. Execute zeroCrypto vm = Some (r, vm') \<and> r \<noteq> Inl GoPanic"
  by (rule script_execution_safe) (simp_all add: zeroCrypto_def crypto_ok_def nopTx_def tx_small_def)

text \<open>One opcode without data, and an engine on the script \<open>OP_NOP OP_1\<close>.\<close>

abbreviation plainPop :: "byte \<Rightarrow> parsedOpcode" where
  "plainPop v \<equiv> \<lparr>opcode = \<lparr>op_value = v, op_length = 1\<rparr>, data = []\<rparr>"

definition nopEngine :: Engine where
  "nopEngine = (zeroEngine 0 None None 0)\<lparr>scripts := [[], [plainPop 0x61, plainPop OP_1]], scriptIdx := 1, vm_tx := nopTx\<rparr>"

lemma nopEngine_new: "NewEngine [0x61, OP_1] nopTx 0 0 None None 0 = Inr nopEngine"
proof -
  have p: "parseScript [0x61, OP_1] = ([plainPop 0x61, plainPop OP_1], None)"
    by (simp add: parse_simps del: parseScript.simps(2))
  have f: "hasFlag vm f \<longleftrightarrow> f = 0" if "flags vm = 0" for vm f using that by (auto simp: hasFlag_def)
  show ?thesis
    by (simp add: NewEngine_def nopTx_def nopEngine_def parseE_def p setScriptsOf_def setWitness_def Let_def f
      zeroEngine_def ScriptBip16_def ScriptVerifyCleanStack_def ScriptVerifySigPushOnly_def
      ScriptVerifyMinimalData_def ScriptVerifyWitness_def MaxScriptSize_def del: parseScript.simps(2))
qed

lemma Step_run:
  assumes "validPC vm = Inr ()"
    "executeOpcode C (scripts vm ! scriptIdx vm ! scriptOff vm) (vm\<lparr>scriptOff := Suc (scriptOff vm)\<rparr>) = (Inr (), vm2)"
    "Depth (dstack vm2) + Depth (astack vm2) \<le> MaxStackSize"
  shows "Step C vm = (if scriptOff vm2 \<ge> length (scripts vm2 ! scriptIdx vm2) then endOfScript vm2 else (Inr False, vm2))"
proof -
  have seq: "seqM (executeOpcode C (scripts vm ! scriptIdx vm ! scriptOff vm)) k (vm\<lparr>scriptOff := Suc (scriptOff vm)\<rparr>) = k vm2"
    for k :: "bool vmM" by (simp add: seqM_def bindM_apply assms(2))
  show ?thesis
    using assms(1,3) by (simp add: Step_def bindM_get bindM_lift_Inr seqM_modify Let_def seq returnM_apply not_less)
qed

lemma executeOpcode_nop:
  assumes "numOps vm < MaxOpsPerScript" "isBranchExecuting vm" "\<not> hasFlag vm ScriptDiscourageUpgradableNops"
  shows "executeOpcode C (plainPop 0x61) vm = (Inr (), vm\<lparr>numOps := numOps vm + 1\<rparr>)"
proof -
  let ?vm = "vm\<lparr>numOps := numOps vm + 1\<rparr>"
  have b: "isBranchExecuting ?vm" using assms(2) by (simp add: isBranchExecuting_def)
  have d: "\<not> isDisabled (plainPop 0x61)" "\<not> alwaysIllegal (plainPop 0x61)"
    by (simp_all add: isDisabled_def alwaysIllegal_def)
  have f: "opfuncs C ! 97 = opcodeNop" by (simp add: opfuncs_def)
  have n: "opcodeNop op ?vm = (Inr (), ?vm)" for op
    using assms(3) by (simp add: opcodeNop_def bindM_get hasFlag_def returnM_apply)
  show ?thesis using assms(1) b d
    by (simp add: executeOpcode_def countOp_def seqM_modify f n Let_def bindM_apply getM_apply returnM_apply)
qed

lemma nopEngine_fields:
  "scripts nopEngine = [[], [plainPop 0x61, plainPop OP_1]]" "scriptIdx nopEngine = 1" "scriptOff nopEngine = 0"
  "stk (dstack nopEngine) = []" "stk (astack nopEngine) = []" "condStack nopEngine = []" "numOps nopEngine = 0" "flags nopEngine = 0"
  by (simp_all add: nopEngine_def zeroEngine_def)

lemma nopEngine_step: "engine_run zeroCrypto nopEngine 1 (nopEngine\<lparr>scriptOff := 1, numOps := 1\<rparr>)"
proof -
  let ?vm = "nopEngine\<lparr>scriptOff := 1, numOps := 1\<rparr>"
  have "executeOpcode zeroCrypto (plainPop 0x61) (nopEngine\<lparr>scriptOff := 1\<rparr>) = (Inr (), ?vm)"
    using executeOpcode_nop [of "nopEngine\<lparr>scriptOff := 1\<rparr>" zeroCrypto]
    by (simp add: nopEngine_fields MaxOpsPerScript_def isBranchExecuting_def hasFlag_def ScriptDiscourageUpgradableNops_def)
  then have "Step zeroCrypto nopEngine = (Inr False, ?vm)"
    using Step_run [of nopEngine zeroCrypto ?vm] by (simp add: nopEngine_fields validPC_def Depth_def MaxStackSize_def)
  then show ?thesis using engine_run.step [OF engine_run.start] by simp
qed



end
