(* ===== verification/Script_Caches.thy ===== *)
theory Script_Caches
  imports Script_Safety
begin

text \<open>
  The signature cache and the precomputed signature hashes do not change what the engine
  computes: forgetting them before a step gives the same result and the same state up to the
  caches, for every handler and so for a whole run.  The rules for computations that do not see a
  part of their state are proved once in a locale and used with the caches of the engine.
\<close>

unbundle bit_operations_syntax

section \<open>Computations that do not see a part of the state\<close>

locale hidden_state =
  fixes good :: "'s \<Rightarrow> bool" and forget :: "'s \<Rightarrow> 's"
  assumes good_forget: "good s \<Longrightarrow> good (forget s)"
begin

definition blind :: "('s, 'e, 'a) goM \<Rightarrow> bool" where
  "blind m = (\<forall>s r s'. good s \<longrightarrow> m s = (r, s') \<longrightarrow> good s' \<and> m (forget s) = (r, forget s'))"

lemma blindI: "(\<And>s r s'. good s \<Longrightarrow> m s = (r, s') \<Longrightarrow> good s' \<and> m (forget s) = (r, forget s')) \<Longrightarrow> blind m"
  by (simp add: blind_def)

lemma blindD: "blind m \<Longrightarrow> good s \<Longrightarrow> m s = (r, s') \<Longrightarrow> good s' \<and> m (forget s) = (r, forget s')"
  by (simp add: blind_def)

lemma blind_return: "blind (returnM x)"
  by (simp add: blind_def returnM_apply)

lemma blind_raise: "blind (raiseM e)"
  by (simp add: blind_def raiseM_apply)

lemma blind_lift: "blind (liftM r)"
  by (simp add: blind_def liftM_apply split: sum.split)

lemma blind_if: "(b \<Longrightarrow> blind m) \<Longrightarrow> (\<not> b \<Longrightarrow> blind m') \<Longrightarrow> blind (if b then m else m')"
  by simp

lemma blind_option: "blind m \<Longrightarrow> (\<And>y. x = Some y \<Longrightarrow> blind (f y)) \<Longrightarrow> blind (case x of None \<Rightarrow> m | Some y \<Rightarrow> f y)"
  by (cases x) simp_all

lemma blind_sum: "(\<And>y. blind (f y)) \<Longrightarrow> (\<And>y. blind (g y)) \<Longrightarrow> blind (case x of Inl y \<Rightarrow> f y | Inr y \<Rightarrow> g y)"
  by (cases x) simp_all

lemma blind_prod: "(\<And>y z. blind (f y z)) \<Longrightarrow> blind (case x of (y, z) \<Rightarrow> f y z)"
  by (cases x) simp_all

text \<open>A bound computation may use what is known about the result that it gets.\<close>

lemma blind_bind_post:
  assumes "blind m" "\<And>s x s'. good s \<Longrightarrow> m s = (Inr x, s') \<Longrightarrow> A x" "\<And>x. A x \<Longrightarrow> blind (f x)"
  shows "blind (bindM m f)"
proof (rule blindI)
  fix s r s'' assume g: "good s" and b: "bindM m f s = (r, s'')"
  from b show "good s'' \<and> bindM m f (forget s) = (r, forget s'')"
  proof (cases rule: bindM_elim)
    case (1 e)
    then show ?thesis using blindD [OF assms(1) g] by (simp add: bindM_apply)
  next
    case (2 x s')
    then have "good s'" "m (forget s) = (Inr x, forget s')" using blindD [OF assms(1) g] by blast+
    then show ?thesis using blindD [OF assms(3) [OF assms(2) [OF g 2(1)]] _ 2(2)] by (simp add: bindM_apply)
  qed
qed

lemma blind_bind: "blind m \<Longrightarrow> (\<And>x. blind (f x)) \<Longrightarrow> blind (bindM m f)"
  by (rule blind_bind_post [where A = "\<lambda>_. True"]) simp_all

lemma blind_get: "(\<And>s. f (forget s) = f s) \<Longrightarrow> blind (getM f)"
  by (simp add: blind_def getM_apply)

lemma blind_bind_get: "(\<And>s. g (f (forget s)) = g (f s)) \<Longrightarrow> (\<And>s. blind (g (f s))) \<Longrightarrow> blind (bindM (getM f) g)"
  unfolding blind_def by (simp add: bindM_apply getM_apply)

lemma blind_modify: "(\<And>s. good s \<Longrightarrow> good (f s)) \<Longrightarrow> (\<And>s. f (forget s) = forget (f s)) \<Longrightarrow> blind (modifyM f)"
  by (auto simp: blind_def modifyM_apply)

lemma blind_repeat: "blind m \<Longrightarrow> blind (repeatM n m)"
  by (induction n) (simp_all add: blind_return blind_bind)

lemma blind_zoom:
  assumes "\<And>s. sel (forget s) = sel s" "\<And>t s. upd t (forget s) = forget (upd t s)" "\<And>t s. good s \<Longrightarrow> good (upd t s)"
  shows "blind (zoomM sel upd m)"
  by (rule blindI) (auto simp: zoomM_apply assms split: prod.splits)

end


section \<open>The caches of the engine\<close>

definition forgetCaches :: "Engine \<Rightarrow> Engine" where
  "forgetCaches vm = vm\<lparr>sigCache := None, hashCache := None\<rparr>"

definition caches_ok :: "crypto \<Rightarrow> Engine \<Rightarrow> bool" where
  "caches_ok C vm = ((\<forall>c. sigCache vm = Some c \<longrightarrow> cache_sound (Signature_Verify C) c) \<and>
     (\<forall>h. hashCache vm = Some h \<longrightarrow> h = NewTxSigHashes (vm_tx vm)))"

interpretation cb: hidden_state "caches_ok C" forgetCaches for C
  by unfold_locales (simp add: caches_ok_def forgetCaches_def)

lemma forget_fields [simp]:
  "scripts (forgetCaches vm) = scripts vm" "scriptIdx (forgetCaches vm) = scriptIdx vm"
  "scriptOff (forgetCaches vm) = scriptOff vm" "lastCodeSep (forgetCaches vm) = lastCodeSep vm"
  "dstack (forgetCaches vm) = dstack vm" "astack (forgetCaches vm) = astack vm" "vm_tx (forgetCaches vm) = vm_tx vm"
  "txIdx (forgetCaches vm) = txIdx vm" "condStack (forgetCaches vm) = condStack vm" "numOps (forgetCaches vm) = numOps vm"
  "flags (forgetCaches vm) = flags vm" "bip16 (forgetCaches vm) = bip16 vm"
  "savedFirstStack (forgetCaches vm) = savedFirstStack vm" "witnessVersion (forgetCaches vm) = witnessVersion vm"
  "witnessProgram (forgetCaches vm) = witnessProgram vm" "inputAmount (forgetCaches vm) = inputAmount vm"
  "sigCache (forgetCaches vm) = None" "hashCache (forgetCaches vm) = None"
  by (simp_all add: forgetCaches_def)

lemma forget_queries [simp]:
  "hasFlag (forgetCaches vm) = hasFlag vm" "isBranchExecuting (forgetCaches vm) = isBranchExecuting vm"
  "isWitnessVersionActive (forgetCaches vm) = isWitnessVersionActive vm" "subScript (forgetCaches vm) = subScript vm"
  "currentTxIn (forgetCaches vm) = currentTxIn vm" "parseSigFor (forgetCaches vm) = parseSigFor vm"
  "validPC (forgetCaches vm) = validPC vm" "GetStack (forgetCaches vm) = GetStack vm"
  by (simp_all add: fun_eq_iff hasFlag_def isBranchExecuting_def isWitnessVersionActive_def subScript_def
      currentTxIn_def parseSigFor_def validPC_def GetStack_def)

lemma forget_checks [simp]:
  "checkHashTypeEncoding (forgetCaches vm) = checkHashTypeEncoding vm"
  "checkPubKeyEncoding (forgetCaches vm) = checkPubKeyEncoding vm"
  "checkSignatureEncoding (forgetCaches vm) = checkSignatureEncoding vm"
  by (simp_all only: fun_eq_iff checkHashTypeEncoding_def checkPubKeyEncoding_def checkSignatureEncoding_def
      forget_queries simp_thms)

lemma blind_onD: "cb.blind C (onD m)" and blind_onA: "cb.blind C (onA m)"
  unfolding onD_def onA_def by (rule cb.blind_zoom; simp add: forgetCaches_def caches_ok_def)+

lemma blind_seq: "cb.blind C m \<Longrightarrow> cb.blind C k \<Longrightarrow> cb.blind C (seqM m k)"
  unfolding seqM_def by (rule cb.blind_bind)

lemma blind_update:
  assumes "\<And>vm. sigCache (f vm) = sigCache vm \<and> hashCache (f vm) = hashCache vm \<and> vm_tx (f vm) = vm_tx vm"
    "\<And>vm. f (forgetCaches vm) = forgetCaches (f vm)"
  shows "cb.blind C (modifyM f)"
  by (rule cb.blind_modify) (simp_all add: caches_ok_def assms)

lemma calcSignatureHash_length: "calcSignatureHash s ht tx i = Inr h \<Longrightarrow> length h = 32"
  by (auto simp: calcSignatureHash_def bindE_Inr_iff Let_def split: if_splits)

lemma calcWitnessSignatureHash_length: "calcWitnessSignatureHash s hs ht tx i amt = Inr h \<Longrightarrow> length h = 32"
  by (auto simp: calcWitnessSignatureHash_def bindE_Inr_iff Let_def split: if_splits)

lemma sigHashOf_length: "sigHashOf s ht vm = (Inr h, vm') \<Longrightarrow> length h = 32"
  using calcSignatureHash_length calcWitnessSignatureHash_length
  by (fastforce simp: sigHashOf_def bindM_get liftM_apply Let_def split: if_splits sum.splits)

lemma blind_sigHashOf: "cb.blind C (sigHashOf s ht)"
proof (rule cb.blindI)
  fix vm r vm' assume "caches_ok C vm" "sigHashOf s ht vm = (r, vm')"
  then show "caches_ok C vm' \<and> sigHashOf s ht (forgetCaches vm) = (r, forgetCaches vm')"
    by (auto simp: sigHashOf_def bindM_get liftM_apply Let_def caches_ok_def split: option.splits sum.splits)
qed

lemma blind_verifyCached:
  assumes "length h = 32"
  shows "cb.blind C (verifyCached C h sig k)"
proof (rule cb.blindI)
  fix vm r vm' assume a: "caches_ok C vm" "verifyCached C h sig k vm = (r, vm')"
  have c: "copyHash h = h" using assms by (simp add: copyHash_def)
  have n: "verifyCached C h sig k (forgetCaches vm) = (Inr (Signature_Verify C h sig k), forgetCaches vm)"
    by (simp add: verifyCached_def bindM_get returnM_apply)
  show "caches_ok C vm' \<and> verifyCached C h sig k (forgetCaches vm) = (r, forgetCaches vm')"
  proof (cases "sigCache vm")
    case None
    then show ?thesis using a n by (simp add: verifyCached_def bindM_get returnM_apply)
  next
    case (Some sc)
    then have s: "cache_sound (Signature_Verify C) sc" using a(1) by (simp add: caches_ok_def)
    have k: "SigCache_Exists sc h sig k \<Longrightarrow> Signature_Verify C h sig k" using sc.known_sound [OF s] .
    have ad: "Signature_Verify C h sig k \<Longrightarrow> cache_sound (Signature_Verify C) (SigCache_Add (evictPick C) sc h sig k)"
      using sc.add_sound [OF s] .
    show ?thesis using a(2) a(1) Some k ad unfolding n
      by (auto simp: verifyCached_def bindM_get returnM_apply c Let_def seqM_modify caches_ok_def forgetCaches_def split: if_splits)
  qed
qed

section \<open>No handler sees the caches\<close>

lemma forget_updates:
  "(forgetCaches vm)\<lparr>scripts := a\<rparr> = forgetCaches (vm\<lparr>scripts := a\<rparr>)" "(forgetCaches vm)\<lparr>scriptIdx := n\<rparr> = forgetCaches (vm\<lparr>scriptIdx := n\<rparr>)"
  "(forgetCaches vm)\<lparr>scriptOff := n\<rparr> = forgetCaches (vm\<lparr>scriptOff := n\<rparr>)" "(forgetCaches vm)\<lparr>lastCodeSep := n\<rparr> = forgetCaches (vm\<lparr>lastCodeSep := n\<rparr>)"
  "(forgetCaches vm)\<lparr>numOps := i\<rparr> = forgetCaches (vm\<lparr>numOps := i\<rparr>)" "(forgetCaches vm)\<lparr>condStack := c\<rparr> = forgetCaches (vm\<lparr>condStack := c\<rparr>)"
  "(forgetCaches vm)\<lparr>witnessProgram := w\<rparr> = forgetCaches (vm\<lparr>witnessProgram := w\<rparr>)"
  "(forgetCaches vm)\<lparr>savedFirstStack := st\<rparr> = forgetCaches (vm\<lparr>savedFirstStack := st\<rparr>)"
  by (simp_all add: forgetCaches_def)

lemma blind_bind_sigHash:
  "(\<And>h. length h = 32 \<Longrightarrow> cb.blind C (f h)) \<Longrightarrow> cb.blind C (bindM (sigHashOf s ht) f)"
  by (rule cb.blind_bind_post [OF blind_sigHashOf, where A = "\<lambda>h. length h = 32"]) (auto intro: sigHashOf_length)

lemma blind_cond: "cb.blind C (modifyM (\<lambda>vm. vm\<lparr>condStack := f (condStack vm)\<rparr>))"
  "cb.blind C (modifyM (\<lambda>vm. vm\<lparr>numOps := g (numOps vm)\<rparr>))"
  "cb.blind C (modifyM (\<lambda>vm. vm\<lparr>lastCodeSep := scriptOff vm\<rparr>))"
  by (rule blind_update; simp add: forgetCaches_def)+

lemmas blind_rules = cb.blind_bind_get blind_bind_sigHash cb.blind_bind blind_seq cb.blind_if cb.blind_raise cb.blind_return
  cb.blind_lift cb.blind_option cb.blind_sum cb.blind_prod cb.blind_repeat blind_onD blind_onA blind_cond blind_verifyCached

lemma blind_countOp: "cb.blind C k \<Longrightarrow> cb.blind C (countOp n k)"
  unfolding countOp_def by (intro blind_rules) simp_all

lemma blind_abstractVerify: "cb.blind C (abstractVerify c)"
  unfolding abstractVerify_def by (intro blind_rules)

lemma blind_popIfBool: "cb.blind C popIfBool"
  unfolding popIfBool_def by (intro blind_rules) simp_all

lemma blind_peekNum5: "cb.blind C peekNum5"
  unfolding peekNum5_def by (rule blind_onD)

lemma blind_pushCond: "cb.blind C (pushCond c)"
  unfolding pushCond_def by (rule blind_rules)

lemma blind_helpers: "cb.blind C (unaryNum f)" "cb.blind C (binaryNum g)" "cb.blind C (hashTop h)"
  unfolding unaryNum_def binaryNum_def hashTop_def by (intro blind_rules)+

lemma blind_checkSig: "cb.blind C (opcodeCheckSig C op)"
  unfolding opcodeCheckSig_def Let_def by (intro blind_rules) (simp_all cong: sum.case_cong)

lemma blind_parseOnce: "cb.blind C (parseOnce i)"
  unfolding parseOnce_def Let_def by (intro blind_rules) (simp_all cong: sum.case_cong)

lemma blind_multiSigLoop: "cb.blind C (multiSigLoop C script pubKeys np ns pi si sigs)"
proof (induction np arbitrary: ns pi si sigs)
  case (Suc np)
  show ?case unfolding multiSigLoop.simps Let_def
    by (intro blind_rules blind_parseOnce Suc.IH) simp_all
qed (simp add: cb.blind_return)

lemma blind_checkMultiSig: "cb.blind C (opcodeCheckMultiSig C op)"
  unfolding opcodeCheckMultiSig_def Let_def
  by (intro blind_countOp blind_multiSigLoop blind_rules) simp_all

lemma blind_flow_handlers:
  "cb.blind C (opcodeDisabled op)" "cb.blind C (opcodeReserved op)" "cb.blind C (opcodeInvalid op)"
  "cb.blind C (opcodeFalse op)" "cb.blind C (opcodePushData op)" "cb.blind C (opcode1Negate op)" "cb.blind C (opcodeN op)"
  "cb.blind C (opcodeNop op)" "cb.blind C (opcodeIf op)" "cb.blind C (opcodeNotIf op)" "cb.blind C (opcodeElse op)"
  "cb.blind C (opcodeEndif op)" "cb.blind C (opcodeVerify op)" "cb.blind C (opcodeReturn op)" "cb.blind C (opcodeCodeSeparator op)"
  "cb.blind C (opcodeCheckLockTimeVerify op)" "cb.blind C (opcodeCheckSequenceVerify op)"
  unfolding opcodeDisabled_def opcodeReserved_def opcodeInvalid_def opcodeFalse_def opcodePushData_def
    opcode1Negate_def opcodeN_def opcodeNop_def opcodeIf_def opcodeNotIf_def opcodeElse_def opcodeEndif_def
    opcodeVerify_def opcodeReturn_def opcodeCheckLockTimeVerify_def opcodeCheckSequenceVerify_def
    opcodeCodeSeparator_def Let_def
  by (intro blind_abstractVerify blind_popIfBool blind_pushCond blind_peekNum5 blind_rules; simp cong: if_cong)+

lemma blind_stack_handlers:
  "cb.blind C (opcodeToAltStack op)" "cb.blind C (opcodeFromAltStack op)" "cb.blind C (opcode2Drop op)"
  "cb.blind C (opcode2Dup op)" "cb.blind C (opcode3Dup op)" "cb.blind C (opcode2Over op)" "cb.blind C (opcode2Rot op)"
  "cb.blind C (opcode2Swap op)" "cb.blind C (opcodeIfDup op)" "cb.blind C (opcodeDepth op)" "cb.blind C (opcodeDrop op)"
  "cb.blind C (opcodeDup op)" "cb.blind C (opcodeNip op)" "cb.blind C (opcodeOver op)" "cb.blind C (opcodePick op)"
  "cb.blind C (opcodeRoll op)" "cb.blind C (opcodeRot op)" "cb.blind C (opcodeSwap op)" "cb.blind C (opcodeTuck op)"
  "cb.blind C (opcodeSize op)" "cb.blind C (opcodeEqual op)"
  unfolding opcodeToAltStack_def opcodeFromAltStack_def opcode2Drop_def opcode2Dup_def opcode3Dup_def opcode2Over_def
    opcode2Rot_def opcode2Swap_def opcodeIfDup_def opcodeDepth_def opcodeDrop_def opcodeDup_def opcodeNip_def opcodeOver_def
    opcodePick_def opcodeRoll_def opcodeRot_def opcodeSwap_def opcodeTuck_def opcodeSize_def opcodeEqual_def
  by (intro blind_rules)+

lemma blind_num_handlers:
  "cb.blind C (opcode1Add op)" "cb.blind C (opcode1Sub op)" "cb.blind C (opcodeNegate op)" "cb.blind C (opcodeAbs op)"
  "cb.blind C (opcodeNot op)" "cb.blind C (opcode0NotEqual op)" "cb.blind C (opcodeAdd op)" "cb.blind C (opcodeSub op)"
  "cb.blind C (opcodeBoolAnd op)" "cb.blind C (opcodeBoolOr op)" "cb.blind C (opcodeNumEqual op)"
  "cb.blind C (opcodeNumNotEqual op)" "cb.blind C (opcodeLessThan op)" "cb.blind C (opcodeGreaterThan op)"
  "cb.blind C (opcodeLessThanOrEqual op)" "cb.blind C (opcodeGreaterThanOrEqual op)" "cb.blind C (opcodeMin op)"
  "cb.blind C (opcodeMax op)" "cb.blind C (opcodeWithin op)" "cb.blind C (opcodeRipemd160 C op)" "cb.blind C (opcodeSha1 op)"
  "cb.blind C (opcodeSha256 op)" "cb.blind C (opcodeHash160 C op)" "cb.blind C (opcodeHash256 op)"
  unfolding opcode1Add_def opcode1Sub_def opcodeNegate_def opcodeAbs_def opcodeNot_def opcode0NotEqual_def opcodeAdd_def
    opcodeSub_def opcodeBoolAnd_def opcodeBoolOr_def opcodeNumEqual_def opcodeNumNotEqual_def opcodeLessThan_def
    opcodeGreaterThan_def opcodeLessThanOrEqual_def opcodeGreaterThanOrEqual_def opcodeMin_def opcodeMax_def
    opcodeWithin_def opcodeRipemd160_def opcodeSha1_def opcodeSha256_def opcodeHash160_def opcodeHash256_def
  by (intro blind_helpers blind_rules)+

lemma blind_verify_handlers:
  "cb.blind C (opcodeEqualVerify op)" "cb.blind C (opcodeNumEqualVerify op)" "cb.blind C (opcodeCheckSigVerify C op)"
  "cb.blind C (opcodeCheckMultiSigVerify C op)"
  unfolding opcodeEqualVerify_def opcodeNumEqualVerify_def opcodeCheckSigVerify_def opcodeCheckMultiSigVerify_def
  by (intro blind_seq blind_abstractVerify blind_stack_handlers blind_num_handlers blind_checkSig blind_checkMultiSig)+

lemma blind_opfuncs: "list_all (\<lambda>f. \<forall>op. cb.blind C (f op)) (opfuncs C)"
  by (simp add: opfuncs_def blind_flow_handlers blind_stack_handlers blind_num_handlers blind_verify_handlers
      blind_checkSig blind_checkMultiSig)

section \<open>No step sees the caches\<close>

lemma blind_handler: "cb.blind C ((opfuncs C ! unat (pop_value pop)) pop)"
  using blind_opfuncs [of C] unat_byte_less [of "pop_value pop"] by (simp add: list_all_length length_opfuncs)

lemma blind_executeOpcode: "cb.blind C (executeOpcode C pop)"
  unfolding executeOpcode_def Let_def by (intro blind_countOp blind_handler blind_rules) simp_all

lemma blind_appendScript: "cb.blind C (appendScript s)"
  unfolding appendScript_def by (intro blind_rules blind_update) (simp_all add: forget_updates cong: if_cong)

lemma blind_SetStack: "cb.blind C (SetStack d)"
  unfolding SetStack_def by (rule blind_onD)

lemma blind_verifyWitnessProgram: "cb.blind C (verifyWitnessProgram w)"
  unfolding verifyWitnessProgram_def Let_def
  by (intro blind_appendScript blind_SetStack blind_rules blind_update) (simp_all add: forget_updates cong: if_cong)

lemma blind_CheckErrorCondition: "cb.blind C (CheckErrorCondition b)"
  unfolding CheckErrorCondition_def by (intro blind_rules) simp_all

lemma blind_nextIdx: "cb.blind C nextIdx"
  unfolding nextIdx_def by (rule blind_update) (simp_all add: forgetCaches_def)

lemma blind_switchScript: "cb.blind C switchScript"
  unfolding switchScript_def
  by (intro blind_nextIdx blind_appendScript blind_SetStack blind_CheckErrorCondition blind_verifyWitnessProgram
      blind_rules blind_update) (simp_all add: forget_updates cong: if_cong)

lemma blind_endOfScript: "cb.blind C endOfScript"
  unfolding endOfScript_def
  by (intro blind_switchScript blind_rules blind_update cb.blind_get) (simp_all add: forget_updates cong: if_cong)

lemma blind_Step: "cb.blind C (Step C)"
  unfolding Step_def Let_def
  by (intro blind_executeOpcode blind_endOfScript blind_rules blind_update) (simp_all add: forget_updates cong: if_cong)

section \<open>A whole run does not see the caches\<close>

lemma Execute_forget:
  assumes "crypto_ok C" "run_ok vm" "caches_ok C vm"
  shows "\<exists>r vm'. Execute C vm = Some (r, vm') \<and> Execute C (forgetCaches vm) = Some (r, forgetCaches vm') \<and> caches_ok C vm'"
  using assms(2,3)
proof (induction "steps_left vm" arbitrary: vm rule: less_induct)
  case less
  obtain r vm' where s: "Step C vm = (r, vm')" by fastforce
  have b: "caches_ok C vm'" "Step C (forgetCaches vm) = (r, forgetCaches vm')"
    using cb.blindD [OF blind_Step less.prems(2) s] by blast+
  note ok = Step_ok [OF assms(1) less.prems(1) s]
  show ?case
  proof (cases r)
    case (Inl e)
    then show ?thesis using s b by (simp add: Execute.simps)
  next
    case (Inr d)
    show ?thesis
    proof (cases d)
      case True
      obtain r2 vm2 where c: "CheckErrorCondition True vm' = (r2, vm2)" by fastforce
      then have "caches_ok C vm2" "CheckErrorCondition True (forgetCaches vm') = (r2, forgetCaches vm2)"
        using cb.blindD [OF blind_CheckErrorCondition b(1)] by blast+
      then show ?thesis using s b Inr True c by (simp add: Execute.simps [of C vm] Execute.simps [of C "forgetCaches vm"])
    next
      case False
      then show ?thesis using less.hyps [of vm'] ok s b Inr
        by (simp add: Execute.simps [of C vm] Execute.simps [of C "forgetCaches vm"])
    qed
  qed
qed

lemma setScriptsOf_forget: "setScriptsOf a ss (forgetCaches vm) = map_sum id forgetCaches (setScriptsOf a ss vm)"
  by (simp add: setScriptsOf_def Let_def forgetCaches_def hasFlag_def)

lemma setWitness_forget: "setWitness a b w (forgetCaches vm) = map_sum id forgetCaches (setWitness a b w vm)"
proof -
  have "findWitnessProgram (forgetCaches vm) a b w = findWitnessProgram vm a b w"
    by (simp add: findWitnessProgram_def)
  then show ?thesis
    by (auto simp: setWitness_def bindE_def forgetCaches_def hasFlag_def split: sum.splits option.splits)
qed

lemma NewEngine_forget:
  "NewEngine pk tx idx fs None None amt = map_sum id forgetCaches (NewEngine pk tx idx fs sc hc amt)"
proof -
  have z: "zeroEngine fs None None amt = forgetCaches (zeroEngine fs sc hc amt)" by (simp add: zeroEngine_def forgetCaches_def)
  have f: "(forgetCaches vm)\<lparr>vm_tx := tx, txIdx := idx\<rparr> = forgetCaches (vm\<lparr>vm_tx := tx, txIdx := idx\<rparr>)" for vm
    by (simp add: forgetCaches_def)
  show ?thesis unfolding NewEngine_def Let_def z
    by (auto simp: bindE_def setScriptsOf_forget setWitness_forget f split: sum.splits)
qed

lemma NewEngine_caches:
  assumes "NewEngine pk tx idx fs sc hc amt = Inr vm"
  shows "sigCache vm = sc \<and> hashCache vm = hc \<and> vm_tx vm = tx"
  using assms by (cases rule: NewEngine_cases) (simp add: zeroEngine_def)

end
