(* ===== verification/Wire_Block.thy ===== *)
theory Wire_Block
  imports Wire_Tx
begin

text \<open>
  Block headers, blocks, candidate blocks and the vote message
  (\<^verbatim>\<open>src/wire/blockheader.go\<close>, \<^verbatim>\<open>msgblock.go\<close>, \<^verbatim>\<open>msgcandidate.go\<close>,
  \<^verbatim>\<open>msgsign.go\<close>).

  The header of this chain carries the signature and the public key of the node that made the
  block, its estimate of the size of the network, and a reserved field, in place of a proof of
  work.  A time stamp is its number of seconds since the epoch; the encoder truncates it to 32
  bits.  An encoder that hands a value of an unsupported type to \<^verbatim>\<open>binary.Write\<close> fails, so
  encoders built from \<^verbatim>\<open>writeElements\<close> return an option.
\<close>

section \<open>Headers\<close>

record BlockHeader =
  hVersion :: "32 word"
  PrevBlock :: bytes
  MerkleRoot :: bytes
  Timestamp :: int
  hSignature :: bytes
  hPublicKey :: bytes
  Scale :: "16 word"
  Reserved :: "16 word"

definition MaxBlockHeaderPayload :: nat where
  "MaxBlockHeaderPayload = 12 + (HashSize * 2) + Hash64Size + Hash33Size"

definition blockHeaderLen :: nat where "blockHeaderLen = 173"

definition readBlockHeader :: "BlockHeader readM" where
  "readBlockHeader =
     bindM (readElements [KInt32, KHash, KHash, KUint32Time, KHash64, KHash33, KUint16, KUint16])
       (\<lambda>es. case es of
          [ElInt32 v, ElHash p, ElHash m, ElUint32Time t, ElHash64 s, ElHash33 k, ElUint16 sc, ElUint16 re]
            \<Rightarrow> returnM \<lparr>hVersion = v, PrevBlock = p, MerkleRoot = m, Timestamp = t, hSignature = s,
                        hPublicKey = k, Scale = sc, Reserved = re\<rparr>
        | _ \<Rightarrow> raiseM WirePanic)"

definition writeBlockHeader :: "BlockHeader \<Rightarrow> bytes option" where
  "writeBlockHeader bh =
     (let sec = (of_int (Timestamp bh) :: 32 word) in
      writeElements [ElInt32 (hVersion bh), ElHash (PrevBlock bh), ElHash (MerkleRoot bh), ElUint32 sec,
        ElHash64 (hSignature bh), ElHash33 (hPublicKey bh), ElUint16 (Scale bh), ElUint16 (Reserved bh)])"

definition BlockHash :: "BlockHeader \<Rightarrow> bytes" where
  "BlockHash h =
     DoubleHashH (case writeBlockHeader h of Some buf \<Rightarrow> buf | None \<Rightarrow> [])"

definition NewBlockHeader ::
  "int \<Rightarrow> 32 word \<Rightarrow> bytes \<Rightarrow> bytes \<Rightarrow> bytes \<Rightarrow> bytes \<Rightarrow> 16 word \<Rightarrow> 16 word \<Rightarrow> BlockHeader" where
  "NewBlockHeader now version prevHash merkleRootHash signature publickey scale reserved =
     \<lparr>hVersion = version, PrevBlock = prevHash, MerkleRoot = merkleRootHash, Timestamp = now,
      hSignature = signature, hPublicKey = publickey, Scale = scale, Reserved = reserved\<rparr>"

section \<open>Blocks\<close>

record MsgBlock =
  Header :: BlockHeader
  Transactions :: "MsgTx list"

record TxLoc =
  TxStart :: nat
  TxLen :: nat

definition MaxBlockPayload :: nat where "MaxBlockPayload = 4000000"
definition MaxVotePayload :: nat where "MaxVotePayload = 200"
definition maxTxPerBlock :: nat where "maxTxPerBlock = (MaxBlockPayload div minTxPayload) + 1"

definition AddTransaction :: "MsgTx \<Rightarrow> MsgBlock \<Rightarrow> MsgBlock" where
  "AddTransaction tx msg = msg\<lparr>Transactions := Transactions msg @ [tx]\<rparr>"

definition ClearTransactions :: "MsgBlock \<Rightarrow> MsgBlock" where
  "ClearTransactions msg = msg\<lparr>Transactions := []\<rparr>"

definition MsgBlock_BtcDecode :: "MessageEncoding \<Rightarrow> MsgBlock readM" where
  "MsgBlock_BtcDecode enc =
     bindM readBlockHeader (\<lambda>h. bindM ReadVarInt (\<lambda>txCount.
       if unat txCount > maxTxPerBlock then raiseM MessageError
       else bindM (repeatM (unat txCount) (MsgTx_BtcDecode enc)) (\<lambda>txs.
         returnM \<lparr>Header = h, Transactions = txs\<rparr>)))"

definition MsgBlock_BtcEncode :: "MessageEncoding \<Rightarrow> MsgBlock \<Rightarrow> bytes option" where
  "MsgBlock_BtcEncode enc msg =
     (case writeBlockHeader (Header msg) of None \<Rightarrow> None
      | Some h \<Rightarrow> Some (h @ WriteVarInt (of_nat (length (Transactions msg)))
                          @ concat (map (MsgTx_BtcEncode enc) (Transactions msg))))"

definition MsgBlock_Serialize :: "MsgBlock \<Rightarrow> bytes option" where
  "MsgBlock_Serialize msg = MsgBlock_BtcEncode WitnessEncoding msg"

definition MsgBlock_SerializeNoWitness :: "MsgBlock \<Rightarrow> bytes option" where
  "MsgBlock_SerializeNoWitness msg = MsgBlock_BtcEncode BaseEncoding msg"

definition MsgBlock_Deserialize :: "MsgBlock readM" where
  "MsgBlock_Deserialize = MsgBlock_BtcDecode WitnessEncoding"

definition MsgBlock_DeserializeNoWitness :: "MsgBlock readM" where
  "MsgBlock_DeserializeNoWitness = MsgBlock_BtcDecode BaseEncoding"

definition readTxLoc :: "nat \<Rightarrow> (MsgTx \<times> TxLoc) readM" where
  "readTxLoc fullLen = bindM (getM (\<lambda>r. r)) (\<lambda>r.
     let start = fullLen - length r in
     bindM MsgTx_Deserialize (\<lambda>tx. bindM (getM (\<lambda>r. r)) (\<lambda>r'.
       returnM (tx, \<lparr>TxStart = start, TxLen = (fullLen - length r') - start\<rparr>))))"

definition DeserializeTxLoc :: "(MsgBlock \<times> TxLoc list) readM" where
  "DeserializeTxLoc = bindM (getM (\<lambda>r. r)) (\<lambda>r0.
     let fullLen = length r0 in
     bindM readBlockHeader (\<lambda>h. bindM ReadVarInt (\<lambda>txCount.
       if unat txCount > maxTxPerBlock then raiseM MessageError
       else bindM (repeatM (unat txCount) (readTxLoc fullLen)) (\<lambda>tls.
         returnM (\<lparr>Header = h, Transactions = map fst tls\<rparr>, map snd tls)))))"

definition MsgBlock_SerializeSize :: "MsgBlock \<Rightarrow> nat" where
  "MsgBlock_SerializeSize msg =
     foldl (\<lambda>n tx. n + MsgTx_SerializeSize tx)
       (blockHeaderLen + VarIntSerializeSize (of_nat (length (Transactions msg)))) (Transactions msg)"

definition MsgBlock_SerializeSizeStripped :: "MsgBlock \<Rightarrow> nat" where
  "MsgBlock_SerializeSizeStripped msg =
     foldl (\<lambda>n tx. n + MsgTx_SerializeSizeStripped tx)
       (blockHeaderLen + VarIntSerializeSize (of_nat (length (Transactions msg)))) (Transactions msg)"

definition TxHashes :: "MsgBlock \<Rightarrow> bytes list" where
  "TxHashes msg = map TxHash (Transactions msg)"

section \<open>Candidate blocks and votes\<close>

text \<open>
  \<^verbatim>\<open>MsgSigwit.BtcEncode\<close> passes a pointer to a 32-bit integer, which has no case in
  \<^verbatim>\<open>writeElement\<close>; \<^verbatim>\<open>binary.Write\<close> follows the pointer and writes the four bytes.
  \<^verbatim>\<open>MsgVote\<close> passes pointers to pointers, which \<^verbatim>\<open>binary.Write\<close> and
  \<^verbatim>\<open>binary.Read\<close> reject.
\<close>

record MsgSigwit =
  Height :: "32 word"

record MsgCandidate = MsgBlock +
  Sigwit :: MsgSigwit

record MsgSign =
  BlockHeaderHash :: bytes
  sSignature :: bytes
  sPublicKey :: bytes

definition MsgSigwit_BtcDecode :: "MsgSigwit readM" where
  "MsgSigwit_BtcDecode = bindM Uint32 (\<lambda>h. returnM \<lparr>Height = h\<rparr>)"

definition MsgSigwit_BtcEncode :: "MsgSigwit \<Rightarrow> bytes" where
  "MsgSigwit_BtcEncode msg = PutUint32 (Height msg)"

definition MsgCandidate_BtcDecode :: "MessageEncoding \<Rightarrow> MsgCandidate readM" where
  "MsgCandidate_BtcDecode enc =
     bindM readBlockHeader (\<lambda>h. bindM ReadVarInt (\<lambda>txCount.
       if unat txCount > maxTxPerBlock then raiseM MessageError
       else bindM (repeatM (unat txCount) (MsgTx_BtcDecode enc)) (\<lambda>txs.
         bindM MsgSigwit_BtcDecode (\<lambda>s.
           returnM \<lparr>Header = h, Transactions = txs, Sigwit = s\<rparr>))))"

definition MsgCandidate_BtcEncode :: "MessageEncoding \<Rightarrow> MsgCandidate \<Rightarrow> bytes option" where
  "MsgCandidate_BtcEncode enc msg =
     (case writeBlockHeader (Header msg) of None \<Rightarrow> None
      | Some h \<Rightarrow> Some (h @ WriteVarInt (of_nat (length (Transactions msg)))
                          @ concat (map (MsgTx_BtcEncode enc) (Transactions msg))
                          @ MsgSigwit_BtcEncode (Sigwit msg)))"

definition readSign :: "MsgSign readM" where
  "readSign = bindM (readElements [KHash, KHash64, KHash33]) (\<lambda>es. case es of
       [ElHash h, ElHash64 s, ElHash33 k]
         \<Rightarrow> returnM \<lparr>BlockHeaderHash = h, sSignature = s, sPublicKey = k\<rparr>
     | _ \<Rightarrow> raiseM WirePanic)"

definition writeSign :: "MsgSign \<Rightarrow> bytes option" where
  "writeSign msg = writeElements [ElHash (BlockHeaderHash msg), ElHash64 (sSignature msg),
     ElHash33 (sPublicKey msg)]"

section \<open>Round trips\<close>

definition header_bytes :: "BlockHeader \<Rightarrow> bytes" where
  "header_bytes h = PutUint32 (hVersion h) @ PrevBlock h @ MerkleRoot h
     @ PutUint32 (of_int (Timestamp h)) @ hSignature h @ hPublicKey h
     @ PutUint16 (Scale h) @ PutUint16 (Reserved h)"

definition header_ok :: "BlockHeader \<Rightarrow> bool" where
  "header_ok h \<longleftrightarrow> length (PrevBlock h) = HashSize \<and> length (MerkleRoot h) = HashSize
     \<and> length (hSignature h) = Hash64Size \<and> length (hPublicKey h) = Hash33Size
     \<and> 0 \<le> Timestamp h \<and> Timestamp h < 2 ^ 32"

lemma writeBlockHeader_eq: "writeBlockHeader h = Some (header_bytes h)"
  by (simp add: writeBlockHeader_def header_bytes_def Let_def)

lemma uint_of_int_32: "0 \<le> t \<Longrightarrow> t < 2 ^ 32 \<Longrightarrow> uint (of_int t :: 32 word) = t"
  by (simp add: unsigned_of_int take_bit_int_eq_self)

lemma uint_32_bounds: "0 \<le> uint (w :: 32 word)" "uint (w :: 32 word) < 2 ^ 32"
  using unsigned_less [of w, where ?'a = int] by simp_all

interpretation header: canonical_codec header_bytes readBlockHeader header_ok
proof unfold_locales
  show "readBlockHeader (header_bytes h @ rest) = (Inr h, rest)" if "header_ok h" for h rest
    using that
    by (simp add: header_ok_def readBlockHeader_def header_bytes_def bindM_apply u32.dec_enc
        u16.dec_enc ReadFull_append returnM_apply uint_of_int_32)
  show "header_ok h \<and> bs = header_bytes h @ rest" if "readBlockHeader bs = (Inr h, rest)" for bs h rest
    using that uint_32_bounds
    by (auto simp: header_ok_def readBlockHeader_def header_bytes_def bindM_eq_Inr u32.dec_iff
        u16.dec_iff ReadFull_Inr returnM_apply)
qed

definition tx_enc_ok :: "MessageEncoding \<Rightarrow> MsgTx \<Rightarrow> bool" where
  "tx_enc_ok enc tx \<longleftrightarrow> tx_ok tx \<and> (if enc = BaseEncoding then \<not> HasWitness tx else TxIns tx \<noteq> [])"

interpretation txe: codec "MsgTx_BtcEncode enc" "MsgTx_BtcDecode enc" "tx_enc_ok enc" for enc
  by (cases enc; unfold_locales) (auto simp: tx_enc_ok_def tx_base.dec_enc tx_wit.dec_enc)

definition block_ok :: "MessageEncoding \<Rightarrow> 'a MsgBlock_scheme \<Rightarrow> bool" where
  "block_ok enc b \<longleftrightarrow> header_ok (Header b) \<and> length (Transactions b) \<le> maxTxPerBlock
     \<and> list_all (tx_enc_ok enc) (Transactions b)"

definition block_bytes :: "MessageEncoding \<Rightarrow> 'a MsgBlock_scheme \<Rightarrow> bytes" where
  "block_bytes enc b = header_bytes (Header b) @ WriteVarInt (of_nat (length (Transactions b)))
     @ concat (map (MsgTx_BtcEncode enc) (Transactions b))"

lemma tx_count: "block_ok enc b \<Longrightarrow>
  unat (of_nat (length (Transactions b)) :: 64 word) = length (Transactions b)"
  by (rule unat_of_nat_small)
    (simp add: block_ok_def maxTxPerBlock_def MaxBlockPayload_def minTxPayload_def)

interpretation block: codec "block_bytes enc" "MsgBlock_BtcDecode enc" "block_ok enc" for enc
proof
  fix b :: MsgBlock and rest
  assume "block_ok enc b"
  then show "MsgBlock_BtcDecode enc (block_bytes enc b @ rest) = (Inr b, rest)"
    using tx_count [of enc b]
    by (simp add: MsgBlock_BtcDecode_def block_bytes_def block_ok_def bindM_apply header.dec_enc
        varint.dec_enc txe.dec_list returnM_apply)
qed

definition candidate_bytes :: "MessageEncoding \<Rightarrow> MsgCandidate \<Rightarrow> bytes" where
  "candidate_bytes enc c = block_bytes enc c @ MsgSigwit_BtcEncode (Sigwit c)"

interpretation candidate: codec "candidate_bytes enc" "MsgCandidate_BtcDecode enc" "block_ok enc" for enc
proof
  fix c :: MsgCandidate and rest
  assume "block_ok enc c"
  then show "MsgCandidate_BtcDecode enc (candidate_bytes enc c @ rest) = (Inr c, rest)"
    using tx_count [of enc c]
    by (simp add: MsgCandidate_BtcDecode_def candidate_bytes_def block_bytes_def block_ok_def
        bindM_apply header.dec_enc varint.dec_enc txe.dec_list returnM_apply
        MsgSigwit_BtcDecode_def MsgSigwit_BtcEncode_def u32.dec_enc)
qed

lemma MsgBlock_BtcEncode_eq: "MsgBlock_BtcEncode enc b = Some (block_bytes enc b)"
  by (simp add: MsgBlock_BtcEncode_def block_bytes_def writeBlockHeader_eq)

lemma MsgCandidate_BtcEncode_eq: "MsgCandidate_BtcEncode enc c = Some (candidate_bytes enc c)"
  by (simp add: MsgCandidate_BtcEncode_def candidate_bytes_def block_bytes_def writeBlockHeader_eq)

definition sign_bytes :: "MsgSign \<Rightarrow> bytes" where
  "sign_bytes m = BlockHeaderHash m @ sSignature m @ sPublicKey m"

definition sign_ok :: "MsgSign \<Rightarrow> bool" where
  "sign_ok m \<longleftrightarrow> length (BlockHeaderHash m) = HashSize \<and> length (sSignature m) = Hash64Size
     \<and> length (sPublicKey m) = Hash33Size"

lemma writeSign_eq: "writeSign m = Some (sign_bytes m)"
  by (simp add: writeSign_def sign_bytes_def)

interpretation sign: canonical_codec sign_bytes readSign sign_ok
proof unfold_locales
  show "readSign (sign_bytes m @ rest) = (Inr m, rest)" if "sign_ok m" for m rest
    using that by (simp add: sign_ok_def readSign_def sign_bytes_def bindM_apply ReadFull_append
        returnM_apply)
  show "sign_ok m \<and> bs = sign_bytes m @ rest" if "readSign bs = (Inr m, rest)" for bs m rest
    using that by (auto simp: sign_ok_def readSign_def sign_bytes_def bindM_eq_Inr ReadFull_Inr
        returnM_apply)
qed

section \<open>Transaction locations\<close>

fun txlocs :: "nat \<Rightarrow> MsgTx list \<Rightarrow> TxLoc list" where
  "txlocs n [] = []"
| "txlocs n (tx # txs) = (let l = length (MsgTx_Serialize tx) in
     \<lparr>TxStart = n, TxLen = l\<rparr> # txlocs (n + l) txs)"

lemma length_txlocs [simp]: "length (txlocs n txs) = length txs"
  by (induction txs arbitrary: n) (simp_all add: Let_def)

lemma readTxLoc_ok:
  assumes "tx_enc_ok WitnessEncoding tx" "fullLen = n + length (MsgTx_Serialize tx @ rest)"
  shows "readTxLoc fullLen (MsgTx_Serialize tx @ rest) =
    (Inr (tx, \<lparr>TxStart = n, TxLen = length (MsgTx_Serialize tx)\<rparr>), rest)"
  using assms
  by (simp add: readTxLoc_def bindM_apply getM_apply MsgTx_Deserialize_def MsgTx_Serialize_def
      txe.dec_enc returnM_apply)

lemma repeatM_readTxLoc:
  assumes "list_all (tx_enc_ok WitnessEncoding) txs"
    and "fullLen = n + length (concat (map MsgTx_Serialize txs) @ rest)"
  shows "repeatM (length txs) (readTxLoc fullLen) (concat (map MsgTx_Serialize txs) @ rest)
    = (Inr (zip txs (txlocs n txs)), rest)"
  using assms
proof (induction txs arbitrary: n)
  case Nil
  then show ?case by (simp add: returnM_apply)
next
  case (Cons tx txs)
  let ?r = "concat (map MsgTx_Serialize txs) @ rest" and ?l = "length (MsgTx_Serialize tx)"
  have "readTxLoc fullLen (MsgTx_Serialize tx @ ?r) = (Inr (tx, \<lparr>TxStart = n, TxLen = ?l\<rparr>), ?r)"
    using Cons.prems by (intro readTxLoc_ok) simp_all
  moreover have "repeatM (length txs) (readTxLoc fullLen) ?r
      = (Inr (zip txs (txlocs (n + ?l) txs)), rest)"
    using Cons.prems by (intro Cons.IH) simp_all
  ultimately have "repeatM (Suc (length txs)) (readTxLoc fullLen) (MsgTx_Serialize tx @ ?r)
      = (Inr ((tx, \<lparr>TxStart = n, TxLen = ?l\<rparr>) # zip txs (txlocs (n + ?l) txs)), rest)"
    by (rule repeatM_Suc_Inr)
  then show ?case by (simp add: Let_def)
qed

lemma txlocs_slices:
  "length pre = n \<Longrightarrow>
   map (\<lambda>l. take (TxLen l) (drop (TxStart l) (pre @ concat (map MsgTx_Serialize txs) @ rest)))
     (txlocs n txs) = map MsgTx_Serialize txs"
proof (induction txs arbitrary: n pre)
  case Nil
  then show ?case by simp
next
  case (Cons tx txs)
  have "map (\<lambda>l. take (TxLen l) (drop (TxStart l)
        ((pre @ MsgTx_Serialize tx) @ concat (map MsgTx_Serialize txs) @ rest)))
      (txlocs (n + length (MsgTx_Serialize tx)) txs) = map MsgTx_Serialize txs"
    using Cons.prems by (intro Cons.IH) simp
  then show ?case using Cons.prems by (simp add: Let_def)
qed

lemma DeserializeTxLoc_encode:
  assumes ok: "block_ok WitnessEncoding b"
  defines "pre \<equiv> header_bytes (Header b) @ WriteVarInt (of_nat (length (Transactions b)))"
  shows "DeserializeTxLoc (block_bytes WitnessEncoding b @ rest)
    = (Inr (b, txlocs (length pre) (Transactions b)), rest)"
proof -
  let ?txs = "Transactions b" and ?full = "length (block_bytes WitnessEncoding b @ rest)"
  have bb: "block_bytes WitnessEncoding b = pre @ concat (map MsgTx_Serialize ?txs)"
    by (simp add: block_bytes_def pre_def MsgTx_Serialize_def [abs_def])
  have "repeatM (length ?txs) (readTxLoc ?full) (concat (map MsgTx_Serialize ?txs) @ rest)
      = (Inr (zip ?txs (txlocs (length pre) ?txs)), rest)"
    using ok by (intro repeatM_readTxLoc) (simp_all add: block_ok_def bb)
  then have "repeatM (length ?txs) (readTxLoc ?full) (concat (map MsgTx_Serialize ?txs) @ rest)
      = (Inr (zip ?txs (txlocs (length pre) ?txs)), rest)" .
  moreover have "block_bytes WitnessEncoding b @ rest = header_bytes (Header b)
      @ WriteVarInt (of_nat (length ?txs)) @ concat (map MsgTx_Serialize ?txs) @ rest"
    by (simp add: bb pre_def)
  moreover have "length ?txs \<le> maxTxPerBlock" "header_ok (Header b)"
    using ok by (simp_all add: block_ok_def)
  ultimately show ?thesis
    using tx_count [OF ok]
    by (simp add: DeserializeTxLoc_def bindM_apply getM_apply header.dec_enc varint.dec_enc
        returnM_apply)
qed

lemma length_header_bytes: "header_ok h \<Longrightarrow> length (header_bytes h) = blockHeaderLen"
  by (simp add: header_ok_def header_bytes_def blockHeaderLen_def HashSize_def Hash64Size_def
      Hash33Size_def PutUint32_def PutUint16_def)

lemma length_sign_bytes: "sign_ok m \<Longrightarrow> length (sign_bytes m) = 129"
  by (simp add: sign_ok_def sign_bytes_def HashSize_def Hash64Size_def Hash33Size_def)

lemma length_block_bytes:
  assumes "block_ok enc b"
  shows "length (block_bytes enc b) = (if enc = WitnessEncoding then MsgBlock_SerializeSize b
    else MsgBlock_SerializeSizeStripped b)"
proof -
  have tx: "list_all (\<lambda>ti. outpoint_ok (PreviousOutPoint ti)) (TxIns tx)"
    if "tx \<in> set (Transactions b)" for tx
    using assms that by (auto simp: block_ok_def tx_enc_ok_def tx_ok_def txin_ok_def list_all_iff)
  have sum: "sum_list (map (\<lambda>tx. length (MsgTx_BtcEncode enc tx)) (Transactions b)) =
      sum_list (map (if enc = WitnessEncoding then MsgTx_SerializeSize else MsgTx_SerializeSizeStripped)
        (Transactions b))"
    using length_encode [OF tx] by (cases enc) (auto intro!: arg_cong [of _ _ sum_list])
  show ?thesis
    using assms
    by (simp add: sum block_bytes_def block_ok_def length_header_bytes length_WriteVarInt length_concat
        comp_def MsgBlock_SerializeSize_def MsgBlock_SerializeSizeStripped_def foldl_add)
qed

section \<open>Properties\<close>

text \<open>
  C28: a block header is accepted exactly when the input starts with the 173 bytes that
  \<^verbatim>\<open>writeBlockHeader\<close> emits for it; the accepted headers have hashes, signature and key of
  their fixed sizes and a time stamp of 32 bits, and no header has two encodings.
\<close>

theorem header_decode_iff:
  "readBlockHeader bs = (Inr h, rest) \<longleftrightarrow>
     header_ok h \<and> blockHeaderLen \<le> length bs \<and>
     writeBlockHeader h = Some (take blockHeaderLen bs) \<and> rest = drop blockHeaderLen bs"
  using length_header_bytes [of h]
  by (auto simp: header.dec_iff writeBlockHeader_eq)

text \<open>
  C29: a block within the limits is recovered by \<^verbatim>\<open>BtcDecode\<close> from what \<^verbatim>\<open>BtcEncode\<close>
  wrote under the same encoding, the number of bytes is what \<^verbatim>\<open>SerializeSize\<close> (or
  \<^verbatim>\<open>SerializeSizeStripped\<close>) announces, and a candidate block is recovered with its height.
\<close>

theorem block_roundtrip:
  assumes "block_ok enc b" and "block_ok enc c"
  shows "\<exists>w v. MsgBlock_BtcEncode enc b = Some w \<and>
    MsgBlock_BtcDecode enc (w @ rest) = (Inr b, rest) \<and>
    length w = (if enc = WitnessEncoding then MsgBlock_SerializeSize b
                else MsgBlock_SerializeSizeStripped b) \<and>
    MsgCandidate_BtcEncode enc c = Some v \<and>
    MsgCandidate_BtcDecode enc (v @ rest) = (Inr c, rest)"
  using assms
  by (simp add: MsgBlock_BtcEncode_eq MsgCandidate_BtcEncode_eq block.dec_enc candidate.dec_enc
      length_block_bytes)

definition sample_header :: BlockHeader where
  "sample_header = NewBlockHeader 1500000000 1 (replicate 32 1) (replicate 32 2) (replicate 64 3)
     (replicate 33 4) 7 0"

definition sample_block :: MsgBlock where
  "sample_block = AddTransaction sample_tx \<lparr>Header = sample_header, Transactions = []\<rparr>"

definition sample_candidate :: MsgCandidate where
  "sample_candidate =
     \<lparr>Header = sample_header, Transactions = [sample_tx], Sigwit = \<lparr>Height = 12\<rparr>\<rparr>"

lemma sample_header_ok: "header_ok sample_header"
  by (simp add: sample_header_def NewBlockHeader_def header_ok_def HashSize_def Hash64Size_def
      Hash33Size_def)

lemma sample_block_ok: "block_ok WitnessEncoding sample_block" "block_ok WitnessEncoding sample_candidate"
  using sample_header_ok sample_tx_ok sample_tx_ins
  by (simp_all add: sample_block_def sample_candidate_def AddTransaction_def block_ok_def
      tx_enc_ok_def maxTxPerBlock_def)

theorem block_roundtrip_witness:
  "\<exists>w. MsgBlock_BtcEncode WitnessEncoding sample_block = Some w \<and>
    MsgBlock_BtcDecode WitnessEncoding (w @ [1]) = (Inr sample_block, [1])"
  using block_roundtrip [OF sample_block_ok, of "[1]"] by blast

text \<open>
  \<^verbatim>\<open>DeserializeTxLoc\<close> reads the block \<^verbatim>\<open>Serialize\<close> wrote, and the locations it
  returns, one per transaction in order, cut out of the raw block exactly the serialization of
  that transaction.
\<close>

theorem block_txloc_correct:
  assumes "block_ok WitnessEncoding b" and "MsgBlock_Serialize b = Some raw"
  shows "\<exists>locs. DeserializeTxLoc raw = (Inr (b, locs), []) \<and>
    map (\<lambda>l. take (TxLen l) (drop (TxStart l) raw)) locs = map MsgTx_Serialize (Transactions b)"
proof -
  let ?pre = "header_bytes (Header b) @ WriteVarInt (of_nat (length (Transactions b)))"
  have raw: "raw = block_bytes WitnessEncoding b"
    using assms(2) by (simp add: MsgBlock_Serialize_def MsgBlock_BtcEncode_eq)
  then have raw': "raw = ?pre @ concat (map MsgTx_Serialize (Transactions b)) @ []"
    by (simp add: block_bytes_def MsgTx_Serialize_def [abs_def])
  have "DeserializeTxLoc raw = (Inr (b, txlocs (length ?pre) (Transactions b)), [])"
    using DeserializeTxLoc_encode [OF assms(1), of "[]"] raw by simp
  moreover have "map (\<lambda>l. take (TxLen l) (drop (TxStart l) raw)) (txlocs (length ?pre) (Transactions b))
      = map MsgTx_Serialize (Transactions b)"
    unfolding raw' by (rule txlocs_slices) simp
  ultimately show ?thesis by blast
qed

theorem block_txloc_correct_witness:
  "\<exists>raw locs. MsgBlock_Serialize sample_block = Some raw \<and>
     DeserializeTxLoc raw = (Inr (sample_block, locs), []) \<and> length locs = 1"
proof -
  obtain raw where raw: "MsgBlock_Serialize sample_block = Some raw"
    by (simp add: MsgBlock_Serialize_def MsgBlock_BtcEncode_eq)
  from block_txloc_correct [OF sample_block_ok(1) raw] obtain locs where
    "DeserializeTxLoc raw = (Inr (sample_block, locs), [])"
    "map (\<lambda>l. take (TxLen l) (drop (TxStart l) raw)) locs = map MsgTx_Serialize (Transactions sample_block)"
    by blast
  moreover from this(2) have "length locs = length (Transactions sample_block)"
    by (rule map_eq_imp_length_eq)
  ultimately show ?thesis using raw by (auto simp: sample_block_def AddTransaction_def)
qed

text \<open>
  a vote is accepted exactly when the input starts with the 129 bytes \<^verbatim>\<open>writeSign\<close> emits
  for it, which stay below the largest payload allowed for the message.
\<close>

theorem sign_decode_iff:
  "(readSign bs = (Inr m, rest) \<longleftrightarrow>
     sign_ok m \<and> 129 \<le> length bs \<and> writeSign m = Some (take 129 bs) \<and> rest = drop 129 bs) \<and>
   129 \<le> MaxVotePayload"
  using length_sign_bytes [of m]
  by (auto simp: sign.dec_iff writeSign_eq MaxVotePayload_def)

end
