(* ===== verification/Chain_Utxo.thy ===== *)
theory Chain_Utxo
  imports Wire_Block Script_Parse
begin

text \<open>
  Views of the unspent transaction outputs (\<^verbatim>\<open>src/blockchain/utxoviewpoint.go\<close>): entries, the
  operations that connect and disconnect the transactions of a block, and the loading of entries
  from the database, whose lookups are parameters.  The abstract state of a view is the map from
  out points to the coins that are unspent in it; connecting a transaction refines taking its
  inputs out of that map and putting its outputs in, and disconnecting a block refines the inverse.
\<close>

unbundle bit_operations_syntax

section \<open>Errors\<close>

datatype (plugins only: code) RuleCode =
    ErrDuplicateBlock | ErrBlockTooBig | ErrBlockWeightTooHigh | ErrBlockVersionTooOld | ErrInvalidTime
  | ErrTimeTooOld | ErrTimeTooNew | ErrDifficultyTooLow | ErrUnexpectedDifficulty | ErrHighHash
  | ErrBadMerkleRoot | ErrBadCheckpoint | ErrForkTooOld | ErrCheckpointTimeTooOld | ErrNoTransactions
  | ErrNoTxInputs | ErrNoTxOutputs | ErrTxTooBig | ErrBadTxOutValue | ErrDuplicateTxInputs
  | ErrBadTxInput | ErrMissingTxOut | ErrUnfinalizedTx | ErrDuplicateTx | ErrOverwriteTx
  | ErrImmatureSpend | ErrSpendTooHigh | ErrBadFees | ErrTooManySigOps | ErrFirstTxNotCoinbase
  | ErrMultipleCoinbases | ErrBadCoinbaseScriptLen | ErrBadCoinbaseValue | ErrMissingCoinbaseHeight
  | ErrBadCoinbaseHeight | ErrScriptMalformed | ErrScriptValidation | ErrUnexpectedWitness
  | ErrInvalidWitnessCommitment | ErrWitnessCommitmentMismatch | ErrPreviousBlockUnknown
  | ErrInvalidAncestorBlock | ErrPrevBlockNotBest

text \<open>A rule violation, a failed assertion, an error of the database or of a parser, or a panic.\<close>

datatype chain_err = RuleError RuleCode | AssertError | OtherError | ChainPanic

definition ruleError :: "RuleCode \<Rightarrow> chain_err" where "ruleError c = RuleError c"

lemma ruleError_simps [simp]: "ruleError c \<noteq> ChainPanic" "ruleError c \<noteq> AssertError" "ruleError c = ruleError d \<longleftrightarrow> c = d"
  by (simp_all add: ruleError_def)

section \<open>Transactions and blocks\<close>

text \<open>A block with the height that the chain assigned to it.\<close>

record Block =
  msgBlock :: MsgBlock
  bHeight :: "32 word"

abbreviation blockTxs :: "Block \<Rightarrow> MsgTx list" where "blockTxs b \<equiv> Transactions (msgBlock b)"
abbreviation blockHash :: "Block \<Rightarrow> bytes" where "blockHash b \<equiv> BlockHash (Header (msgBlock b))"

definition nullHash :: bytes where "nullHash = replicate HashSize 0"

definition IsCoinBaseTx :: "MsgTx \<Rightarrow> bool" where
  "IsCoinBaseTx msgTx =
     (if length (TxIns msgTx) \<noteq> 1 then False
      else let prevOut = PreviousOutPoint (TxIns msgTx ! 0) in
        \<not> (Index prevOut \<noteq> 0xffffffff \<or> Hash prevOut \<noteq> nullHash))"

section \<open>Entries\<close>

type_synonym txoFlags = "8 word"

definition tfCoinBase :: txoFlags where "tfCoinBase = 1"
definition tfSpent :: txoFlags where "tfSpent = 2"
definition tfModified :: txoFlags where "tfModified = 4"

record UtxoEntry =
  ue_amount :: "64 word"
  ue_pkScript :: bytes
  ue_blockHeight :: "32 word"
  ue_packedFlags :: txoFlags

definition isModified :: "UtxoEntry \<Rightarrow> bool" where
  "isModified entry = (ue_packedFlags entry AND tfModified = tfModified)"
definition UtxoEntry_IsCoinBase :: "UtxoEntry \<Rightarrow> bool" where
  "UtxoEntry_IsCoinBase entry = (ue_packedFlags entry AND tfCoinBase = tfCoinBase)"
definition IsSpent :: "UtxoEntry \<Rightarrow> bool" where
  "IsSpent entry = (ue_packedFlags entry AND tfSpent = tfSpent)"

definition Spend :: "UtxoEntry \<Rightarrow> UtxoEntry" where
  "Spend entry = (if IsSpent entry then entry
     else entry\<lparr>ue_packedFlags := ue_packedFlags entry OR (tfSpent OR tfModified)\<rparr>)"

record SpentTxOut =
  st_Amount :: "64 word"
  st_PkScript :: bytes
  st_Height :: "32 word"
  st_IsCoinBase :: bool

definition stxoOf :: "UtxoEntry \<Rightarrow> SpentTxOut" where
  "stxoOf entry = \<lparr>st_Amount = ue_amount entry, st_PkScript = ue_pkScript entry,
     st_Height = ue_blockHeight entry, st_IsCoinBase = UtxoEntry_IsCoinBase entry\<rparr>"

section \<open>Views\<close>

text \<open>A view maps an out point to an entry, or to a nil entry for an output known not to be there.\<close>

record UtxoViewpoint =
  entries :: "OutPoint \<rightharpoonup> UtxoEntry option"
  bestHash :: bytes

definition NewUtxoViewpoint :: UtxoViewpoint where
  "NewUtxoViewpoint = \<lparr>entries = Map.empty, bestHash = nullHash\<rparr>"

definition SetBestHash :: "bytes \<Rightarrow> UtxoViewpoint \<Rightarrow> UtxoViewpoint" where
  "SetBestHash hash view = view\<lparr>bestHash := hash\<rparr>"

definition LookupEntry :: "UtxoViewpoint \<Rightarrow> OutPoint \<Rightarrow> UtxoEntry option" where
  "LookupEntry view outpoint = (case entries view outpoint of Some e \<Rightarrow> e | None \<Rightarrow> None)"

definition setEntry :: "OutPoint \<Rightarrow> UtxoEntry option \<Rightarrow> UtxoViewpoint \<Rightarrow> UtxoViewpoint" where
  "setEntry outpoint e view = view\<lparr>entries := (entries view)(outpoint \<mapsto> e)\<rparr>"

definition RemoveEntry :: "OutPoint \<Rightarrow> UtxoViewpoint \<Rightarrow> UtxoViewpoint" where
  "RemoveEntry outpoint view = view\<lparr>entries := (entries view)(outpoint := None)\<rparr>"

definition addTxOut :: "OutPoint \<Rightarrow> TxOut \<Rightarrow> bool \<Rightarrow> 32 word \<Rightarrow> UtxoViewpoint \<Rightarrow> UtxoViewpoint" where
  "addTxOut outpoint txOut isCoinBase blockHeight view =
     (if IsUnspendable (PkScript txOut) then view
      else setEntry outpoint (Some \<lparr>ue_amount = Value txOut, ue_pkScript = PkScript txOut, ue_blockHeight = blockHeight,
             ue_packedFlags = (if isCoinBase then tfModified OR tfCoinBase else tfModified)\<rparr>) view)"

definition UtxoViewpoint_AddTxOut :: "MsgTx \<Rightarrow> 32 word \<Rightarrow> 32 word \<Rightarrow> UtxoViewpoint \<Rightarrow> UtxoViewpoint" where
  "UtxoViewpoint_AddTxOut tx txOutIdx blockHeight view =
     (if txOutIdx \<ge> of_nat (length (TxOuts tx)) then view
      else addTxOut \<lparr>Hash = TxHash tx, Index = txOutIdx\<rparr> (TxOuts tx ! unat txOutIdx) (IsCoinBaseTx tx) blockHeight view)"

definition outPointsOf :: "MsgTx \<Rightarrow> (OutPoint \<times> TxOut) list" where
  "outPointsOf tx = map (\<lambda>(i, txOut). (\<lparr>Hash = TxHash tx, Index = of_nat i\<rparr>, txOut)) (enumerate 0 (TxOuts tx))"

definition AddTxOuts :: "MsgTx \<Rightarrow> 32 word \<Rightarrow> UtxoViewpoint \<Rightarrow> UtxoViewpoint" where
  "AddTxOuts tx blockHeight view =
     fold (\<lambda>(prevOut, txOut). addTxOut prevOut txOut (IsCoinBaseTx tx) blockHeight) (outPointsOf tx) view"

text \<open>Spends the inputs in order; \<open>stxos\<close> collects what was spent unless it is nil.\<close>

fun spendInputs :: "TxIn list \<Rightarrow> SpentTxOut list option \<Rightarrow> UtxoViewpoint \<Rightarrow>
    (chain_err + unit) \<times> SpentTxOut list option \<times> UtxoViewpoint" where
  "spendInputs [] stxos view = (Inr (), stxos, view)"
| "spendInputs (txIn # ins) stxos view =
     (case LookupEntry view (PreviousOutPoint txIn) of
        None \<Rightarrow> (Inl AssertError, stxos, view)
      | Some entry \<Rightarrow>
          spendInputs ins (map_option (\<lambda>s. s @ [stxoOf entry]) stxos)
            (setEntry (PreviousOutPoint txIn) (Some (Spend entry)) view))"

definition connectTransaction :: "MsgTx \<Rightarrow> 32 word \<Rightarrow> SpentTxOut list option \<Rightarrow> UtxoViewpoint \<Rightarrow>
    (chain_err + unit) \<times> SpentTxOut list option \<times> UtxoViewpoint" where
  "connectTransaction tx blockHeight stxos view =
     (if IsCoinBaseTx tx then (Inr (), stxos, AddTxOuts tx blockHeight view)
      else case spendInputs (TxIns tx) stxos view of
             (Inl err, stxos, view) \<Rightarrow> (Inl err, stxos, view)
           | (Inr _, stxos, view) \<Rightarrow> (Inr (), stxos, AddTxOuts tx blockHeight view))"

fun connectTxs :: "MsgTx list \<Rightarrow> 32 word \<Rightarrow> SpentTxOut list option \<Rightarrow> UtxoViewpoint \<Rightarrow>
    (chain_err + unit) \<times> SpentTxOut list option \<times> UtxoViewpoint" where
  "connectTxs [] height stxos view = (Inr (), stxos, view)"
| "connectTxs (tx # txs) height stxos view =
     (case connectTransaction tx height stxos view of
        (Inl err, stxos, view) \<Rightarrow> (Inl err, stxos, view)
      | (Inr _, stxos, view) \<Rightarrow> connectTxs txs height stxos view)"

definition connectTransactions :: "Block \<Rightarrow> SpentTxOut list option \<Rightarrow> UtxoViewpoint \<Rightarrow>
    (chain_err + unit) \<times> SpentTxOut list option \<times> UtxoViewpoint" where
  "connectTransactions block stxos view =
     (case connectTxs (blockTxs block) (bHeight block) stxos view of
        (Inl err, stxos, view) \<Rightarrow> (Inl err, stxos, view)
      | (Inr _, stxos, view) \<Rightarrow> (Inr (), stxos, SetBestHash (blockHash block) view))"

section \<open>The database\<close>

text \<open>
  The two lookups of the database: the entry of an out point, and any entry of a transaction.
  Both may fail.
\<close>

record utxo_db =
  dbFetchUtxoEntry :: "OutPoint \<Rightarrow> chain_err + UtxoEntry option"
  dbFetchUtxoEntryByHash :: "bytes \<Rightarrow> chain_err + UtxoEntry option"

definition MaxOutputsPerBlock :: nat where "MaxOutputsPerBlock = 4000000 div (4 * MinTxOutPayload)"

definition fetchEntryByHash :: "utxo_db \<Rightarrow> bytes \<Rightarrow> UtxoViewpoint \<Rightarrow> chain_err + UtxoEntry option" where
  "fetchEntryByHash db hash view =
     (case List.find (\<lambda>i. LookupEntry view \<lparr>Hash = hash, Index = of_nat i\<rparr> \<noteq> None) [0..<MaxOutputsPerBlock] of
        Some i \<Rightarrow> Inr (LookupEntry view \<lparr>Hash = hash, Index = of_nat i\<rparr>)
      | None \<Rightarrow> dbFetchUtxoEntryByHash db hash)"

text \<open>
  Fetches the entries of the given out points.  The code walks over a map, in an order that Go
  leaves open; the list stands for the order taken.
\<close>

fun fetchUtxosMain :: "utxo_db \<Rightarrow> OutPoint list \<Rightarrow> UtxoViewpoint \<Rightarrow> (chain_err + unit) \<times> UtxoViewpoint" where
  "fetchUtxosMain db [] view = (Inr (), view)"
| "fetchUtxosMain db (outpoint # outpoints) view =
     (case dbFetchUtxoEntry db outpoint of
        Inl err \<Rightarrow> (Inl err, view)
      | Inr entry \<Rightarrow> fetchUtxosMain db outpoints (setEntry outpoint entry view))"

definition fetchUtxos :: "utxo_db \<Rightarrow> OutPoint list \<Rightarrow> UtxoViewpoint \<Rightarrow> (chain_err + unit) \<times> UtxoViewpoint" where
  "fetchUtxos db outpoints view = fetchUtxosMain db (filter (\<lambda>o'. entries view o' = None) outpoints) view"

text \<open>The position of the last transaction of a block with a given hash, as the map of the code holds it.\<close>

definition txInFlight :: "MsgTx list \<Rightarrow> bytes \<Rightarrow> nat option" where
  "txInFlight txs hash = map_of (rev (map (\<lambda>(i, tx). (TxHash tx, i)) (enumerate 0 txs))) hash"

text \<open>\<open>i\<close> is the position of the transaction less one, as in the code.\<close>

fun inputNeeds :: "MsgTx list \<Rightarrow> 32 word \<Rightarrow> nat \<Rightarrow> TxIn list \<Rightarrow> OutPoint list \<Rightarrow> UtxoViewpoint \<Rightarrow>
    OutPoint list \<times> UtxoViewpoint" where
  "inputNeeds txs height i [] needed view = (needed, view)"
| "inputNeeds txs height i (txIn # ins) needed view =
     (case txInFlight txs (Hash (PreviousOutPoint txIn)) of
        Some j \<Rightarrow>
          if i \<ge> j then inputNeeds txs height i ins needed (AddTxOuts (txs ! j) height view)
          else if entries view (PreviousOutPoint txIn) \<noteq> None then inputNeeds txs height i ins needed view
          else inputNeeds txs height i ins (List.insert (PreviousOutPoint txIn) needed) view
      | None \<Rightarrow>
          if entries view (PreviousOutPoint txIn) \<noteq> None then inputNeeds txs height i ins needed view
          else inputNeeds txs height i ins (List.insert (PreviousOutPoint txIn) needed) view)"

fun blockNeeds :: "MsgTx list \<Rightarrow> 32 word \<Rightarrow> nat \<Rightarrow> MsgTx list \<Rightarrow> OutPoint list \<Rightarrow> UtxoViewpoint \<Rightarrow>
    OutPoint list \<times> UtxoViewpoint" where
  "blockNeeds txs height i [] needed view = (needed, view)"
| "blockNeeds txs height i (tx # rest) needed view =
     (case inputNeeds txs height i (TxIns tx) needed view of
        (needed, view) \<Rightarrow> blockNeeds txs height (i + 1) rest needed view)"

definition fetchInputUtxos :: "utxo_db \<Rightarrow> Block \<Rightarrow> UtxoViewpoint \<Rightarrow> (chain_err + unit) \<times> UtxoViewpoint" where
  "fetchInputUtxos db block view =
     (case blockTxs block of
        [] \<Rightarrow> (Inl ChainPanic, view)
      | tx # rest \<Rightarrow>
          (case blockNeeds (blockTxs block) (bHeight block) 0 rest [] view of
             (needed, view) \<Rightarrow> fetchUtxosMain db needed view))"

section \<open>Disconnecting a block\<close>

text \<open>\<^verbatim>\<open>block.Transactions()[1:]\<close> panics for a block without transactions.\<close>

definition countSpentOutputs :: "Block \<Rightarrow> chain_err + nat" where
  "countSpentOutputs block =
     (case blockTxs block of [] \<Rightarrow> Inl ChainPanic
      | tx # rest \<Rightarrow> Inr (sum_list (map (\<lambda>t. length (TxIns t)) rest)))"

definition spendOutput :: "bool \<Rightarrow> 32 word \<Rightarrow> OutPoint \<times> TxOut \<Rightarrow> UtxoViewpoint \<Rightarrow> UtxoViewpoint" where
  "spendOutput isCoinBase height = (\<lambda>(prevOut, txOut) view.
     if IsUnspendable (PkScript txOut) then view
     else
       let entry = (case LookupEntry view prevOut of
            Some e \<Rightarrow> e
          | None \<Rightarrow> \<lparr>ue_amount = Value txOut, ue_pkScript = PkScript txOut, ue_blockHeight = height,
                     ue_packedFlags = (if isCoinBase then tfCoinBase else 0)\<rparr>)
       in setEntry prevOut (Some (Spend entry)) view)"

definition zeroEntry :: UtxoEntry where
  "zeroEntry = \<lparr>ue_amount = 0, ue_pkScript = [], ue_blockHeight = 0, ue_packedFlags = 0\<rparr>"

definition entryOf :: "SpentTxOut \<Rightarrow> UtxoEntry" where
  "entryOf stxo = \<lparr>ue_amount = st_Amount stxo, ue_pkScript = st_PkScript stxo, ue_blockHeight = st_Height stxo,
     ue_packedFlags = (if st_IsCoinBase stxo then tfModified OR tfCoinBase else tfModified)\<rparr>"

text \<open>The details of a spent output whose height the old journal format left out.\<close>

definition legacyStxo :: "utxo_db \<Rightarrow> bytes \<Rightarrow> UtxoViewpoint \<Rightarrow> SpentTxOut \<Rightarrow> chain_err + SpentTxOut" where
  "legacyStxo db txHash view stxo =
     (if st_Height stxo = 0 then
        (case fetchEntryByHash db txHash view of
           Inl err \<Rightarrow> Inl err
         | Inr None \<Rightarrow> Inl AssertError
         | Inr (Some utxo) \<Rightarrow>
             Inr (stxo\<lparr>st_Height := ue_blockHeight utxo, st_IsCoinBase := UtxoEntry_IsCoinBase utxo\<rparr>))
      else Inr stxo)"

text \<open>
  Both lists are given from their ends: the inputs of a transaction, and the spent outputs not yet
  used.  The result of a call that succeeds is what is left of the second list.
\<close>

fun restoreInputs :: "utxo_db \<Rightarrow> bytes \<Rightarrow> TxIn list \<Rightarrow> SpentTxOut list \<Rightarrow> UtxoViewpoint \<Rightarrow>
    (chain_err + SpentTxOut list) \<times> UtxoViewpoint" where
  "restoreInputs db txHash [] stxos view = (Inr stxos, view)"
| "restoreInputs db txHash (txIn # ins) [] view = (Inl ChainPanic, view)"
| "restoreInputs db txHash (txIn # ins) (stxo # stxos) view =
     (let originOut = PreviousOutPoint txIn;
          view = (if LookupEntry view originOut = None then setEntry originOut (Some zeroEntry) view else view) in
      case legacyStxo db txHash view stxo of
        Inl err \<Rightarrow> (Inl err, view)
      | Inr stxo \<Rightarrow> restoreInputs db txHash ins stxos (setEntry originOut (Some (entryOf stxo)) view))"

definition disconnectTx :: "utxo_db \<Rightarrow> bool \<Rightarrow> 32 word \<Rightarrow> MsgTx \<Rightarrow> SpentTxOut list \<Rightarrow> UtxoViewpoint \<Rightarrow>
    (chain_err + SpentTxOut list) \<times> UtxoViewpoint" where
  "disconnectTx db isCoinBase height tx stxos view =
     (let view = fold (spendOutput isCoinBase height) (outPointsOf tx) view in
      if isCoinBase then (Inr stxos, view)
      else restoreInputs db (TxHash tx) (rev (TxIns tx)) stxos view)"

text \<open>The transactions from the last to the first, with the position of each.\<close>

fun disconnectTxs :: "utxo_db \<Rightarrow> 32 word \<Rightarrow> (nat \<times> MsgTx) list \<Rightarrow> SpentTxOut list \<Rightarrow> UtxoViewpoint \<Rightarrow>
    (chain_err + SpentTxOut list) \<times> UtxoViewpoint" where
  "disconnectTxs db height [] stxos view = (Inr stxos, view)"
| "disconnectTxs db height ((txIdx, tx) # txs) stxos view =
     (case disconnectTx db (txIdx = 0) height tx stxos view of
        (Inl err, view) \<Rightarrow> (Inl err, view)
      | (Inr stxos, view) \<Rightarrow> disconnectTxs db height txs stxos view)"

definition disconnectTransactions :: "utxo_db \<Rightarrow> Block \<Rightarrow> SpentTxOut list \<Rightarrow> UtxoViewpoint \<Rightarrow>
    (chain_err + unit) \<times> UtxoViewpoint" where
  "disconnectTransactions db block stxos view =
     (case countSpentOutputs block of
        Inl err \<Rightarrow> (Inl err, view)
      | Inr n \<Rightarrow>
          if length stxos \<noteq> n then (Inl AssertError, view)
          else (case disconnectTxs db (bHeight block) (rev (enumerate 0 (blockTxs block))) (rev stxos) view of
                  (Inl err, view) \<Rightarrow> (Inl err, view)
                | (Inr _, view) \<Rightarrow> (Inr (), SetBestHash (PrevBlock (Header (msgBlock block))) view)))"

text \<open>Drops the modified entries that are spent and toggles the modified flag of all others.\<close>

definition commit :: "UtxoViewpoint \<Rightarrow> UtxoViewpoint" where
  "commit view = view\<lparr>entries := (\<lambda>outpoint.
     case entries view outpoint of
       Some (Some entry) \<Rightarrow>
         if isModified entry \<and> IsSpent entry then None
         else Some (Some (entry\<lparr>ue_packedFlags := ue_packedFlags entry XOR tfModified\<rparr>))
     | _ \<Rightarrow> None)\<rparr>"

section \<open>The coins of a view\<close>

type_synonym coins = "OutPoint \<rightharpoonup> SpentTxOut"

definition coins :: "UtxoViewpoint \<Rightarrow> coins" where
  "coins view outpoint = (case LookupEntry view outpoint of
     Some entry \<Rightarrow> if IsSpent entry then None else Some (stxoOf entry) | None \<Rightarrow> None)"

text \<open>The abstract effect of a transaction on the coins.\<close>

definition addCoin :: "bool \<Rightarrow> 32 word \<Rightarrow> OutPoint \<times> TxOut \<Rightarrow> coins \<Rightarrow> coins" where
  "addCoin cb height = (\<lambda>(outpoint, txOut) A. if IsUnspendable (PkScript txOut) then A
     else A(outpoint \<mapsto> \<lparr>st_Amount = Value txOut, st_PkScript = PkScript txOut, st_Height = height, st_IsCoinBase = cb\<rparr>))"

definition inputsOf :: "MsgTx \<Rightarrow> OutPoint list" where
  "inputsOf tx = (if IsCoinBaseTx tx then [] else map PreviousOutPoint (TxIns tx))"

definition applyTx :: "32 word \<Rightarrow> MsgTx \<Rightarrow> coins \<Rightarrow> coins" where
  "applyTx height tx A = fold (addCoin (IsCoinBaseTx tx) height) (outPointsOf tx) (A |` (- set (inputsOf tx)))"

text \<open>A transaction may be applied when it spends distinct coins that are there and creates new ones.\<close>

definition applicable :: "MsgTx \<Rightarrow> coins \<Rightarrow> bool" where
  "applicable tx A = (distinct (inputsOf tx) \<and> set (inputsOf tx) \<subseteq> dom A \<and>
     (\<forall>(outpoint, txOut) \<in> set (outPointsOf tx). outpoint \<notin> dom A))"

fun applicableAll :: "32 word \<Rightarrow> MsgTx list \<Rightarrow> coins \<Rightarrow> bool" where
  "applicableAll height [] A = True"
| "applicableAll height (tx # txs) A = (applicable tx A \<and> applicableAll height txs (applyTx height tx A))"

section \<open>Connecting\<close>

lemma LookupEntry_setEntry [simp]:
  "LookupEntry (setEntry outpoint e view) p = (if p = outpoint then e else LookupEntry view p)"
  by (simp add: LookupEntry_def setEntry_def)

lemma bestHash_setEntry [simp]: "bestHash (setEntry outpoint e view) = bestHash view"
  by (simp add: setEntry_def)

lemma coins_setEntry: "coins (setEntry outpoint e view) = (coins view)(outpoint :=
    (case e of Some entry \<Rightarrow> if IsSpent entry then None else Some (stxoOf entry) | None \<Rightarrow> None))"
  by (rule ext) (simp add: coins_def)

lemma IsSpent_Spend [simp]: "IsSpent (Spend entry)"
proof -
  have "(w OR (tfSpent OR tfModified)) AND tfSpent = tfSpent" for w :: "8 word"
    by (rule bit_word_eqI) (auto simp: bit_simps tfSpent_def tfModified_def)
  then show ?thesis by (simp add: Spend_def IsSpent_def)
qed

lemma flags_simps [simp]:
  "IsSpent \<lparr>ue_amount = a, ue_pkScript = s, ue_blockHeight = h, ue_packedFlags = (if b then tfModified OR tfCoinBase else tfModified)\<rparr> = False"
  "UtxoEntry_IsCoinBase \<lparr>ue_amount = a, ue_pkScript = s, ue_blockHeight = h, ue_packedFlags = (if b then tfModified OR tfCoinBase else tfModified)\<rparr> = b"
  by (simp_all add: IsSpent_def UtxoEntry_IsCoinBase_def tfSpent_def tfModified_def tfCoinBase_def)

lemma stxoOf_entryOf [simp]: "stxoOf (entryOf stxo) = stxo" "IsSpent (entryOf stxo) = False"
  by (simp_all add: stxoOf_def entryOf_def)

lemma coins_addTxOut: "coins (addTxOut outpoint txOut cb height view) = addCoin cb height (outpoint, txOut) (coins view)"
  by (simp add: addTxOut_def addCoin_def coins_setEntry stxoOf_def)

lemma coins_AddTxOuts: "coins (AddTxOuts tx height view) = fold (addCoin (IsCoinBaseTx tx) height) (outPointsOf tx) (coins view)"
proof -
  have "coins (fold (\<lambda>(prevOut, txOut). addTxOut prevOut txOut cb height) ps view) = fold (addCoin cb height) ps (coins view)" for cb ps
    by (induction ps arbitrary: view) (auto simp: coins_addTxOut)
  then show ?thesis by (simp add: AddTxOuts_def)
qed

lemma bestHash_AddTxOuts: "bestHash (AddTxOuts tx height view) = bestHash view"
proof -
  have "bestHash (fold (\<lambda>(prevOut, txOut). addTxOut prevOut txOut cb height) ps view) = bestHash view" for cb ps
    by (induction ps arbitrary: view) (auto simp: addTxOut_def)
  then show ?thesis by (simp add: AddTxOuts_def)
qed

lemma coins_lookup: "p \<in> dom (coins view) \<Longrightarrow> \<exists>entry. LookupEntry view p = Some entry \<and> \<not> IsSpent entry \<and> coins view p = Some (stxoOf entry)"
  by (auto simp: coins_def split: option.splits if_splits)

lemma restrict_upd_None: "(A(p := None)) |` (- S) = A |` (- insert p S)"
  by (rule ext) (auto simp: restrict_map_def)

lemma restrict_UNIV [simp]: "A |` UNIV = A"
  by (simp add: restrict_map_def)

lemma spendInputs_ok:
  assumes "distinct (map PreviousOutPoint ins)" "set (map PreviousOutPoint ins) \<subseteq> dom (coins view)"
  shows "\<exists>view'. spendInputs ins (Some st) view = (Inr (), Some (st @ map (\<lambda>i. the (coins view (PreviousOutPoint i))) ins), view') \<and>
    coins view' = coins view |` (- set (map PreviousOutPoint ins)) \<and> bestHash view' = bestHash view"
  using assms
proof (induction ins arbitrary: st view)
  case Nil
  then show ?case by simp
next
  case (Cons i ins)
  then obtain e where e: "LookupEntry view (PreviousOutPoint i) = Some e" "coins view (PreviousOutPoint i) = Some (stxoOf e)"
    using coins_lookup [of "PreviousOutPoint i" view] by auto
  let ?v = "setEntry (PreviousOutPoint i) (Some (Spend e)) view"
  have c: "coins ?v = (coins view)(PreviousOutPoint i := None)" by (simp add: coins_setEntry)
  have "\<exists>view'. spendInputs ins (Some (st @ [stxoOf e])) ?v = (Inr (), Some ((st @ [stxoOf e]) @ map (\<lambda>i. the (coins ?v (PreviousOutPoint i))) ins), view') \<and>
    coins view' = coins ?v |` (- set (map PreviousOutPoint ins)) \<and> bestHash view' = bestHash ?v"
  proof (rule Cons.IH)
    have "PreviousOutPoint ` set ins \<subseteq> dom (coins view) - {PreviousOutPoint i}"
      using Cons.prems by (simp add: subset_Diff_insert)
    then show "set (map PreviousOutPoint ins) \<subseteq> dom (coins ?v)" by (simp add: c)
  qed (use Cons.prems in simp)
  then obtain v where v: "spendInputs ins (Some (st @ [stxoOf e])) ?v =
      (Inr (), Some ((st @ [stxoOf e]) @ map (\<lambda>i. the (coins ?v (PreviousOutPoint i))) ins), v)"
    "coins v = coins ?v |` (- set (map PreviousOutPoint ins))" "bestHash v = bestHash ?v" by blast
  have m: "map (\<lambda>j. the (coins ?v (PreviousOutPoint j))) ins = map (\<lambda>j. the (coins view (PreviousOutPoint j))) ins"
  proof -
    have "PreviousOutPoint j \<noteq> PreviousOutPoint i" if "j \<in> set ins" for j
      using Cons.prems(1) imageI [OF that, of PreviousOutPoint] by (metis distinct.simps(2) list.simps(9) set_map)
    then show ?thesis by (simp add: c)
  qed
  have "coins v = coins view |` (- set (map PreviousOutPoint (i # ins)))"
    using v(2) unfolding c restrict_upd_None by simp
  then show ?case using v(1,3) [unfolded m] e by simp
qed

lemma connectTransaction_ok:
  assumes "applicable tx (coins view)"
  shows "\<exists>view'. connectTransaction tx height (Some st) view =
      (Inr (), Some (st @ map (\<lambda>p. the (coins view p)) (inputsOf tx)), view') \<and>
    coins view' = applyTx height tx (coins view) \<and> bestHash view' = bestHash view"
proof (cases "IsCoinBaseTx tx")
  case True
  then show ?thesis by (simp add: connectTransaction_def inputsOf_def applyTx_def coins_AddTxOuts bestHash_AddTxOuts)
next
  case False
  then show ?thesis using assms spendInputs_ok [of "TxIns tx" view st]
    by (auto simp: connectTransaction_def inputsOf_def applyTx_def applicable_def coins_AddTxOuts bestHash_AddTxOuts)
qed

text \<open>The coins that a list of transactions spends, in the order of the spend journal.\<close>

fun journal :: "32 word \<Rightarrow> MsgTx list \<Rightarrow> coins \<Rightarrow> SpentTxOut list" where
  "journal height [] A = []"
| "journal height (tx # txs) A = map (\<lambda>p. the (A p)) (inputsOf tx) @ journal height txs (applyTx height tx A)"

lemma connectTxs_ok:
  assumes "applicableAll height txs (coins view)"
  shows "\<exists>view'. connectTxs txs height (Some st) view = (Inr (), Some (st @ journal height txs (coins view)), view') \<and>
    coins view' = fold (applyTx height) txs (coins view) \<and> bestHash view' = bestHash view"
  using assms
proof (induction txs arbitrary: st view)
  case (Cons tx txs)
  then obtain v1 where v1: "connectTransaction tx height (Some st) view =
      (Inr (), Some (st @ map (\<lambda>p. the (coins view p)) (inputsOf tx)), v1)"
    "coins v1 = applyTx height tx (coins view)" "bestHash v1 = bestHash view"
    using connectTransaction_ok [of tx view height st] by auto
  have "applicableAll height txs (coins v1)" using Cons.prems v1(2) by simp
  from Cons.IH [OF this, of "st @ map (\<lambda>p. the (coins view p)) (inputsOf tx)"]
  show ?case using v1 by auto
qed simp

section \<open>Disconnecting\<close>

definition removeCoin :: "OutPoint \<times> TxOut \<Rightarrow> coins \<Rightarrow> coins" where
  "removeCoin = (\<lambda>(outpoint, txOut) A. if IsUnspendable (PkScript txOut) then A else A(outpoint := None))"

lemma coins_spendOutputs:
  "coins (fold (spendOutput cb height) ps view) = fold removeCoin ps (coins view)"
proof (induction ps arbitrary: view)
  case (Cons p ps)
  have "coins (spendOutput cb height p view) = removeCoin p (coins view)"
    by (cases p) (simp add: spendOutput_def removeCoin_def coins_setEntry)
  then show ?case using Cons by simp
qed simp

lemma restoreInputs_ok:
  assumes "list_all (\<lambda>s. st_Height s \<noteq> 0) sts" "length ins = length sts"
  shows "\<exists>view'. restoreInputs db h ins (sts @ rest) view = (Inr rest, view') \<and>
    coins view' = fold (\<lambda>(i, s) A. A(PreviousOutPoint i \<mapsto> s)) (zip ins sts) (coins view)"
  using assms
proof (induction ins arbitrary: sts view)
  case (Cons i ins)
  then obtain s sts' where s: "sts = s # sts'" "st_Height s \<noteq> 0" by (cases sts) auto
  let ?v = "if LookupEntry view (PreviousOutPoint i) = None then setEntry (PreviousOutPoint i) (Some zeroEntry) view else view"
  let ?w = "setEntry (PreviousOutPoint i) (Some (entryOf s)) ?v"
  have w: "coins ?w = (coins view)(PreviousOutPoint i \<mapsto> s)" by (simp add: coins_setEntry)
  have "\<exists>view'. restoreInputs db h ins (sts' @ rest) ?w = (Inr rest, view') \<and>
    coins view' = fold (\<lambda>(i, s) A. A(PreviousOutPoint i \<mapsto> s)) (zip ins sts') (coins ?w)"
    by (rule Cons.IH) (use Cons.prems s in auto)
  moreover have "restoreInputs db h (i # ins) (s # sts' @ rest) view = restoreInputs db h ins (sts' @ rest) ?w"
    using s(2) by (simp add: legacyStxo_def Let_def)
  ultimately show ?case using s(1) by (simp add: w del: fun_upd_apply)
qed simp

lemma fold_removeCoin:
  "fold removeCoin ps A = (\<lambda>p. if \<exists>t. (p, t) \<in> set ps \<and> \<not> IsUnspendable (PkScript t) then None else A p)"
proof (induction ps arbitrary: A)
  case (Cons q ps)
  then show ?case by (cases q) (auto simp: removeCoin_def fun_eq_iff)
qed simp

lemma fold_addCoin_other:
  "(\<And>t. (p, t) \<in> set ps \<Longrightarrow> IsUnspendable (PkScript t)) \<Longrightarrow> fold (addCoin cb height) ps A p = A p"
proof (induction ps arbitrary: A)
  case (Cons q ps)
  have "fold (addCoin cb height) ps (addCoin cb height q A) p = addCoin cb height q A p" by (rule Cons.IH) (use Cons.prems in auto)
  also have "\<dots> = A p" using Cons.prems [of "snd q"] by (cases q) (auto simp: addCoin_def)
  finally show ?case by simp
qed simp

lemma fold_zip_upd:
  assumes "distinct ps"
  shows "fold (\<lambda>(p, s) A. A(p \<mapsto> s)) (zip ps (map f ps)) A = (\<lambda>q. if q \<in> set ps then Some (f q) else A q)"
  using assms by (induction ps arbitrary: A) (auto simp: fun_eq_iff)

text \<open>Removing the outputs and putting the inputs back undoes a transaction.\<close>

lemma undo_applyTx:
  assumes "applicable tx A"
  shows "fold (\<lambda>(p, s) B. B(p \<mapsto> s)) (zip (rev (inputsOf tx)) (map (\<lambda>p. the (A p)) (rev (inputsOf tx))))
    (fold removeCoin (outPointsOf tx) (applyTx height tx A)) = A"
proof
  fix p
  have d: "distinct (rev (inputsOf tx))" "set (inputsOf tx) \<subseteq> dom A" using assms by (auto simp: applicable_def)
  show "fold (\<lambda>(p, s) B. B(p \<mapsto> s)) (zip (rev (inputsOf tx)) (map (\<lambda>p. the (A p)) (rev (inputsOf tx))))
    (fold removeCoin (outPointsOf tx) (applyTx height tx A)) p = A p"
  proof (cases "p \<in> set (inputsOf tx)")
    case True
    then show ?thesis using d by (auto simp: fold_zip_upd)
  next
    case False
    show ?thesis
    proof (cases "\<exists>t. (p, t) \<in> set (outPointsOf tx) \<and> \<not> IsUnspendable (PkScript t)")
      case True
      then have "A p = None" using assms by (fastforce simp: applicable_def domIff)
      then show ?thesis using d(1) False True by (simp add: fold_zip_upd fold_removeCoin)
    next
      case 2: False
      then have "applyTx height tx A p = A p"
        using False by (simp add: applyTx_def fold_addCoin_other)
      then show ?thesis using d(1) False 2 by (auto simp: fold_zip_upd fold_removeCoin)
    qed
  qed
qed

lemma zip_inputs: "fold (\<lambda>(i, s) A. A(PreviousOutPoint i \<mapsto> s)) (zip ins sts) A =
    fold (\<lambda>(p, s) A. A(p \<mapsto> s)) (zip (map PreviousOutPoint ins) sts) A"
  by (induction ins sts arbitrary: A rule: list_induct2') auto

lemma disconnectTx_ok:
  assumes "applicable tx A" "coins view = applyTx height tx A" "\<forall>c \<in> ran A. st_Height c \<noteq> 0"
  shows "\<exists>view'. disconnectTx db (IsCoinBaseTx tx) height tx (rev (map (\<lambda>p. the (A p)) (inputsOf tx)) @ rest) view = (Inr rest, view')
    \<and> coins view' = A"
proof (cases "IsCoinBaseTx tx")
  case True
  then show ?thesis using undo_applyTx [OF assms(1), of height]
    by (simp add: disconnectTx_def inputsOf_def coins_spendOutputs assms(2))
next
  case False
  let ?ins = "rev (TxIns tx)"
  have i: "inputsOf tx = map PreviousOutPoint (TxIns tx)" using False by (simp add: inputsOf_def)
  have "set (inputsOf tx) \<subseteq> dom A" using assms(1) by (simp add: applicable_def)
  then have "list_all (\<lambda>s. st_Height s \<noteq> 0) (rev (map (\<lambda>p. the (A p)) (inputsOf tx)))"
    using assms(3) by (fastforce simp: list_all_iff ran_def)
  from restoreInputs_ok [OF this, of ?ins db "TxHash tx" rest "fold (spendOutput False height) (outPointsOf tx) view"]
  obtain view' where v: "restoreInputs db (TxHash tx) ?ins (rev (map (\<lambda>p. the (A p)) (inputsOf tx)) @ rest)
      (fold (spendOutput False height) (outPointsOf tx) view) = (Inr rest, view')"
    "coins view' = fold (\<lambda>(i, s) A. A(PreviousOutPoint i \<mapsto> s)) (zip ?ins (rev (map (\<lambda>p. the (A p)) (inputsOf tx))))
        (fold removeCoin (outPointsOf tx) (applyTx height tx A))"
    by (auto simp: i coins_spendOutputs assms(2))
  have "coins view' = A"
    using v(2) undo_applyTx [OF assms(1), of height] by (simp add: zip_inputs i rev_map)
  then show ?thesis using v(1) False by (simp add: disconnectTx_def)
qed

lemma applyTx_ran:
  assumes "height \<noteq> 0" "\<forall>c \<in> ran A. st_Height c \<noteq> 0"
  shows "\<forall>c \<in> ran (applyTx height tx A). st_Height c \<noteq> 0"
proof -
  have "\<forall>c \<in> ran B. st_Height c \<noteq> 0 \<Longrightarrow> \<forall>c \<in> ran (fold (addCoin cb height) ps B). st_Height c \<noteq> 0" for cb ps B
  proof (induction ps arbitrary: B)
    case (Cons p ps)
    show ?case unfolding fold_simps
      by (rule Cons.IH) (use Cons.prems assms(1) in \<open>cases p; auto simp: addCoin_def ran_def\<close>)
  qed simp
  moreover have "\<forall>c \<in> ran (A |` S). st_Height c \<noteq> 0" for S
    using assms(2) by (auto simp: ran_def restrict_map_def split: if_splits)
  ultimately show ?thesis unfolding applyTx_def by blast
qed

lemma disconnectTxs_ok:
  assumes "applicableAll height txs A" "coins view = fold (applyTx height) txs A" "\<forall>c \<in> ran A. st_Height c \<noteq> 0" "height \<noteq> 0"
    "list_all2 (\<lambda>n tx. (n = 0) = IsCoinBaseTx tx) ns txs"
  shows "\<exists>view'. disconnectTxs db height (rev (zip ns txs) @ earlier) (rev (journal height txs A) @ rest) view =
    disconnectTxs db height earlier rest view' \<and> coins view' = A"
  using assms
proof (induction txs arbitrary: A ns earlier rest)
  case Nil
  then show ?case by auto
next
  case (Cons tx txs)
  then obtain n ns' where ns: "ns = n # ns'" "(n = 0) = IsCoinBaseTx tx" "list_all2 (\<lambda>n tx. (n = 0) = IsCoinBaseTx tx) ns' txs"
    by (auto simp: list_all2_Cons2)
  let ?B = "applyTx height tx A"
  have "\<exists>view'. disconnectTxs db height (rev (zip ns' txs) @ ((n, tx) # earlier))
      (rev (journal height txs ?B) @ (rev (map (\<lambda>p. the (A p)) (inputsOf tx)) @ rest)) view =
    disconnectTxs db height ((n, tx) # earlier) (rev (map (\<lambda>p. the (A p)) (inputsOf tx)) @ rest) view' \<and> coins view' = ?B"
    by (rule Cons.IH) (use Cons.prems ns(3) applyTx_ran in auto)
  then obtain v1 where v1: "disconnectTxs db height (rev (zip ns' txs) @ ((n, tx) # earlier))
      (rev (journal height txs ?B) @ (rev (map (\<lambda>p. the (A p)) (inputsOf tx)) @ rest)) view =
    disconnectTxs db height ((n, tx) # earlier) (rev (map (\<lambda>p. the (A p)) (inputsOf tx)) @ rest) v1" "coins v1 = ?B" by blast
  have "applicable tx A" using Cons.prems by simp
  from disconnectTx_ok [OF this v1(2) Cons.prems(3), of db rest]
  obtain v2 where "disconnectTx db (n = 0) height tx (rev (map (\<lambda>p. the (A p)) (inputsOf tx)) @ rest) v1 = (Inr rest, v2)" "coins v2 = A"
    unfolding ns(2) by blast
  moreover have "disconnectTxs db height (rev (zip ns (tx # txs)) @ earlier) (rev (journal height (tx # txs) A) @ rest) view =
      disconnectTxs db height ((n, tx) # earlier) (rev (map (\<lambda>p. the (A p)) (inputsOf tx)) @ rest) v1"
    using v1(1) by (simp add: ns(1))
  ultimately show ?case by (intro exI [of _ v2]) simp
qed

lemma length_journal: "length (journal height txs A) = sum_list (map (\<lambda>tx. length (inputsOf tx)) txs)"
  by (induction txs arbitrary: A) simp_all

lemma connect_disconnect:
  assumes "blockTxs block = cb # txs" "IsCoinBaseTx cb" "list_all (\<lambda>tx. \<not> IsCoinBaseTx tx) txs"
    "applicableAll (bHeight block) (cb # txs) (coins view)" "\<forall>c \<in> ran (coins view). st_Height c \<noteq> 0" "bHeight block \<noteq> 0"
  shows "\<exists>stxos view1 view2. connectTransactions block (Some []) view = (Inr (), Some stxos, view1) \<and>
    coins view1 = fold (applyTx (bHeight block)) (blockTxs block) (coins view) \<and>
    disconnectTransactions db block stxos view1 = (Inr (), view2) \<and> coins view2 = coins view"
proof -
  let ?h = "bHeight block" and ?txs = "cb # txs"
  from connectTxs_ok [OF assms(4), of "[]"] obtain v1 where v1:
    "connectTxs ?txs ?h (Some []) view = (Inr (), Some (journal ?h ?txs (coins view)), v1)"
    "coins v1 = fold (applyTx ?h) ?txs (coins view)" by auto
  let ?v = "SetBestHash (blockHash block) v1"
  have cs: "coins (SetBestHash h v) = coins v" for h v by (simp add: fun_eq_iff coins_def LookupEntry_def SetBestHash_def)
  have ns: "list_all2 (\<lambda>n tx. (n = 0) = IsCoinBaseTx tx) [0..<length ?txs] ?txs"
    using assms(2,3) by (auto simp: list_all2_conv_all_nth list_all_length nth_Cons split: nat.splits simp del: upt_Suc)
  have "coins ?v = fold (applyTx ?h) ?txs (coins view)" by (simp add: cs v1(2))
  from disconnectTxs_ok [OF assms(4) this assms(5,6) ns, of db "[]" "[]"] obtain v2 where v2:
    "disconnectTxs db ?h (rev (enumerate 0 ?txs)) (rev (journal ?h ?txs (coins view))) ?v = (Inr [], v2)" "coins v2 = coins view"
    by (auto simp: enumerate_eq_zip)
  have "map (\<lambda>tx. length (inputsOf tx)) txs = map (\<lambda>tx. length (TxIns tx)) txs" "inputsOf cb = []"
    using assms(2,3) by (auto simp: inputsOf_def list_all_iff)
  then have "countSpentOutputs block = Inr (length (journal ?h ?txs (coins view)))"
    using assms(1) by (simp only: countSpentOutputs_def length_journal list.case list.map sum_list.Cons list.size add_0)
  then have "disconnectTransactions db block (journal ?h ?txs (coins view)) ?v =
      (Inr (), SetBestHash (PrevBlock (Header (msgBlock block))) v2)"
    using v2 assms(1) by (simp add: disconnectTransactions_def)
  then show ?thesis using v1 v2(2) assms(1) by (simp add: connectTransactions_def cs)
qed

section \<open>Properties\<close>

text \<open>
  C10: Connecting a block to a view spends and creates exactly the coins its transactions name,
  and disconnecting the block with the spend journal that connecting it produced gives back the
  coins from before, whatever the database holds.  This holds for a block that starts with its only
  coinbase, whose transactions spend distinct coins that are there and create new out points, when
  no coin has height 0 (the mark of the old journal format).
\<close>

theorem utxo_reorg_inverse:
  assumes "blockTxs block = cb # txs" "IsCoinBaseTx cb" "list_all (\<lambda>tx. \<not> IsCoinBaseTx tx) txs"
    "applicableAll (bHeight block) (cb # txs) (coins view)" "\<forall>c \<in> ran (coins view). st_Height c \<noteq> 0" "bHeight block \<noteq> 0"
  shows "\<exists>stxos view1 view2. connectTransactions block (Some []) view = (Inr (), Some stxos, view1) \<and>
    coins view1 = fold (applyTx (bHeight block)) (blockTxs block) (coins view) \<and>
    disconnectTransactions db block stxos view1 = (Inr (), view2) \<and> coins view2 = coins view"
  by (rule connect_disconnect [OF assms])

text \<open>A view with one coin, and a block that spends it.\<close>

definition oneCoin :: UtxoEntry where
  "oneCoin = \<lparr>ue_amount = 5, ue_pkScript = [], ue_blockHeight = 3, ue_packedFlags = 0\<rparr>"

definition oneCoinView :: UtxoViewpoint where
  "oneCoinView = setEntry \<lparr>Hash = [], Index = 0\<rparr> (Some oneCoin) NewUtxoViewpoint"

definition emptyCoinbase :: MsgTx where
  "emptyCoinbase = \<lparr>Version = 1, TxIns = [\<lparr>PreviousOutPoint = \<lparr>Hash = nullHash, Index = 0xffffffff\<rparr>,
     SignatureScript = [], Witness = [], Sequence = 0\<rparr>], TxOuts = [], LockTime = 0\<rparr>"

definition spender :: MsgTx where
  "spender = \<lparr>Version = 1, TxIns = [\<lparr>PreviousOutPoint = \<lparr>Hash = [], Index = 0\<rparr>,
     SignatureScript = [], Witness = [], Sequence = 0\<rparr>], TxOuts = [\<lparr>Value = 4, PkScript = []\<rparr>], LockTime = 0\<rparr>"

definition spendBlock :: Block where
  "spendBlock = \<lparr>msgBlock = \<lparr>Header = \<lparr>hVersion = 1, PrevBlock = nullHash, MerkleRoot = nullHash, Timestamp = 0,
     hSignature = [], hPublicKey = [], Scale = 1, Reserved = 0\<rparr>, Transactions = [emptyCoinbase, spender]\<rparr>, bHeight = 4\<rparr>"

lemma oneCoinView_coins: "coins oneCoinView = [\<lparr>Hash = [], Index = 0\<rparr> \<mapsto> stxoOf oneCoin]"
  by (rule ext) (simp add: oneCoinView_def coins_def NewUtxoViewpoint_def oneCoin_def IsSpent_def tfSpent_def LookupEntry_def [of "\<lparr>entries = _, bestHash = _\<rparr>"])

theorem utxo_reorg_inverse_witness:
  "\<exists>stxos view1 view2. connectTransactions spendBlock (Some []) oneCoinView = (Inr (), Some stxos, view1) \<and>
    coins view1 = fold (applyTx 4) [emptyCoinbase, spender] (coins oneCoinView) \<and>
    disconnectTransactions \<lparr>dbFetchUtxoEntry = \<lambda>_. Inr None, dbFetchUtxoEntryByHash = \<lambda>_. Inr None\<rparr> spendBlock stxos view1 =
      (Inr (), view2) \<and> coins view2 = coins oneCoinView"
proof -
  have cb: "IsCoinBaseTx emptyCoinbase" "\<not> IsCoinBaseTx spender"
    by (simp_all add: IsCoinBaseTx_def emptyCoinbase_def spender_def nullHash_def HashSize_def)
  have h: "TxHash spender \<noteq> []" using length_DoubleHash(2) unfolding TxHash_def by (metis list.size(3) zero_neq_numeral)
  have a: "applyTx 4 emptyCoinbase A = A" for A
    by (simp add: applyTx_def inputsOf_def cb outPointsOf_def) (simp add: emptyCoinbase_def)
  have o1: "outPointsOf emptyCoinbase = []" by (simp add: outPointsOf_def) (simp add: emptyCoinbase_def)
  have o2: "outPointsOf spender = [(\<lparr>Hash = TxHash spender, Index = 0\<rparr>, \<lparr>Value = 4, PkScript = []\<rparr>)]"
    by (simp add: outPointsOf_def enumerate_eq_zip) (simp add: spender_def)
  have "applicableAll 4 [emptyCoinbase, spender] (coins oneCoinView)"
    using h by (simp add: a applicable_def o1 o2 inputsOf_def cb oneCoinView_coins) (simp add: spender_def)
  then show ?thesis
    using utxo_reorg_inverse [of spendBlock emptyCoinbase "[spender]" oneCoinView] cb
    by (simp add: spendBlock_def oneCoinView_coins stxoOf_def oneCoin_def)
qed

lemma bit_tfModified: "bit tfModified n \<longleftrightarrow> n = 2"
proof -
  have e: "tfModified = push_bit 2 1" by (simp add: tfModified_def)
  show ?thesis unfolding e bit_push_bit_iff by (auto simp: bit_1_iff)
qed

text \<open>
  \<^verbatim>\<open>commit\<close> is documented to mark all remaining entries as unmodified; an entry that was not
  modified leaves it as modified.
\<close>

lemma commit_toggles_modified:
  assumes "LookupEntry view outpoint = Some entry" "\<not> isModified entry"
  shows "\<exists>entry'. LookupEntry (commit view) outpoint = Some entry' \<and> isModified entry'"
proof -
  have "(w XOR tfModified) AND tfModified = tfModified" if "w AND tfModified \<noteq> tfModified" for w :: "8 word"
  proof (rule bit_word_eqI)
    fix n assume "n < LENGTH(8)"
    have "\<not> bit w 2"
    proof
      assume "bit w 2"
      then have "w AND tfModified = tfModified"
        by (intro bit_word_eqI) (auto simp: bit_and_iff bit_tfModified)
      with that show False ..
    qed
    then show "bit ((w XOR tfModified) AND tfModified) n = bit tfModified n"
      by (auto simp: bit_and_iff bit_xor_iff bit_tfModified)
  qed
  then have "isModified (entry\<lparr>ue_packedFlags := ue_packedFlags entry XOR tfModified\<rparr>)"
    using assms(2) by (simp add: isModified_def)
  moreover have "entries view outpoint = Some (Some entry)"
    using assms(1) by (auto simp: LookupEntry_def split: option.splits)
  ultimately show ?thesis using assms(2) by (simp add: LookupEntry_def commit_def)
qed

text \<open>
  The height of a spent output that the journal left out is taken from an entry of the
  transaction that spent it, not of the transaction that created it.
\<close>

lemma legacy_height_of_spender:
  assumes "st_Height stxo = 0" "LookupEntry view \<lparr>Hash = TxHash tx, Index = 0\<rparr> = Some utxo"
  shows "legacyStxo db (TxHash tx) view stxo =
    Inr (stxo\<lparr>st_Height := ue_blockHeight utxo, st_IsCoinBase := UtxoEntry_IsCoinBase utxo\<rparr>)"
proof -
  have "[0..<MaxOutputsPerBlock] = 0 # [1..<MaxOutputsPerBlock]"
    by (subst upt_conv_Cons) (simp_all add: MaxOutputsPerBlock_def MinTxOutPayload_def)
  then show ?thesis using assms by (simp add: legacyStxo_def fetchEntryByHash_def)
qed

end
