(* ===== verification/Chain_Index.thy ===== *)
theory Chain_Index
  imports Chain_Utxo "HOL-Library.Sublist"
begin

text \<open>
  The tree of blocks: nodes and the index of them (\<^verbatim>\<open>src/blockchain/blockindex.go\<close>), flat views of the
  chain of a node (\<^verbatim>\<open>src/blockchain/chainview.go\<close>) and the choice of the nodes to detach and attach when
  the chain changes (\<^verbatim>\<open>getReorganizeNodes\<close> of \<^verbatim>\<open>src/blockchain/chain.go\<close>).  The abstract state of a view
  is the path from the first block to its tip.
\<close>

unbundle bit_operations_syntax

section \<open>Nodes\<close>

text \<open>
  The fields of a node that never change, and the pointer to its parent.  The code compares
  pointers to nodes; the index holds one node for a block, so that a node is given by its fields.
\<close>

record node_fields =
  n_hash :: bytes
  n_height :: "32 word"
  n_version :: "32 word"
  n_timestamp :: int
  n_merkleRoot :: bytes
  n_signature :: bytes
  n_publicKey :: bytes
  n_scale :: "16 word"
  n_reserved :: "16 word"
  n_Votes :: "16 word"

datatype (plugins only: code size) blockNode = BlockNode (parent: "blockNode option") (nodeFields: node_fields)

abbreviation height :: "blockNode \<Rightarrow> 32 word" where "height n \<equiv> n_height (nodeFields n)"
abbreviation hash :: "blockNode \<Rightarrow> bytes" where "hash n \<equiv> n_hash (nodeFields n)"

definition newBlockNode :: "BlockHeader \<Rightarrow> blockNode option \<Rightarrow> 16 word \<Rightarrow> blockNode" where
  "newBlockNode header p votes = BlockNode p
     \<lparr>n_hash = BlockHash header, n_height = (case p of Some q \<Rightarrow> height q + 1 | None \<Rightarrow> 0), n_version = hVersion header,
      n_timestamp = Timestamp header, n_merkleRoot = MerkleRoot header, n_signature = hSignature header,
      n_publicKey = hPublicKey header, n_scale = Scale header, n_reserved = Reserved header, n_Votes = votes\<rparr>"

definition node_Header :: "blockNode \<Rightarrow> BlockHeader" where
  "node_Header n = \<lparr>hVersion = n_version (nodeFields n), PrevBlock = (case parent n of Some p \<Rightarrow> hash p | None \<Rightarrow> nullHash),
     MerkleRoot = n_merkleRoot (nodeFields n), Timestamp = n_timestamp (nodeFields n), hSignature = n_signature (nodeFields n),
     hPublicKey = n_publicKey (nodeFields n), Scale = n_scale (nodeFields n), Reserved = n_reserved (nodeFields n)\<rparr>"

fun ancestorLoop :: "32 word \<Rightarrow> blockNode \<Rightarrow> blockNode option" where
  "ancestorLoop h (BlockNode p d) = (if n_height d \<noteq> h then (case p of None \<Rightarrow> None | Some n \<Rightarrow> ancestorLoop h n)
     else Some (BlockNode p d))"

definition Ancestor :: "blockNode \<Rightarrow> 32 word \<Rightarrow> blockNode option" where
  "Ancestor n h = (if sint h < 0 \<or> sint h > sint (height n) then None else ancestorLoop h n)"

definition RelativeAncestor :: "blockNode \<Rightarrow> 32 word \<Rightarrow> blockNode option" where
  "RelativeAncestor n distance = Ancestor n (height n - distance)"

definition medianTimeBlocks :: nat where "medianTimeBlocks = 11"

fun timestampLoop :: "nat \<Rightarrow> blockNode \<Rightarrow> int list" where
  "timestampLoop 0 n = []"
| "timestampLoop (Suc i) (BlockNode p d) =
     n_timestamp d # (case p of None \<Rightarrow> [] | Some n \<Rightarrow> timestampLoop i n)"

definition CalcPastMedianTime :: "blockNode \<Rightarrow> int" where
  "CalcPastMedianTime n =
     (let timestamps = timestampLoop medianTimeBlocks n; numNodes = length timestamps
      in sort timestamps ! (numNodes div 2))"

section \<open>The index\<close>

type_synonym blockStatus = "8 word"

definition statusDataStored :: blockStatus where "statusDataStored = 1"
definition statusValid :: blockStatus where "statusValid = 2"
definition statusValidateFailed :: blockStatus where "statusValidateFailed = 4"
definition statusInvalidAncestor :: blockStatus where "statusInvalidAncestor = 8"
definition statusNone :: blockStatus where "statusNone = 0"

definition HaveData :: "blockStatus \<Rightarrow> bool" where "HaveData status = (status AND statusDataStored \<noteq> 0)"
definition KnownValid :: "blockStatus \<Rightarrow> bool" where "KnownValid status = (status AND statusValid \<noteq> 0)"
definition KnownInvalid :: "blockStatus \<Rightarrow> bool" where
  "KnownInvalid status = (status AND (statusValidateFailed OR statusInvalidAncestor) \<noteq> 0)"

text \<open>The status of a node may be written to: it is kept beside the nodes.\<close>

record blockIndex =
  index :: "bytes \<rightharpoonup> blockNode"
  dirty :: "blockNode set"
  status :: "blockNode \<Rightarrow> blockStatus"

definition newBlockIndex :: blockIndex where
  "newBlockIndex = \<lparr>index = Map.empty, dirty = {}, status = (\<lambda>n. statusNone)\<rparr>"

definition HaveBlock :: "blockIndex \<Rightarrow> bytes \<Rightarrow> bool" where "HaveBlock bi h = (index bi h \<noteq> None)"
definition LookupNode :: "blockIndex \<Rightarrow> bytes \<Rightarrow> blockNode option" where "LookupNode bi h = index bi h"

definition addNode :: "blockNode \<Rightarrow> blockIndex \<Rightarrow> blockIndex" where
  "addNode n bi = bi\<lparr>index := (index bi)(hash n \<mapsto> n)\<rparr>"
definition AddNode :: "blockNode \<Rightarrow> blockIndex \<Rightarrow> blockIndex" where
  "AddNode n bi = (addNode n bi)\<lparr>dirty := insert n (dirty bi)\<rparr>"
definition NodeStatus :: "blockIndex \<Rightarrow> blockNode \<Rightarrow> blockStatus" where "NodeStatus bi n = status bi n"

definition SetStatusFlags :: "blockNode \<Rightarrow> blockStatus \<Rightarrow> blockIndex \<Rightarrow> blockIndex" where
  "SetStatusFlags n fs bi = bi\<lparr>status := (status bi)(n := status bi n OR fs), dirty := insert n (dirty bi)\<rparr>"
definition UnsetStatusFlags :: "blockNode \<Rightarrow> blockStatus \<Rightarrow> blockIndex \<Rightarrow> blockIndex" where
  "UnsetStatusFlags n fs bi = bi\<lparr>status := (status bi)(n := status bi n AND NOT fs), dirty := insert n (dirty bi)\<rparr>"

section \<open>Views of a chain\<close>

definition approxNodesPerWeek :: "32 word" where "approxNodesPerWeek = 6 * 24 * 7"

definition log2FloorMasks :: "32 word list" where "log2FloorMasks = [0xffff0000, 0xff00, 0xf0, 0xc, 0x2]"

definition fastLog2Floor :: "32 word \<Rightarrow> 8 word" where
  "fastLog2Floor n = fst (foldl (\<lambda>(rv, n, exponent) mask.
       if n AND mask \<noteq> 0 then (rv + exponent, drop_bit (unat exponent) n, drop_bit 1 exponent)
       else (rv, n, drop_bit 1 exponent)) (0, n, 16) log2FloorMasks)"

text \<open>
  The nodes of a view by height, as a slice of pointers with its capacity.  The capacity decides
  whether \<^verbatim>\<open>setTip\<close> makes a new slice, which panics when the capacity wanted is out of range.
\<close>

record chainView =
  nodes :: "blockNode option list"
  cvcap :: nat

definition genesis :: "chainView \<Rightarrow> blockNode option" where
  "genesis c = (if length (nodes c) = 0 then None else nodes c ! 0)"
definition tip :: "chainView \<Rightarrow> blockNode option" where
  "tip c = (if length (nodes c) = 0 then None else nodes c ! (length (nodes c) - 1))"

fun setTipLoop :: "blockNode \<Rightarrow> blockNode option list \<Rightarrow> chain_err + blockNode option list" where
  "setTipLoop (BlockNode p d) ns =
     (if sint (n_height d) < 0 \<or> sint (n_height d) \<ge> int (length ns) then Inl ChainPanic
      else if ns ! nat (sint (n_height d)) \<noteq> Some (BlockNode p d)
      then (let ns = ns[nat (sint (n_height d)) := Some (BlockNode p d)] in
            case p of None \<Rightarrow> Inr ns | Some n \<Rightarrow> setTipLoop n ns)
      else Inr ns)"

definition setTip :: "blockNode option \<Rightarrow> chainView \<Rightarrow> chain_err + chainView" where
  "setTip node c =
     (case node of None \<Rightarrow> Inr (c\<lparr>nodes := []\<rparr>)
      | Some n \<Rightarrow>
          let needed = height n + 1 in
          if sint needed < 0 then Inl ChainPanic
          else if int (cvcap c) < sint needed then
            (let wanted = needed + approxNodesPerWeek in
             if sint wanted < sint needed then Inl ChainPanic
             else map_sum id (\<lambda>ns. c\<lparr>nodes := ns, cvcap := nat (sint wanted)\<rparr>)
                    (setTipLoop n (take (nat (sint needed)) (nodes c) @ replicate (nat (sint needed) - length (nodes c)) None)))
          else map_sum id (\<lambda>ns. c\<lparr>nodes := ns\<rparr>)
                 (setTipLoop n (take (nat (sint needed)) (nodes c) @ replicate (nat (sint needed) - length (nodes c)) None)))"

definition newChainView :: "blockNode option \<Rightarrow> chain_err + chainView" where
  "newChainView node = setTip node \<lparr>nodes = [], cvcap = 0\<rparr>"

definition cvheight :: "chainView \<Rightarrow> 32 word" where "cvheight c = of_nat (length (nodes c)) - 1"

definition nodeByHeight :: "chainView \<Rightarrow> 32 word \<Rightarrow> blockNode option" where
  "nodeByHeight c h = (if sint h < 0 \<or> sint h \<ge> sint (of_nat (length (nodes c)) :: 32 word) then None
     else nodes c ! nat (sint h))"

definition Equals :: "chainView \<Rightarrow> chainView \<Rightarrow> bool" where
  "Equals c other = (length (nodes c) = length (nodes other) \<and> tip c = tip other)"

definition contains :: "chainView \<Rightarrow> blockNode \<Rightarrow> bool" where
  "contains c n = (nodeByHeight c (height n) = Some n)"

definition cvnext :: "chainView \<Rightarrow> blockNode option \<Rightarrow> blockNode option" where
  "cvnext c node = (case node of None \<Rightarrow> None
     | Some n \<Rightarrow> if \<not> contains c n then None else nodeByHeight c (height n + 1))"

fun findForkLoop :: "chainView \<Rightarrow> blockNode \<Rightarrow> blockNode option" where
  "findForkLoop c (BlockNode p d) = (if \<not> contains c (BlockNode p d)
     then (case p of None \<Rightarrow> None | Some n \<Rightarrow> findForkLoop c n) else Some (BlockNode p d))"

definition findFork :: "chainView \<Rightarrow> blockNode option \<Rightarrow> blockNode option" where
  "findFork c node = (case node of None \<Rightarrow> None
     | Some n \<Rightarrow>
         let chainHeight = cvheight c;
             node = (if sint (height n) > sint chainHeight then Ancestor n chainHeight else Some n)
         in case node of None \<Rightarrow> None | Some n \<Rightarrow> findForkLoop c n)"

definition maxEntriesFor :: "blockNode \<Rightarrow> 8 word" where
  "maxEntriesFor n = (if sint (height n) \<le> 12 then ucast (height n) + 1
     else 12 + fastLog2Floor (height n - 10))"

text \<open>The loop of the locator; not returning is None.\<close>

partial_function (option) locatorLoop ::
    "chainView \<Rightarrow> blockNode option \<Rightarrow> 32 word \<Rightarrow> bytes list \<Rightarrow> (chain_err + bytes list) option" where
  "locatorLoop c node step locator =
     (case node of
        None \<Rightarrow> Some (Inr locator)
      | Some n \<Rightarrow>
          let locator = locator @ [hash n] in
          if height n = 0 then Some (Inr locator)
          else
            let h = height n - step;
                h = (if sint h < 0 then 0 else h);
                step' = (if length locator > 10 then step * 2 else step) in
            if contains c n then
              (if sint h \<ge> int (length (nodes c)) then Some (Inl ChainPanic)
               else locatorLoop c (nodes c ! nat (sint h)) step' locator)
            else locatorLoop c (Ancestor n h) step' locator)"

definition blockLocator :: "chainView \<Rightarrow> blockNode option \<Rightarrow> (chain_err + bytes list) option" where
  "blockLocator c node =
     (case (case node of None \<Rightarrow> tip c | Some n \<Rightarrow> Some n) of
        None \<Rightarrow> Some (Inr [])
      | Some n \<Rightarrow> locatorLoop c (Some n) 1 [])"

section \<open>Reorganisation\<close>

text \<open>
  The nodes from a node down to the fork, and whether one that is known to be invalid was met; the
  list is in the order of the chain and, when such a node was met, starts after it.
\<close>

fun attachLoop :: "blockIndex \<Rightarrow> blockNode option \<Rightarrow> blockNode \<Rightarrow> blockNode list \<Rightarrow> bool \<times> blockNode list" where
  "attachLoop bi fork (BlockNode p d) acc =
     (if Some (BlockNode p d) = fork then (False, acc)
      else if KnownInvalid (NodeStatus bi (BlockNode p d)) then (True, acc)
      else case p of None \<Rightarrow> (False, BlockNode p d # acc) | Some n \<Rightarrow> attachLoop bi fork n (BlockNode p d # acc))"

fun detachLoop :: "blockNode option \<Rightarrow> blockNode \<Rightarrow> blockNode list" where
  "detachLoop fork (BlockNode p d) =
     (if Some (BlockNode p d) = fork then []
      else BlockNode p d # (case p of None \<Rightarrow> [] | Some n \<Rightarrow> detachLoop fork n))"

text \<open>Reading the status of the parent panics for a node without one.\<close>

definition getReorganizeNodes :: "chainView \<Rightarrow> blockNode \<Rightarrow> blockIndex \<Rightarrow>
    (chain_err + blockNode list \<times> blockNode list) \<times> blockIndex" where
  "getReorganizeNodes bestChain node bi =
     (case parent node of
        None \<Rightarrow> (Inl ChainPanic, bi)
      | Some p \<Rightarrow>
          if KnownInvalid (NodeStatus bi p) then (Inr ([], []), SetStatusFlags node statusInvalidAncestor bi)
          else
            let forkNode = findFork bestChain (Some node);
                (invalidChain, attachNodes) = attachLoop bi forkNode node [] in
            if invalidChain then (Inr ([], []), fold (\<lambda>n. SetStatusFlags n statusInvalidAncestor) attachNodes bi)
            else (Inr ((case tip bestChain of None \<Rightarrow> [] | Some t \<Rightarrow> detachLoop forkNode t), attachNodes), bi))"

section \<open>Paths\<close>

text \<open>The nodes from the first block to a node, and the nodes whose heights agree with their position.\<close>

fun path :: "blockNode \<Rightarrow> blockNode list" where
  "path (BlockNode p d) = (case p of None \<Rightarrow> [] | Some n \<Rightarrow> path n) @ [BlockNode p d]"

fun node_ok :: "blockNode \<Rightarrow> bool" where
  "node_ok (BlockNode p d) = (case p of None \<Rightarrow> n_height d = 0
     | Some n \<Rightarrow> node_ok n \<and> n_height d = height n + 1 \<and> sint (height n) < 2 ^ 31 - 1)"

lemma path_cases:
  "(parent n = None \<and> path n = [n]) \<or> (\<exists>q. parent n = Some q \<and> path n = path q @ [n])"
  by (cases n) (auto split: option.splits)

lemma path_nonempty [simp]: "path n \<noteq> []" "last (path n) = n" "n \<in> set (path n)" "0 < length (path n)"
  by (cases n; simp)+

lemma node_induct:
  assumes "\<And>n. parent n = None \<Longrightarrow> path n = [n] \<Longrightarrow> P n"
    and "\<And>n q. parent n = Some q \<Longrightarrow> path n = path q @ [n] \<Longrightarrow> P q \<Longrightarrow> P n"
  shows "P n"
proof (induction "length (path n)" arbitrary: n rule: less_induct)
  case less
  show ?case
  proof (cases "parent n")
    case None
    then show ?thesis using assms(1) path_cases [of n] by auto
  next
    case (Some q)
    then have "path n = path q @ [n]" using path_cases [of n] by auto
    then show ?thesis using assms(2) [OF Some] less [of q] by simp
  qed
qed

lemma node_ok_parent: "parent n = Some q \<Longrightarrow> node_ok n \<Longrightarrow> node_ok q \<and> height n = height q + 1 \<and> sint (height q) < 2 ^ 31 - 1"
  by (cases n) auto

lemma node_ok_root: "parent n = None \<Longrightarrow> node_ok n \<Longrightarrow> height n = 0"
  by (cases n) auto

lemma sint_Suc:
  fixes w :: "32 word"
  assumes "0 \<le> sint w" "sint w < 2 ^ 31 - 1"
  shows "sint (w + 1) = sint w + 1"
proof -
  have "sint (w + 1) = signed_take_bit 31 (sint w + sint (1 :: 32 word))" by (simp add: sint_word_add)
  also have "\<dots> = sint w + 1" using assms by (simp add: signed_take_bit_int_eq_self)
  finally show ?thesis .
qed

lemma node_ok_height: "node_ok n \<Longrightarrow> sint (height n) = int (length (path n)) - 1"
proof (induction n rule: node_induct)
  case (1 n)
  then show ?case using node_ok_root by simp
next
  case (2 n q)
  then have q: "node_ok q" "height n = height q + 1" "sint (height q) < 2 ^ 31 - 1" using node_ok_parent by blast+
  have len: "0 < length (path q)" by simp
  have "sint (height q) = int (length (path q)) - 1" using 2 q by blast
  then have "0 \<le> sint (height q)" using len by linarith
  then show ?case using 2 q sint_Suc [of "height q"] by simp
qed

lemma nat_height: "node_ok n \<Longrightarrow> nat (sint (height n)) = length (path n) - 1"
  by (simp add: node_ok_height nat_diff_distrib)

lemma path_length_bound: "node_ok n \<Longrightarrow> length (path n) \<le> 2 ^ 31"
  using node_ok_height [of n] sint_lt [of "height n"] by simp

lemma path_nth: "i < length (path n) \<Longrightarrow> path (path n ! i) = take (Suc i) (path n)"
proof (induction n arbitrary: i rule: node_induct)
  case (1 n)
  then show ?case by simp
next
  case (2 n q)
  then show ?case by (cases "i < length (path q)") (auto simp: nth_append less_Suc_eq)
qed

lemma node_ok_nth: "node_ok n \<Longrightarrow> i < length (path n) \<Longrightarrow> node_ok (path n ! i)"
proof (induction n arbitrary: i rule: node_induct)
  case (1 n)
  then show ?case by simp
next
  case (2 n q)
  then have "node_ok q" using node_ok_parent by blast
  with 2 show ?case by (cases "i < length (path q)") (auto simp: nth_append less_Suc_eq)
qed

lemma path_prefix: "x \<in> set (path n) \<Longrightarrow> prefix (path x) (path n)"
  by (auto simp: in_set_conv_nth path_nth take_is_prefix)

lemma path_inject: "path x = path y \<Longrightarrow> x = y"
  using path_nonempty(2) by metis

lemma sint_word_of_nat: "i < 2 ^ 31 \<Longrightarrow> sint (of_nat i :: 32 word) = int i"
  by (simp add: sint_uint uint_nat unat_of_nat signed_take_bit_int_eq_self)

lemma sint_inject_nat: "sint (w :: 32 word) = int i \<Longrightarrow> w = of_nat i"
proof -
  assume w: "sint w = int i"
  then have "sint w = sint (of_nat i :: 32 word)" using sint_lt [of w] sint_word_of_nat [of i] by simp
  then show ?thesis by (rule signed_word_eqI)
qed

section \<open>Ancestors\<close>

lemma ancestorLoop_eq: "node_ok n \<Longrightarrow> i < length (path n) \<Longrightarrow> ancestorLoop (of_nat i) n = Some (path n ! i)"
proof (induction n arbitrary: i rule: node_induct)
  case (1 n)
  then have "height n = 0" "i = 0" using node_ok_root by auto
  then show ?case using 1 by (cases n) simp
next
  case (2 n q)
  then have q: "node_ok q" using node_ok_parent by blast
  have h: "sint (height n) = int (length (path q))" using node_ok_height [OF 2(4)] 2(2) by simp
  have b: "i < 2 ^ 31" using path_length_bound [OF 2(4)] 2(5) by simp
  show ?case
  proof (cases "i < length (path q)")
    case True
    then have "height n \<noteq> of_nat i" using h sint_word_of_nat [OF b] by auto
    then show ?thesis using 2(1,2) 2(3) [OF q True] True by (cases n) (auto simp: nth_append)
  next
    case False
    then have i: "i = length (path q)" using 2 by simp
    then have "height n = of_nat i" using sint_inject_nat [OF h] by simp
    then show ?thesis using i 2(1,2) by (cases n) (auto simp: nth_append)
  qed
qed

lemma Ancestor_eq:
  assumes "node_ok n" "sint h = int i"
  shows "Ancestor n h = (if i < length (path n) then Some (path n ! i) else None)"
proof -
  have "h = of_nat i" using assms(2) by (rule sint_inject_nat)
  then show ?thesis using assms ancestorLoop_eq [OF assms(1), of i] by (simp add: Ancestor_def node_ok_height)
qed

lemma Ancestor_negative: "sint h < 0 \<Longrightarrow> Ancestor n h = None"
  by (simp add: Ancestor_def)

section \<open>Setting the tip\<close>

lemma setTipLoop_eq:
  assumes "node_ok m" "length (path m) \<le> length ns"
    and "\<And>i x. i < length (path m) \<Longrightarrow> ns ! i = Some x \<Longrightarrow> map Some (path x) = take (Suc i) ns"
  shows "setTipLoop m ns = Inr (map Some (path m) @ drop (length (path m)) ns)"
  using assms
proof (induction m arbitrary: ns rule: node_induct)
  case (1 m)
  then have h: "height m = 0" using node_ok_root by blast
  obtain x xs where ns: "ns = x # xs" using 1 by (cases ns) auto
  then show ?case using h 1(1,2) by (cases m) (auto split: option.splits)
next
  case (2 m q)
  define k where "k = length (path q)"
  have q: "node_ok q" using 2 node_ok_parent by blast
  have h: "sint (height m) = int k" using node_ok_height [OF 2(4)] 2(2) by (simp add: k_def)
  have k: "k < length ns" "length (path m) = Suc k" using 2(2,5) by (simp_all add: k_def)
  obtain d where m: "m = BlockNode (Some q) d" using 2(1) by (cases m) auto
  have unfold: "setTipLoop m ns = (if ns ! k \<noteq> Some m then setTipLoop q (ns[k := Some m]) else Inr ns)"
    using h k by (simp add: m)
  show ?case
  proof (cases "ns ! k = Some m")
    case True
    then have "map Some (path m) = take (Suc k) ns" using 2(6) [of k m] k by simp
    then have "map Some (path m) @ drop (Suc k) ns = ns" by simp
    then show ?thesis using True k by (simp add: unfold)
  next
    case False
    have "setTipLoop q (ns[k := Some m]) = Inr (map Some (path q) @ drop (length (path q)) (ns[k := Some m]))"
    proof (rule 2(3) [OF q])
      show "length (path q) \<le> length (ns[k := Some m])" using k by (simp add: k_def)
      fix i x
      assume i: "i < length (path q)" "ns[k := Some m] ! i = Some x"
      then show "map Some (path x) = take (Suc i) (ns[k := Some m])"
        using 2(6) [of i x] k by (simp add: k_def)
    qed
    also have "drop (length (path q)) (ns[k := Some m]) = Some m # drop (Suc k) ns"
      using k by (simp add: k_def [symmetric] Cons_nth_drop_Suc [symmetric])
    finally show ?thesis using False 2(2) k by (simp add: unfold)
  qed
qed

text \<open>A view of the chain of a node, or of no chain.\<close>

definition view_of :: "blockNode option \<Rightarrow> chainView \<Rightarrow> bool" where
  "view_of t c = (nodes c = (case t of None \<Rightarrow> [] | Some n \<Rightarrow> map Some (path n)) \<and> (\<forall>n. t = Some n \<longrightarrow> node_ok n))"

lemma resize_ok:
  assumes "view_of t c" "i < length ns" "ns = take k (nodes c) @ replicate (k - length (nodes c)) None" "ns ! i = Some x"
  shows "map Some (path x) = take (Suc i) ns"
proof (cases t)
  case None
  then show ?thesis using assms by (simp add: view_of_def)
next
  case (Some n)
  then have n: "nodes c = map Some (path n)" using assms by (simp add: view_of_def)
  have i: "i < k" "i < length (path n)" using assms n by (auto simp: nth_append split: if_splits)
  then have "x = path n ! i" using assms n by (simp add: nth_append)
  then show ?thesis using i assms(3) n by (simp add: path_nth take_map)
qed

lemma setTip_eq:
  assumes "view_of t c" "node_ok n" "sint (height n) < 2 ^ 31 - 1 - 1008"
  shows "\<exists>c'. setTip (Some n) c = Inr c' \<and> view_of (Some n) c'"
proof -
  define k where "k = length (path n)"
  define ns where "ns = take k (nodes c) @ replicate (k - length (nodes c)) None"
  have h: "sint (height n) = int k - 1" "1 \<le> k" using node_ok_height [OF assms(2)] by (simp_all add: k_def Suc_le_eq)
  have needed: "sint (height n + 1) = int k" using sint_Suc [of "height n"] h assms(3) by simp
  have "sint (height n + 1 + approxNodesPerWeek) = signed_take_bit 31 (sint (height n + 1) + sint approxNodesPerWeek)"
    by (simp add: sint_word_add)
  then have wanted: "sint (height n + 1 + approxNodesPerWeek) = int k + 1008"
    using needed h assms(3) by (simp add: approxNodesPerWeek_def signed_take_bit_int_eq_self)
  have len: "length ns = k" by (simp add: ns_def)
  have "setTipLoop n ns = Inr (map Some (path n) @ drop (length (path n)) ns)"
    by (rule setTipLoop_eq [OF assms(2)]) (use len resize_ok [OF assms(1) _ ns_def] in \<open>simp_all add: k_def\<close>)
  then have loop: "setTipLoop n ns = Inr (map Some (path n))" using len by (simp add: k_def)
  show ?thesis
    using loop assms(2) unfolding setTip_def by (auto simp: needed wanted Let_def ns_def view_of_def)
qed

lemma setTip_None: "setTip None c = Inr (c\<lparr>nodes := []\<rparr>) \<and> view_of None (c\<lparr>nodes := []\<rparr>)"
  by (simp add: setTip_def view_of_def)

section \<open>Queries of a view\<close>

lemma nodeByHeight_eq:
  assumes "view_of (Some t) c" "sint h = int i" "length (path t) < 2 ^ 31"
  shows "nodeByHeight c h = (if i < length (path t) then Some (path t ! i) else None)"
  using assms sint_word_of_nat [of "length (path t)"] by (simp add: nodeByHeight_def view_of_def)

lemma contains_iff:
  assumes "view_of (Some t) c" "node_ok n" "length (path t) < 2 ^ 31"
  shows "contains c n \<longleftrightarrow> n \<in> set (path t)"
proof -
  define i where "i = length (path n) - 1"
  have i: "sint (height n) = int i" using node_ok_height [OF assms(2)] by (simp add: i_def of_nat_diff Suc_le_eq)
  have "n \<in> set (path t) \<longleftrightarrow> i < length (path t) \<and> path t ! i = n"
  proof
    assume "n \<in> set (path t)"
    then obtain j where j: "j < length (path t)" "path t ! j = n" by (auto simp: in_set_conv_nth)
    then have "length (path n) = Suc j" using path_nth [of j t] by simp
    then show "i < length (path t) \<and> path t ! i = n" using j by (simp add: i_def)
  qed auto
  then show ?thesis unfolding contains_def nodeByHeight_eq [OF assms(1) i assms(3)] by auto
qed

lemma cvnext_eq:
  assumes "view_of (Some t) c" "length (path t) < 2 ^ 31 - 1" "Suc i < length (path t)"
  shows "cvnext c (Some (path t ! i)) = Some (path t ! Suc i)"
proof -
  have t: "node_ok t" using assms by (simp add: view_of_def)
  have ok: "node_ok (path t ! i)" using node_ok_nth [OF t] assms by simp
  have h: "sint (height (path t ! i)) = int i" using node_ok_height [OF ok] path_nth [of i t] assms by simp
  then have h': "sint (height (path t ! i) + 1) = int (Suc i)" using sint_Suc assms by simp
  have "contains c (path t ! i)" using contains_iff [OF assms(1) ok] assms by simp
  then show ?thesis using nodeByHeight_eq [OF assms(1) h'] assms by (simp add: cvnext_def)
qed

section \<open>Forks\<close>

lemma findForkLoop_spec:
  assumes "view_of (Some t) c" "length (path t) < 2 ^ 31" "node_ok n"
  shows "case findForkLoop c n of
      None \<Rightarrow> set (path n) \<inter> set (path t) = {}
    | Some f \<Rightarrow> f \<in> set (path n) \<and> f \<in> set (path t) \<and> set (path n) \<inter> set (path t) \<subseteq> set (path f)"
  using assms(3)
proof (induction n rule: node_induct)
  case (1 n)
  obtain d where n: "n = BlockNode None d" using 1(1) by (cases n) auto
  show ?case using 1(2) contains_iff [OF assms(1) 1(3) assms(2)] by (auto simp: n)
next
  case (2 n q)
  obtain d where n: "n = BlockNode (Some q) d" using 2(1) by (cases n) auto
  have q: "node_ok q" using 2 node_ok_parent by blast
  show ?case
  proof (cases "contains c n")
    case True
    then show ?thesis using contains_iff [OF assms(1) 2(4) assms(2)] by (auto simp: n)
  next
    case False
    then have "findForkLoop c n = findForkLoop c q" "n \<notin> set (path t)"
      using contains_iff [OF assms(1) 2(4) assms(2)] by (auto simp: n)
    then show ?thesis using 2(3) [OF q] 2(2) by (auto split: option.splits)
  qed
qed

lemma common_prefix_last:
  assumes "xs = longest_common_prefix (path t) (path n)" "xs \<noteq> []"
  shows "path (last xs) = xs" "last xs \<in> set (path t)" "last xs \<in> set (path n)"
proof -
  have t: "prefix xs (path t)" and n: "prefix xs (path n)"
    using assms longest_common_prefix_prefix1 longest_common_prefix_prefix2 by blast+
  obtain k where k: "length xs = Suc k" using assms(2) by (cases xs) auto
  then have "k < length (path t)" using prefix_length_le [OF t] by simp
  moreover have "last xs = path t ! k" using k t assms(2) by (auto simp: last_conv_nth prefix_def nth_append)
  moreover have "take (Suc k) (path t) = xs" using t k by (auto simp: prefix_def)
  ultimately show "path (last xs) = xs" using path_nth [of k t] by simp
  show "last xs \<in> set (path t)" "last xs \<in> set (path n)"
    using t n assms(2) last_in_set [OF assms(2)] by (auto simp: prefix_def)
qed

lemma fork_is_common_prefix:
  assumes "f \<in> set (path n)" "f \<in> set (path t)" "set (path n) \<inter> set (path t) \<subseteq> set (path f)"
  shows "longest_common_prefix (path t) (path n) = path f"
proof -
  define xs where "xs = longest_common_prefix (path t) (path n)"
  have "prefix (path f) xs" unfolding xs_def using assms path_prefix longest_common_prefix_max_prefix by blast
  then have ne: "xs \<noteq> []" by auto
  note l = common_prefix_last [OF xs_def ne]
  have "last xs \<in> set (path f)" using l assms by blast
  then have "prefix xs (path f)" using path_prefix [of "last xs" f] l(1) by simp
  then show ?thesis using \<open>prefix (path f) xs\<close> prefix_order.antisym xs_def by blast
qed

lemma path_Ancestor:
  assumes "i < length (path n)"
  shows "set (path (path n ! i)) = {x \<in> set (path n). length (path x) \<le> Suc i}"
proof -
  have "x \<in> set (take (Suc i) (path n)) \<longleftrightarrow> x \<in> set (path n) \<and> length (path x) \<le> Suc i" for x
  proof -
    have "x \<in> set (path n) \<and> length (path x) \<le> Suc i \<longleftrightarrow> (\<exists>j<length (path n). path n ! j = x \<and> Suc j \<le> Suc i)"
      using path_nth [of _ n] by (auto simp: in_set_conv_nth)
    also have "\<dots> \<longleftrightarrow> x \<in> set (take (Suc i) (path n))" by (auto simp: in_set_conv_nth)
    finally show ?thesis by blast
  qed
  then show ?thesis using path_nth [OF assms] by auto
qed

lemma findFork_eq:
  assumes "view_of (Some t) c" "length (path t) < 2 ^ 31" "node_ok n"
  shows "findFork c (Some n) =
    (case longest_common_prefix (path t) (path n) of [] \<Rightarrow> None | x # xs \<Rightarrow> Some (last (x # xs)))"
proof -
  have t: "nodes c = map Some (path t)" using assms by (simp add: view_of_def)
  define h where "h = length (path t) - 1"
  have h: "sint (cvheight c) = int h"
  proof -
    have "cvheight c = of_nat h" using t by (simp add: cvheight_def h_def of_nat_diff Suc_le_eq)
    then show ?thesis using sint_word_of_nat [of h] assms(2) by (simp add: h_def)
  qed
  define m where "m = (if length (path n) > Suc h then path n ! h else n)"
  have m: "node_ok m" "set (path m) \<inter> set (path t) = set (path n) \<inter> set (path t)" "m \<in> set (path n)"
  proof -
    show "node_ok m" "m \<in> set (path n)" using assms(3) node_ok_nth [OF assms(3), of h] by (auto simp: m_def)
    have "length (path x) \<le> Suc h" if "x \<in> set (path t)" for x
      using path_prefix [OF that] prefix_length_le by (fastforce simp: h_def)
    then show "set (path m) \<inter> set (path t) = set (path n) \<inter> set (path t)"
      using path_Ancestor [of h n] by (auto simp: m_def)
  qed
  have "sint (height n) > sint (cvheight c) \<longleftrightarrow> length (path n) > Suc h"
    using node_ok_height [OF assms(3)] h by auto
  then have ff: "findFork c (Some n) = findForkLoop c m"
    using Ancestor_eq [OF assms(3) h] by (auto simp: findFork_def m_def Let_def)
  show ?thesis
  proof (cases "findForkLoop c m")
    case None
    then have dis: "set (path n) \<inter> set (path t) = {}" using findForkLoop_spec [OF assms(1,2) m(1)] m(2) by simp
    have "longest_common_prefix (path t) (path n) = []"
      using common_prefix_last [OF refl, of t n] dis by blast
    then show ?thesis using None ff by simp
  next
    case (Some f)
    then have f: "f \<in> set (path m)" "f \<in> set (path t)" "set (path n) \<inter> set (path t) \<subseteq> set (path f)"
      using findForkLoop_spec [OF assms(1,2) m(1)] m(2) by auto
    have "f \<in> set (path n)" using f(1,2) m(2) by blast
    then have "longest_common_prefix (path t) (path n) = path f" using fork_is_common_prefix f by blast
    moreover obtain x xs where "path f = x # xs" using path_nonempty(1) [of f] by (cases "path f") auto
    moreover have "last (path f) = f" by simp
    ultimately show ?thesis using Some ff by simp
  qed
qed

section \<open>Reorganisation\<close>

lemma detachLoop_eq:
  assumes "f \<in> set (path n)"
  shows "path n = path f @ rev (detachLoop (Some f) n)"
  using assms
proof (induction n rule: node_induct)
  case (1 n)
  then show ?case by (cases n) auto
next
  case (2 n q)
  obtain d where n: "n = BlockNode (Some q) d" using 2(1) by (cases n) auto
  show ?case
  proof (cases "n = f")
    case True
    then show ?thesis by (cases f) simp
  next
    case False
    then have "path q = path f @ rev (detachLoop (Some f) q)" using 2 by auto
    moreover have "detachLoop (Some f) n = n # detachLoop (Some f) q" using False by (simp add: n)
    ultimately show ?thesis using 2(2) by simp
  qed
qed

lemma detachLoop_None: "path n = rev (detachLoop None n)"
proof (induction n rule: node_induct)
  case (1 n)
  then show ?case by (cases n) auto
next
  case (2 n q)
  then show ?case by (cases n) auto
qed

lemma attachLoop_eq:
  assumes "\<forall>x \<in> set (detachLoop fork n). \<not> KnownInvalid (NodeStatus bi x)"
  shows "attachLoop bi fork n acc = (False, rev (detachLoop fork n) @ acc)"
  using assms
proof (induction n arbitrary: acc rule: node_induct)
  case (1 n)
  then show ?case by (cases n) auto
next
  case (2 n q)
  obtain d where n: "n = BlockNode (Some q) d" using 2(1) by (cases n) auto
  show ?case
  proof (cases "Some n = fork")
    case True
    then show ?thesis by (simp add: n)
  next
    case False
    then have dl: "detachLoop fork n = n # detachLoop fork q" by (simp add: n)
    then have "attachLoop bi fork q (n # acc) = (False, rev (detachLoop fork q) @ n # acc)" using 2 by simp
    moreover have "\<not> KnownInvalid (NodeStatus bi n)" using 2(4) dl by simp
    ultimately show ?thesis using False dl by (simp add: n)
  qed
qed


section \<open>Logarithms\<close>

lemma unat_drop_bit: "unat (drop_bit e (n :: 'a::len word)) = unat n div 2 ^ e"
  by (subst unsigned_drop_bit_eq) (simp add: drop_bit_eq_div take_bit_nat_eq_self [OF unsigned_less])

lemma mask_test:
  fixes n :: "32 word"
  assumes "unat n < 2 ^ (2 * e)"
  shows "n AND push_bit e (mask e) = 0 \<longleftrightarrow> unat n < 2 ^ e"
proof -
  have high: "\<not> bit n i" if "2 * e \<le> i" for i
  proof -
    have "unat n < 2 ^ i" using assms that by (meson one_le_numeral order_less_le_trans power_increasing)
    then have "\<not> bit (unat n) i" using bit_take_bit_iff [of i "unat n" i] by (simp add: take_bit_nat_eq_self)
    then show ?thesis by (simp add: bit_unsigned_iff)
  qed
  have "n AND push_bit e (mask e) = 0 \<longleftrightarrow> drop_bit e n = 0"
  proof
    assume a: "n AND push_bit e (mask e) = 0"
    show "drop_bit e n = 0"
    proof (rule bit_word_eqI)
      fix i
      assume "i < LENGTH(32)"
      have "\<not> bit (n AND push_bit e (mask e)) (e + i)" using a by simp
      then have "bit n (e + i) \<Longrightarrow> \<not> i < e" by (auto simp: bit_simps dest: bit_imp_le_length)
      then show "bit (drop_bit e n) i = bit (0 :: 32 word) i" using high [of "e + i"] by (auto simp: bit_simps)
    qed
  next
    assume d: "drop_bit e n = 0"
    show "n AND push_bit e (mask e) = 0"
    proof (rule bit_word_eqI)
      fix i
      have "\<not> bit (drop_bit e n) (i - e)" using d by simp
      then show "bit (n AND push_bit e (mask e)) i = bit (0 :: 32 word) i" by (auto simp: bit_simps)
    qed
  qed
  also have "\<dots> \<longleftrightarrow> unat (drop_bit e n) = 0" by (simp add: unat_eq_zero)
  also have "\<dots> \<longleftrightarrow> unat n div 2 ^ e = 0" unfolding unat_drop_bit by (rule refl)
  also have "\<dots> \<longleftrightarrow> unat n < 2 ^ e" by (simp add: div_eq_0_iff)
  finally show ?thesis .
qed

definition log2_step :: "8 word \<times> 32 word \<times> 8 word \<Rightarrow> 32 word \<Rightarrow> 8 word \<times> 32 word \<times> 8 word" where
  "log2_step = (\<lambda>(rv, n, exponent) mask.
     if n AND mask \<noteq> 0 then (rv + exponent, drop_bit (unat exponent) n, drop_bit 1 exponent)
     else (rv, n, drop_bit 1 exponent))"

definition log2_inv :: "32 word \<Rightarrow> nat \<Rightarrow> 8 word \<times> 32 word \<times> 8 word \<Rightarrow> bool" where
  "log2_inv n0 b = (\<lambda>(rv, n, exponent). unat exponent = b div 2 \<and> unat rv + b \<le> 32 \<and>
     unat n = unat n0 div 2 ^ unat rv \<and> 0 < unat n \<and> unat n < 2 ^ b)"

lemma log2_step_inv:
  assumes "log2_inv n0 (2 * e) st" "0 < e"
  shows "log2_inv n0 e (log2_step st (push_bit e (mask e)))"
proof -
  obtain rv n x where st: "st = (rv, n, x)" by (cases st)
  have i: "unat x = e" "unat rv + 2 * e \<le> 32" "unat n = unat n0 div 2 ^ unat rv" "0 < unat n" "unat n < 2 ^ (2 * e)"
    using assms by (simp_all add: log2_inv_def st)
  have x: "unat (drop_bit 1 x) = e div 2" unfolding unat_drop_bit i(1) by simp
  show ?thesis
  proof (cases "unat n < 2 ^ e")
    case True
    then show ?thesis using i x mask_test [OF i(5)] by (simp add: st log2_step_def log2_inv_def)
  next
    case False
    have rv: "unat (rv + x) = unat rv + e" using i by (simp add: unat_word_ariths)
    have d: "unat (drop_bit (unat x) n) = unat n div 2 ^ e" unfolding unat_drop_bit i(1) by simp
    have "unat n div 2 ^ e = unat n0 div 2 ^ (unat rv + e)" by (simp add: i(3) power_add div_mult2_eq)
    moreover have "0 < unat n div 2 ^ e" using False by (simp add: div_greater_zero_iff)
    moreover have "unat n div 2 ^ e < 2 ^ e"
      using i(5) by (simp add: div_less_iff_less_mult power_add [symmetric] mult_2)
    ultimately show ?thesis using False i(2) rv d x mask_test [OF i(5)] by (simp add: st log2_step_def log2_inv_def)
  qed
qed

lemma fastLog2Floor_eq:
  assumes "n \<noteq> 0"
  shows "2 ^ unat (fastLog2Floor n) \<le> unat n \<and> unat n < 2 ^ Suc (unat (fastLog2Floor n)) \<and> unat (fastLog2Floor n) < 32"
proof -
  have "log2_inv n 32 (0, n, 16)"
    using assms unsigned_less [of n] by (simp add: log2_inv_def unat_gt_0)
  then have "log2_inv n 1 (foldl log2_step (0, n, 16) (map (\<lambda>e. push_bit e (mask e)) [16, 8, 4, 2, 1]))"
    using log2_step_inv [of n 16] log2_step_inv [of n 8] log2_step_inv [of n 4] log2_step_inv [of n 2] log2_step_inv [of n 1]
    by simp
  moreover have "map (\<lambda>e. push_bit e (mask e)) [16, 8, 4, 2, 1] = log2FloorMasks"
    by (simp add: log2FloorMasks_def mask_numeral)
  ultimately have inv: "log2_inv n 1 (foldl log2_step (0, n, 16) log2FloorMasks)" by (simp only:)
  obtain rv m x where r: "foldl log2_step (0, n, 16) log2FloorMasks = (rv, m, x)" by (cases "foldl log2_step (0, n, 16) log2FloorMasks")
  have f: "fastLog2Floor n = rv" using r by (simp add: fastLog2Floor_def log2_step_def [symmetric])
  have "unat n div 2 ^ unat rv = 1" "unat rv < 32" using inv by (auto simp: r log2_inv_def)
  moreover from this have "unat n = 2 ^ unat rv + unat n mod 2 ^ unat rv"
    using div_mult_mod_eq [of "unat n" "2 ^ unat rv"] by simp
  moreover have "unat n mod 2 ^ unat rv < 2 ^ unat rv" by simp
  ultimately show ?thesis unfolding f power_Suc by linarith
qed

section \<open>Locators\<close>

text \<open>The distance of the entries of a locator from its first.\<close>

definition locOffset :: "nat \<Rightarrow> nat" where "locOffset k = (if k < 11 then k else 9 + 2 ^ (k - 10))"

lemma locOffset_Suc: "locOffset (Suc k) = locOffset k + 2 ^ (k - 10)"
proof (cases "k < 10")
  case False
  then obtain j where "k = 10 + j" using le_Suc_ex by force
  then show ?thesis by (cases j) (simp_all add: locOffset_def)
qed (simp add: locOffset_def)

lemma locOffset_mono: "j \<le> k \<Longrightarrow> locOffset j \<le> locOffset k"
  by (rule lift_Suc_mono_le [of locOffset]) (simp_all add: locOffset_Suc)

lemma locOffset_0 [simp]: "locOffset 0 = 0"
  by (simp add: locOffset_def)

lemma locator_next:
  assumes "view_of t c" "\<forall>n. t = Some n \<longrightarrow> length (path n) < 2 ^ 31" "node_ok m"
    and "length (path m) = Suc k" "0 < k" "sint step = int s" "1 \<le> s"
  shows "locatorLoop c (Some m) step locator = locatorLoop c (Some (path m ! (k - s)))
    (if length locator \<ge> 10 then step * 2 else step) (locator @ [hash m])"
proof -
  have h: "sint (height m) = int k" using node_ok_height [OF assms(3)] assms(4) by simp
  then have ne: "height m \<noteq> 0" using assms(5) by auto
  have sub: "sint (height m - step) = int k - int s"
    using h assms(6) sint_lt [of "height m"] sint_lt [of step] by (simp add: sint_word_ariths signed_take_bit_int_eq_self)
  define h' where "h' = (if sint (height m - step) < 0 then 0 else height m - step)"
  have h': "sint h' = int (k - s)" using sub by (simp add: h'_def of_nat_diff)
  have lt: "k - s < length (path m)" using assms(4) by simp
  have unfold: "locatorLoop c (Some m) step locator =
     (if contains c m then
        (if sint h' \<ge> int (length (nodes c)) then Some (Inl ChainPanic)
         else locatorLoop c (nodes c ! nat (sint h')) (if length locator \<ge> 10 then step * 2 else step) (locator @ [hash m]))
      else locatorLoop c (Ancestor m h') (if length locator \<ge> 10 then step * 2 else step) (locator @ [hash m]))"
    using ne by (subst locatorLoop.simps) (simp add: h'_def Let_def less_eq_Suc_le)
  show ?thesis
  proof (cases "contains c m")
    case True
    then have "nodes c \<noteq> []" unfolding contains_def nodeByHeight_def by (cases "sint (height m) < 0") auto
    then obtain n where n: "t = Some n" "nodes c = map Some (path n)" using assms(1) by (auto simp: view_of_def split: option.splits)
    then have "m \<in> set (path n)" using contains_iff [of n c m] assms(1-3) True by simp
    then have p: "prefix (path m) (path n)" by (rule path_prefix)
    then have "k - s < length (path n)" "path n ! (k - s) = path m ! (k - s)"
      using lt prefix_length_le [OF p] by (auto simp: prefix_def nth_append)
    then show ?thesis using True n h' by (simp add: unfold)
  next
    case False
    then show ?thesis using Ancestor_eq [OF assms(3) h'] lt by (simp add: unfold)
  qed
qed

lemma locatorLoop_eq:
  assumes "view_of t c" "\<forall>n. t = Some n \<longrightarrow> length (path n) < 2 ^ 31" "node_ok n" "length (path n) = Suc h"
    and "h \<le> locOffset M" "\<And>k. k < M \<Longrightarrow> locOffset k < h" "k \<le> M"
  shows "locatorLoop c (Some (path n ! (h - locOffset k))) (2 ^ (k - 10)) (map (\<lambda>i. hash (path n ! (h - locOffset i))) [0..<k])
    = Some (Inr (map (\<lambda>i. hash (path n ! (h - locOffset i))) [0..<Suc M]))"
  using assms(7)
proof (induction "M - k" arbitrary: k)
  case 0
  then have k: "k = M" by simp
  have "node_ok (path n ! 0)" "length (path (path n ! 0)) = 1" using node_ok_nth [OF assms(3)] path_nth [of 0 n] assms(4) by simp_all
  then have "sint (height (path n ! 0)) = 0" using node_ok_height by simp
  then have "height (path n ! 0) = 0" using sint_inject_nat [of _ 0] by simp
  then show ?case using k assms(5) by (subst locatorLoop.simps) simp
next
  case (Suc d)
  then have lt: "k < M" by simp
  then have ok: "locOffset k < h" by (rule assms(6))
  define m where "m = path n ! (h - locOffset k)"
  have m: "node_ok m" "path m = take (Suc (h - locOffset k)) (path n)"
    using node_ok_nth [OF assms(3)] path_nth assms(4) by (simp_all add: m_def)
  have hb: "h < 2 ^ 31" using path_length_bound [OF assms(3)] assms(4) by simp
  have pow: "2 ^ (k - 10) < (2 ^ 31 :: nat)"
  proof (cases "k < 11")
    case False
    then have "(2 :: nat) ^ (k - 10) < 2 ^ 31" using ok hb by (simp add: locOffset_def)
    then show ?thesis .
  qed simp
  have s: "sint (2 ^ (k - 10) :: 32 word) = int (2 ^ (k - 10))"
    using sint_word_of_nat [OF pow] by simp
  have "locatorLoop c (Some m) (2 ^ (k - 10)) (map (\<lambda>i. hash (path n ! (h - locOffset i))) [0..<k]) =
    locatorLoop c (Some (path m ! (h - locOffset k - 2 ^ (k - 10)))) (if k \<ge> 10 then 2 ^ (k - 10) * 2 else 2 ^ (k - 10))
      (map (\<lambda>i. hash (path n ! (h - locOffset i))) [0..<k] @ [hash m])"
    using locator_next [OF assms(1,2) m(1) _ _ s] m(2) assms(4) ok by simp
  also have "path m ! (h - locOffset k - 2 ^ (k - 10)) = path n ! (h - locOffset (Suc k))"
    using m(2) by (simp add: locOffset_Suc)
  also have "(if k \<ge> 10 then 2 ^ (k - 10) * 2 else 2 ^ (k - 10)) = (2 ^ (Suc k - 10) :: 32 word)"
  proof (cases "k \<ge> 10")
    case True
    then obtain j where "k = 10 + j" using le_Suc_ex by blast
    then show ?thesis by simp
  qed simp
  also have "map (\<lambda>i. hash (path n ! (h - locOffset i))) [0..<k] @ [hash m] = map (\<lambda>i. hash (path n ! (h - locOffset i))) [0..<Suc k]"
    by (simp add: m_def)
  finally have e: "locatorLoop c (Some m) (2 ^ (k - 10)) (map (\<lambda>i. hash (path n ! (h - locOffset i))) [0..<k]) =
    locatorLoop c (Some (path n ! (h - locOffset (Suc k)))) (2 ^ (Suc k - 10)) (map (\<lambda>i. hash (path n ! (h - locOffset i))) [0..<Suc k])" .
  have "d = M - Suc k" "Suc k \<le> M" using Suc(2) lt by simp_all
  then show ?case unfolding e [unfolded m_def] by (rule Suc(1))
qed

lemma maxEntries_offset:
  assumes "node_ok n" "length (path n) = Suc h"
  shows "\<exists>M. unat (maxEntriesFor n) = Suc M \<and> h \<le> locOffset M \<and> (\<forall>k<M. locOffset k < h)"
proof (cases "h \<le> 12")
  case True
  have h: "sint (height n) = int h" using node_ok_height [OF assms(1)] assms(2) by simp
  then have hw: "height n = of_nat h" by (rule sint_inject_nat)
  have "unat (ucast (of_nat h :: 32 word) + 1 :: 8 word) = Suc h"
    using True by (simp add: unat_word_ariths unsigned_ucast_eq unat_of_nat take_bit_nat_eq_self)
  moreover have "h \<le> locOffset h" by (simp add: locOffset_def, intro impI) (use True in \<open>auto simp: le_Suc_eq numeral_eq_Suc\<close>)
  moreover have "locOffset k < h" if "k < h" for k using that True by (cases "k = 11") (simp_all add: locOffset_def)
  ultimately show ?thesis using True h hw by (auto simp: maxEntriesFor_def)
next
  case False
  have h: "sint (height n) = int h" using node_ok_height [OF assms(1)] assms(2) by simp
  then have hw: "height n = of_nat h" by (rule sint_inject_nat)
  have hb: "h < 2 ^ 31" using path_length_bound [OF assms(1)] assms(2) by simp
  have u: "unat (height n - 10) = h - 10"
  proof -
    have "height n - 10 = of_nat (h - 10)" using False hw by (simp add: of_nat_diff)
    then show ?thesis using hb by (simp add: unat_of_nat)
  qed
  define L where "L = unat (fastLog2Floor (height n - 10))"
  have "height n - 10 \<noteq> 0" using u False by auto
  then have L: "2 ^ L \<le> h - 10" "h - 10 < 2 ^ Suc L" "L < 32" using fastLog2Floor_eq [of "height n - 10"] u by (simp_all add: L_def)
  have "unat (maxEntriesFor n) = Suc (11 + L)" using h False L(3) by (simp add: maxEntriesFor_def L_def unat_word_ariths)
  moreover have "h \<le> locOffset (11 + L)" using L(2) False by (simp add: locOffset_def)
  moreover have "locOffset k < h" if "k < 11 + L" for k
  proof -
    have "locOffset k \<le> locOffset (10 + L)" using that by (intro locOffset_mono) simp
    also have "locOffset (10 + L) \<le> 9 + 2 ^ L" by (cases L) (simp_all add: locOffset_def)
    also have "\<dots> < h" using L(1) False by simp
    finally show ?thesis .
  qed
  ultimately show ?thesis by blast
qed

text \<open>
  C37: The locator of a node always returns: its entries are the hashes of the node, of the ten
  nodes before it and then of nodes at distances that double, down to the first block, and their
  number is exactly the capacity reserved for them.
\<close>

theorem block_locator:
  assumes "view_of t c" "\<forall>n. t = Some n \<longrightarrow> length (path n) < 2 ^ 31" "node_ok n"
  shows "blockLocator c (Some n) = Some (Inr (map (\<lambda>k. hash (path n ! (length (path n) - 1 - locOffset k)))
      [0..<unat (maxEntriesFor n)]))
    \<and> length (path n) - 1 \<le> locOffset (unat (maxEntriesFor n) - 1)"
proof -
  define h where "h = length (path n) - 1"
  have len: "length (path n) = Suc h" by (simp add: h_def Suc_diff_Suc)
  obtain M where M: "unat (maxEntriesFor n) = Suc M" "h \<le> locOffset M" "\<forall>k<M. locOffset k < h"
    using maxEntries_offset [OF assms(3) len] by blast
  have "locatorLoop c (Some (path n ! (h - locOffset 0))) (2 ^ (0 - 10)) (map (\<lambda>i. hash (path n ! (h - locOffset i))) [0..<0])
    = Some (Inr (map (\<lambda>i. hash (path n ! (h - locOffset i))) [0..<Suc M]))"
    by (rule locatorLoop_eq [OF assms len M(2)]) (use M(3) in simp_all)
  moreover have "path n ! h = n" using last_conv_nth [of "path n"] by (simp add: h_def)
  ultimately show ?thesis using M len by (simp add: blockLocator_def)
qed

section \<open>The past median time\<close>

lemma timestampLoop_eq: "timestampLoop i n = take i (rev (map (\<lambda>m. n_timestamp (nodeFields m)) (path n)))"
proof (induction n arbitrary: i rule: node_induct)
  case (1 n)
  then show ?case by (cases i; cases n) auto
next
  case (2 n q)
  then show ?case by (cases i; cases n) auto
qed

lemma sorted_median:
  fixes ts :: "int list"
  assumes "ts \<noteq> []"
  shows "sort ts ! (length ts div 2) \<in> set ts"
    "length (filter (\<lambda>x. x < sort ts ! (length ts div 2)) ts) \<le> length ts div 2"
    "length (filter (\<lambda>x. sort ts ! (length ts div 2) < x) ts) \<le> length ts - Suc (length ts div 2)"
proof -
  define k where "k = length ts div 2"
  define m where "m = sort ts ! k"
  have k: "k < length ts" using assms by (simp add: k_def)
  have split: "sort ts = take k (sort ts) @ m # drop (Suc k) (sort ts)" using k by (simp add: m_def id_take_nth_drop)
  have cnt: "length (filter P ts) = length (filter P (sort ts))" for P
    by (simp add: filter_sort)
  have "sorted (take k (sort ts) @ m # drop (Suc k) (sort ts))" by (subst split [symmetric]) (rule sorted_sort)
  then have lo: "\<forall>x \<in> set (take k (sort ts)). x \<le> m" and hi: "\<forall>x \<in> set (drop (Suc k) (sort ts)). m \<le> x"
    by (auto simp: sorted_append)
  show "sort ts ! (length ts div 2) \<in> set ts" using k nth_mem [of k "sort ts"] by (simp add: k_def)
  have "filter (\<lambda>x. x < m) (m # drop (Suc k) (sort ts)) = []"
    using hi by (auto simp: filter_empty_conv)
  then have "length (filter (\<lambda>x. x < m) (sort ts)) = length (filter (\<lambda>x. x < m) (take k (sort ts)))"
    by (subst split) simp
  also have "\<dots> \<le> k" using length_filter_le [of _ "take k (sort ts)"] by (simp add: order.trans)
  finally show "length (filter (\<lambda>x. x < sort ts ! (length ts div 2)) ts) \<le> length ts div 2"
    by (simp add: cnt m_def k_def)
  have "filter (\<lambda>x. m < x) (take k (sort ts) @ [m]) = []"
    using lo by (auto simp: filter_empty_conv)
  then have "length (filter (\<lambda>x. m < x) (sort ts)) = length (filter (\<lambda>x. m < x) (drop (Suc k) (sort ts)))"
    by (subst split) simp
  also have "\<dots> \<le> length ts - Suc k" using length_filter_le [of _ "drop (Suc k) (sort ts)"] by simp
  finally show "length (filter (\<lambda>x. sort ts ! (length ts div 2) < x) ts) \<le> length ts - Suc (length ts div 2)"
    by (simp add: cnt m_def k_def)
qed

section \<open>Nodes made from headers\<close>

lemma newBlockNode_ok:
  "node_ok (newBlockNode header None votes)"
  "node_ok p \<Longrightarrow> sint (height p) < 2 ^ 31 - 1 \<Longrightarrow> node_ok (newBlockNode header (Some p) votes)"
  by (simp_all add: newBlockNode_def)

lemma node_Header_newBlockNode:
  "PrevBlock header = (case p of Some q \<Rightarrow> hash q | None \<Rightarrow> nullHash) \<Longrightarrow> node_Header (newBlockNode header p votes) = header"
  by (simp add: newBlockNode_def node_Header_def)

section \<open>Properties\<close>

definition rootNode :: blockNode where
  "rootNode = BlockNode None \<lparr>n_hash = [1], n_height = 0, n_version = 0, n_timestamp = 10, n_merkleRoot = [],
     n_signature = [], n_publicKey = [], n_scale = 1, n_reserved = 0, n_Votes = 1\<rparr>"

definition childNode :: "byte \<Rightarrow> blockNode" where
  "childNode b = BlockNode (Some rootNode) \<lparr>n_hash = [b], n_height = 1, n_version = 0, n_timestamp = 20, n_merkleRoot = [],
     n_signature = [], n_publicKey = [], n_scale = 1, n_reserved = 0, n_Votes = 1\<rparr>"

lemma sampleNodes:
  "path rootNode = [rootNode]" "path (childNode b) = [rootNode, childNode b]" "node_ok rootNode" "node_ok (childNode b)"
  "hash rootNode = [1]" "hash (childNode b) = [b]" "height (childNode b) = 1" "parent (childNode b) = Some rootNode"
  "childNode b = childNode b' \<longleftrightarrow> b = b'" "height rootNode = 0" "childNode b \<noteq> rootNode" "rootNode \<noteq> childNode b"
  by (simp_all add: rootNode_def childNode_def)

text \<open>
  C36: Setting the tip of a view of any chain gives the view of the chain of the new tip although
  the loop stops at the first node that is already in place; the view then contains exactly the nodes
  of that chain, and the fork it finds for any node is the last node common to both chains.
\<close>

theorem chain_view_set_tip:
  assumes "view_of t c" "node_ok n" "sint (height n) < 2 ^ 31 - 1009"
  shows "\<exists>c'. setTip (Some n) c = Inr c' \<and> nodes c' = map Some (path n) \<and> tip c' = Some n \<and>
    genesis c' = Some (hd (path n)) \<and> cvheight c' = height n \<and>
    (\<forall>m. node_ok m \<longrightarrow> (contains c' m \<longleftrightarrow> m \<in> set (path n)) \<and>
       findFork c' (Some m) = (case longest_common_prefix (path n) (path m) of [] \<Rightarrow> None | x # xs \<Rightarrow> Some (last (x # xs))))"
proof -
  obtain c' where c': "setTip (Some n) c = Inr c'" "view_of (Some n) c'" using setTip_eq [OF assms(1,2)] assms(3) by auto
  then have ns: "nodes c' = map Some (path n)" by (simp add: view_of_def)
  have h: "sint (height n) = int (length (path n) - 1)" using node_ok_height [OF assms(2)] by (simp add: of_nat_diff Suc_le_eq)
  have b: "length (path n) < 2 ^ 31" using node_ok_height [OF assms(2)] assms(3) by simp
  have "tip c' = Some n" using ns last_conv_nth [of "path n"] by (simp add: tip_def)
  moreover have "genesis c' = Some (hd (path n))" using ns by (simp add: genesis_def hd_conv_nth)
  moreover have "cvheight c' = height n"
    using ns sint_inject_nat [OF h] by (simp add: cvheight_def of_nat_diff Suc_le_eq)
  ultimately show ?thesis using c' ns contains_iff [OF c'(2) _ b] findFork_eq [OF c'(2) b] by blast
qed

theorem chain_view_set_tip_witness:
  "\<exists>c'. setTip (Some (childNode 2)) \<lparr>nodes = map Some (path (childNode 3)), cvcap = 2\<rparr> = Inr c' \<and>
    nodes c' = [Some rootNode, Some (childNode 2)] \<and> \<not> contains c' (childNode 3) \<and> findFork c' (Some (childNode 3)) = Some rootNode"
proof -
  have v: "view_of (Some (childNode 3)) \<lparr>nodes = map Some (path (childNode 3)), cvcap = 2\<rparr>"
    by (simp add: view_of_def sampleNodes)
  show ?thesis
    using chain_view_set_tip [OF v sampleNodes(4) [of 2]] sampleNodes(4) [of 3] by (auto simp: sampleNodes)
qed


theorem block_locator_witness:
  "blockLocator \<lparr>nodes = [Some rootNode, Some (childNode 3)], cvcap = 2\<rparr> (Some (childNode 2)) = Some (Inr [[2], [1]])"
proof -
  have v: "view_of (Some (childNode 3)) \<lparr>nodes = [Some rootNode, Some (childNode 3)], cvcap = 2\<rparr>"
    by (simp add: view_of_def sampleNodes)
  have "unat (maxEntriesFor (childNode 2)) = 2" by (simp add: maxEntriesFor_def sampleNodes)
  then show ?thesis
    using block_locator [OF v _ sampleNodes(4) [of 2]] by (simp add: sampleNodes locOffset_def upt_rec)
qed

text \<open>
  The past median time of a node is the time of one of the last eleven blocks; at most half
  of these times are before it and less than half are after it.
\<close>

theorem past_median_time:
  "let ts = take 11 (rev (map (\<lambda>m. n_timestamp (nodeFields m)) (path n))); t = CalcPastMedianTime n in
   t \<in> set ts \<and> 2 * length (filter (\<lambda>x. x < t) ts) \<le> length ts \<and> 2 * length (filter (\<lambda>x. t < x) ts) < length ts"
proof -
  define ts where "ts = take 11 (rev (map (\<lambda>m. n_timestamp (nodeFields m)) (path n)))"
  have ne: "ts \<noteq> []" by (simp add: ts_def)
  have e: "CalcPastMedianTime n = sort ts ! (length ts div 2)"
    by (simp add: CalcPastMedianTime_def timestampLoop_eq medianTimeBlocks_def Let_def ts_def)
  have "0 < length ts" using ne by simp
  note m = sorted_median [OF ne, folded e] this
  show ?thesis unfolding Let_def ts_def [symmetric]
  proof (intro conjI)
    show "CalcPastMedianTime n \<in> set ts" by (rule m(1))
    show "2 * length (filter (\<lambda>x. x < CalcPastMedianTime n) ts) \<le> length ts" using m(2) by linarith
    show "2 * length (filter (\<lambda>x. CalcPastMedianTime n < x) ts) < length ts" using m(3,4) by linarith
  qed
qed

end
