(* ===== verification/Chain_Merkle.thy ===== *)
theory Chain_Merkle
  imports Chain_Utxo
begin

text \<open>
  Merkle trees of transactions (\<^verbatim>\<open>src/blockchain/merkle.go\<close>): the linear array that holds a tree, the
  commitment of a coinbase to the witnesses of a block and its validation.  The last place of the
  array holds the root of the reference definition, which pairs up hashes level by level.
\<close>

unbundle bit_operations_syntax

section \<open>Building the tree\<close>

definition CoinbaseWitnessDataLen :: nat where "CoinbaseWitnessDataLen = 32"
definition CoinbaseWitnessPkScriptLength :: nat where "CoinbaseWitnessPkScriptLength = 38"
abbreviation (input) OP_DATA_36 :: byte where "OP_DATA_36 \<equiv> 0x24"

definition WitnessMagicBytes :: bytes where "WitnessMagicBytes = [OP_RETURN, OP_DATA_36, 0xaa, 0x21, 0xa9, 0xed]"

text \<open>The integer part of the logarithm, which the code takes in floating point.\<close>

fun log2Floor :: "nat \<Rightarrow> nat" where
  "log2Floor n = (if n < 2 then 0 else Suc (log2Floor (n div 2)))"

declare log2Floor.simps [simp del]

definition nextPowerOfTwo :: "nat \<Rightarrow> nat" where
  "nextPowerOfTwo n = (if n AND (n - 1) = 0 then n else 2 ^ (log2Floor n + 1))"

definition HashMerkleBranches :: "bytes \<Rightarrow> bytes \<Rightarrow> bytes" where
  "HashMerkleBranches left right = DoubleHashH (left @ right)"

definition merkleParent :: "bytes option \<Rightarrow> bytes option \<Rightarrow> bytes option" where
  "merkleParent l r =
     (case l of None \<Rightarrow> None
      | Some left \<Rightarrow> (case r of None \<Rightarrow> Some (HashMerkleBranches left left) | Some right \<Rightarrow> Some (HashMerkleBranches left right)))"

definition merkleLeaves :: "bool \<Rightarrow> MsgTx list \<Rightarrow> bytes list" where
  "merkleLeaves witness transactions =
     map (\<lambda>(i, tx). if witness \<and> i = 0 then nullHash else if witness then WitnessHash tx else TxHash tx) (enumerate 0 transactions)"

text \<open>The step of the loop for \<open>i = 2 * j\<close>, where the offset has come to \<open>nextPoT + j\<close>.\<close>

definition merkleStep :: "nat \<Rightarrow> nat \<Rightarrow> bytes option list \<Rightarrow> bytes option list" where
  "merkleStep nextPoT j merkles = merkles[nextPoT + j := merkleParent (merkles ! (2 * j)) (merkles ! (2 * j + 1))]"

text \<open>Without transactions the size of the array would be negative, which is a panic.\<close>

definition BuildMerkleTreeStore :: "MsgTx list \<Rightarrow> bool \<Rightarrow> chain_err + bytes option list" where
  "BuildMerkleTreeStore transactions witness =
     (let nextPoT = nextPowerOfTwo (length transactions) in
      if nextPoT * 2 < 1 then Inl ChainPanic
      else
        let arraySize = nextPoT * 2 - 1;
            merkles = map Some (merkleLeaves witness transactions) @ replicate (arraySize - length transactions) None
        in Inr (fold (merkleStep nextPoT) [0..<(arraySize - 1) div 2] merkles))"

section \<open>The commitment to the witnesses\<close>

definition ExtractWitnessCommitment :: "MsgTx \<Rightarrow> bytes option" where
  "ExtractWitnessCommitment tx =
     (if \<not> IsCoinBaseTx tx then None
      else case List.find (\<lambda>txOut. length (PkScript txOut) \<ge> CoinbaseWitnessPkScriptLength \<and>
                  take (length WitnessMagicBytes) (PkScript txOut) = WitnessMagicBytes) (rev (TxOuts tx)) of
             Some txOut \<Rightarrow> Some (drop (length WitnessMagicBytes) (take CoinbaseWitnessPkScriptLength (PkScript txOut)))
           | None \<Rightarrow> None)"

definition ValidateWitnessCommitment :: "MsgTx list \<Rightarrow> chain_err + unit" where
  "ValidateWitnessCommitment transactions =
     (case transactions of [] \<Rightarrow> Inl (ruleError ErrNoTransactions)
      | coinbaseTx # _ \<Rightarrow>
          if length (TxIns coinbaseTx) = 0 then Inl (ruleError ErrNoTxInputs)
          else case ExtractWitnessCommitment coinbaseTx of
            None \<Rightarrow> if list_ex HasWitness transactions then Inl (ruleError ErrUnexpectedWitness) else Inr ()
          | Some witnessCommitment \<Rightarrow>
              let coinbaseWitness = Witness (TxIns coinbaseTx ! 0) in
              if length coinbaseWitness \<noteq> 1 then Inl (ruleError ErrInvalidWitnessCommitment)
              else
                let witnessNonce = coinbaseWitness ! 0 in
                if length witnessNonce \<noteq> CoinbaseWitnessDataLen then Inl (ruleError ErrInvalidWitnessCommitment)
                else case BuildMerkleTreeStore transactions True of
                  Inl err \<Rightarrow> Inl err
                | Inr tree \<Rightarrow>
                    (case tree ! (length tree - 1) of
                       None \<Rightarrow> Inl ChainPanic
                     | Some witnessMerkleRoot \<Rightarrow>
                         if DoubleHashB (witnessMerkleRoot @ witnessNonce) \<noteq> witnessCommitment
                         then Inl (ruleError ErrWitnessCommitmentMismatch) else Inr ()))"

section \<open>The root\<close>

text \<open>The reference: pair up the hashes, the last one with itself when it has no partner, until one is left.\<close>

fun merkle_level :: "bytes list \<Rightarrow> bytes list" where
  "merkle_level (a # b # xs) = HashMerkleBranches a b # merkle_level xs"
| "merkle_level [a] = [HashMerkleBranches a a]"
| "merkle_level [] = []"

lemma length_merkle_level: "length (merkle_level xs) = (length xs + 1) div 2"
  by (induction xs rule: merkle_level.induct) simp_all

function merkle_root :: "bytes list \<Rightarrow> bytes" where
  "merkle_root xs = (if length xs \<le> 1 then hd xs else merkle_root (merkle_level xs))"
  by auto
termination by (relation "measure length") (simp_all add: length_merkle_level)

declare merkle_root.simps [simp del]

lemma log2Floor_bounds: "0 < n \<Longrightarrow> 2 ^ log2Floor n \<le> n \<and> n < 2 ^ (log2Floor n + 1)"
proof (induction n rule: log2Floor.induct)
  case (1 n)
  show ?case
  proof (cases "n < 2")
    case True
    then show ?thesis using 1 by (simp add: log2Floor.simps [of n])
  next
    case False
    then have "2 ^ log2Floor (n div 2) \<le> n div 2 \<and> n div 2 < 2 ^ (log2Floor (n div 2) + 1)" using 1 by simp
    then have "2 * 2 ^ log2Floor (n div 2) \<le> n" "n < 2 * (2 * 2 ^ log2Floor (n div 2))" by auto
    then show ?thesis using False by (simp add: log2Floor.simps [of n])
  qed
qed

lemma and_pred_pow2:
  fixes n :: nat
  assumes "0 < n"
  shows "n AND (n - 1) = 0 \<longleftrightarrow> n = 2 ^ log2Floor n"
proof -
  define k where "k = log2Floor n"
  have k: "2 ^ k \<le> n" "n < 2 * 2 ^ k" using log2Floor_bounds [OF assms] by (simp_all add: k_def)
  show ?thesis unfolding k_def [symmetric]
  proof (cases "n = 2 ^ k")
    case True
    have "(2 :: nat) ^ k AND (2 ^ k - 1) = 0"
      using take_bit_eq_mask [of k "2 ^ k :: nat"] by (simp add: mask_eq_exp_minus_1 take_bit_eq_mod)
    then show "n AND (n - 1) = 0 \<longleftrightarrow> n = 2 ^ k" using True by (simp only: simp_thms)
  next
    case False
    then have "2 ^ k \<le> n - 1" "n - 1 < 2 * 2 ^ k" using k by simp_all
    then have "(n - 1) div 2 ^ k = 1" "n div 2 ^ k = 1" using k by (simp_all add: div_nat_eqI)
    then have "bit (n - 1) k" "bit n k" by (simp_all add: bit_iff_odd)
    then have "bit (n AND (n - 1)) k" by (simp add: bit_and_iff)
    then have "n AND (n - 1) \<noteq> 0" using bit_0_eq by (metis bot_apply bot_bool_def)
    then show "n AND (n - 1) = 0 \<longleftrightarrow> n = 2 ^ k" using False by blast
  qed
qed

lemma nextPowerOfTwo_eq:
  assumes "0 < n"
  shows "\<exists>k. nextPowerOfTwo n = 2 ^ k \<and> n \<le> 2 ^ k \<and> (k = 0 \<or> 2 ^ (k - 1) < n)"
proof (cases "n = 2 ^ log2Floor n")
  case True
  then have "nextPowerOfTwo n = 2 ^ log2Floor n" using and_pred_pow2 [OF assms] by (simp add: nextPowerOfTwo_def)
  moreover have "log2Floor n = 0 \<or> 2 ^ (log2Floor n - 1) < n"
  proof (cases "log2Floor n")
    case (Suc j)
    then show ?thesis using True by simp
  qed simp
  ultimately show ?thesis using True by (intro exI [of _ "log2Floor n"]) simp
next
  case False
  then have "nextPowerOfTwo n = 2 ^ (log2Floor n + 1)" using and_pred_pow2 [OF assms] by (simp add: nextPowerOfTwo_def)
  moreover have "2 ^ log2Floor n < n" "n \<le> 2 ^ (log2Floor n + 1)" using log2Floor_bounds [OF assms] False by simp_all
  ultimately show ?thesis by (intro exI [of _ "log2Floor n + 1"]) simp
qed

lemma length_merkleStep [simp]: "length (merkleStep P j m) = length m"
  by (simp add: merkleStep_def)

lemma length_merkleSteps [simp]: "length (fold (merkleStep P) js m) = length m"
  by (induction js arbitrary: m) simp_all

text \<open>The loop only writes behind the places it reads, so the array ends up closed under taking parents.\<close>

lemma merkleLoop:
  assumes "j < P" "length m = 2 * P - 1"
  shows "(\<forall>i<P. fold (merkleStep P) [0..<j] m ! i = m ! i) \<and>
    (\<forall>i<j. fold (merkleStep P) [0..<j] m ! (P + i) =
       merkleParent (fold (merkleStep P) [0..<j] m ! (2 * i)) (fold (merkleStep P) [0..<j] m ! (2 * i + 1)))"
  using assms
proof (induction j)
  case (Suc j)
  define a where "a = fold (merkleStep P) [0..<j] m"
  have IH: "\<forall>i<P. a ! i = m ! i" "\<forall>i<j. a ! (P + i) = merkleParent (a ! (2 * i)) (a ! (2 * i + 1))"
    using Suc by (simp_all add: a_def)
  have len: "length a = 2 * P - 1" using Suc by (simp add: a_def)
  have e: "fold (merkleStep P) [0..<Suc j] m = a[P + j := merkleParent (a ! (2 * j)) (a ! (2 * j + 1))]"
    by (simp add: a_def merkleStep_def)
  show ?case unfolding e
  proof (intro conjI allI impI)
    fix i
    assume "i < P"
    then show "a[P + j := merkleParent (a ! (2 * j)) (a ! (2 * j + 1))] ! i = m ! i" using IH(1) by simp
  next
    fix i
    assume i: "i < Suc j"
    then have r: "2 * i \<noteq> P + j" "2 * i + 1 \<noteq> P + j" using Suc(2) by auto
    show "a[P + j := merkleParent (a ! (2 * j)) (a ! (2 * j + 1))] ! (P + i) =
      merkleParent (a[P + j := merkleParent (a ! (2 * j)) (a ! (2 * j + 1))] ! (2 * i))
        (a[P + j := merkleParent (a ! (2 * j)) (a ! (2 * j + 1))] ! (2 * i + 1))"
      using i r IH(2) len Suc(2) by (cases "i = j") auto
  qed
qed simp

text \<open>One level above a list of places, a place without a hash standing for nothing.\<close>

fun pairUp :: "bytes option list \<Rightarrow> bytes option list" where
  "pairUp (a # b # xs) = merkleParent a b # pairUp xs"
| "pairUp xs = []"

lemma pairUp_nth: "2 * i + 1 < length xs \<Longrightarrow> pairUp xs ! i = merkleParent (xs ! (2 * i)) (xs ! (2 * i + 1))"
proof (induction xs arbitrary: i rule: pairUp.induct)
  case (1 a b xs)
  then show ?case by (cases i) auto
qed auto

lemma length_pairUp: "length (pairUp xs) = length xs div 2"
  by (induction xs rule: pairUp.induct) auto

lemma pairUp_padded:
  "even (length xs + n) \<Longrightarrow> pairUp (map Some xs @ replicate n None) =
     map Some (merkle_level xs) @ replicate ((length xs + n) div 2 - length (merkle_level xs)) None"
proof (induction xs rule: merkle_level.induct)
  case (1 a b xs)
  then show ?case by (simp add: merkleParent_def)
next
  case (2 a)
  then obtain k where k: "n = Suc (2 * k)" by (auto elim!: oddE)
  have "pairUp (replicate (2 * k) None) = replicate k None" by (induction k) (simp_all add: merkleParent_def)
  then show ?case using k by (simp add: merkleParent_def)
next
  case 3
  then obtain k where k: "n = 2 * k" by auto
  have "pairUp (replicate (2 * k) None) = replicate k None" by (induction k) (simp_all add: merkleParent_def)
  then show ?case using k by simp
qed

text \<open>The places of a level lie one after the other.\<close>

definition levelBase :: "nat \<Rightarrow> nat \<Rightarrow> nat" where "levelBase k l = 2 * 2 ^ k - 2 * 2 ^ (k - l)"

lemma levelBase_Suc:
  assumes "l < k"
  shows "levelBase k (Suc l) = 2 ^ k + levelBase k l div 2" "even (levelBase k l)"
    "levelBase k (Suc l) = levelBase k l + 2 ^ (k - l)"
proof -
  obtain d where d: "k - l = Suc d" using assms by (metis Suc_diff_Suc)
  then have e: "k - Suc l = d" by simp
  have le: "(2 :: nat) ^ Suc d \<le> 2 ^ k" using d by (intro power_increasing) auto
  show "levelBase k (Suc l) = 2 ^ k + levelBase k l div 2" "even (levelBase k l)"
    "levelBase k (Suc l) = levelBase k l + 2 ^ (k - l)"
    using le by (simp_all add: levelBase_def d e)
qed

lemma level_slice:
  assumes "length m = 2 * 2 ^ k - 1"
    and "\<forall>i<2 ^ k - 1. m ! (2 ^ k + i) = merkleParent (m ! (2 * i)) (m ! (2 * i + 1))" "l \<le> k"
  shows "take (2 ^ (k - l)) (drop (levelBase k l) m) = (pairUp ^^ l) (take (2 ^ k) m)"
  using assms(3)
proof (induction l)
  case 0
  then show ?case by (simp add: levelBase_def)
next
  case (Suc l)
  define b where "b = levelBase k l"
  define xs where "xs = take (2 ^ (k - l)) (drop b m)"
  have l: "l < k" using Suc by simp
  note base = levelBase_Suc [OF l, folded b_def]
  obtain d where d: "k - l = Suc d" "k - Suc l = d" using l by (metis Suc_diff_Suc)
  have le: "(2 :: nat) ^ Suc d \<le> 2 ^ k" using d by (intro power_increasing) auto
  have bnd: "b = 2 * 2 ^ k - 2 * 2 ^ Suc d" by (simp add: b_def levelBase_def d)
  have len: "length xs = 2 ^ Suc d" using le assms(1) by (simp add: xs_def d bnd)
  have "take (2 ^ d) (drop (b + 2 ^ Suc d) m) = pairUp xs"
  proof (rule nth_equalityI)
    have "length m - (b + 2 ^ Suc d) \<ge> 2 ^ d" using le assms(1) by (simp add: bnd)
    then show len': "length (take (2 ^ d) (drop (b + 2 ^ Suc d) m)) = length (pairUp xs)" using len by (simp add: length_pairUp)
    fix i
    assume "i < length (take (2 ^ d) (drop (b + 2 ^ Suc d) m))"
    then have i: "i < 2 ^ d" by simp
    have c: "b + 2 ^ Suc d = 2 ^ k + b div 2" "even b" using base d by simp_all
    have "take (2 ^ d) (drop (b + 2 ^ Suc d) m) ! i = m ! (2 ^ k + (b div 2 + i))" using i c(1) le assms(1) bnd by (simp add: ac_simps)
    also have "\<dots> = merkleParent (m ! (2 * (b div 2 + i))) (m ! (2 * (b div 2 + i) + 1))"
    proof -
      have "b div 2 + i < 2 ^ k - 1" using i le by (simp add: bnd)
      then show ?thesis using assms(2) by blast
    qed
    also have "2 * (b div 2 + i) = b + 2 * i" using c(2) by simp
    also have "merkleParent (m ! (b + 2 * i)) (m ! (b + 2 * i + 1)) = merkleParent (xs ! (2 * i)) (xs ! (2 * i + 1))"
      using i len le assms(1) by (simp add: xs_def d bnd)
    also have "\<dots> = pairUp xs ! i" using i len by (intro pairUp_nth [symmetric]) simp
    finally show "take (2 ^ d) (drop (b + 2 ^ Suc d) m) ! i = pairUp xs ! i" .
  qed
  then show ?case using Suc.IH l base(3) d by (simp add: xs_def b_def)
qed

lemma levels_padded:
  assumes "xs \<noteq> []" "length xs \<le> 2 ^ k" "l \<le> k"
  shows "(pairUp ^^ l) (map Some xs @ replicate (2 ^ k - length xs) None) =
    map Some ((merkle_level ^^ l) xs) @ replicate (2 ^ (k - l) - length ((merkle_level ^^ l) xs)) None
    \<and> length ((merkle_level ^^ l) xs) \<le> 2 ^ (k - l) \<and> (merkle_level ^^ l) xs \<noteq> []"
  using assms(3)
proof (induction l)
  case 0
  then show ?case using assms by simp
next
  case (Suc l)
  define ys where "ys = (merkle_level ^^ l) xs"
  obtain d where d: "k - l = Suc d" "k - Suc l = d" using Suc by (metis Suc_diff_Suc Suc_le_lessD)
  have IH: "(pairUp ^^ l) (map Some xs @ replicate (2 ^ k - length xs) None) = map Some ys @ replicate (2 ^ Suc d - length ys) None"
    "length ys \<le> 2 ^ Suc d" "ys \<noteq> []" using Suc d by (simp_all add: ys_def)
  have len: "length (merkle_level ys) \<le> 2 ^ d" "merkle_level ys \<noteq> []"
    using IH(2,3) length_merkle_level [of ys] by (auto simp: Suc_le_eq simp flip: length_greater_0_conv)
  have "length ys + (2 ^ Suc d - length ys) = 2 ^ Suc d" using IH(2) by simp
  then have "pairUp (map Some ys @ replicate (2 ^ Suc d - length ys) None) =
      map Some (merkle_level ys) @ replicate (2 ^ d - length (merkle_level ys)) None"
    using pairUp_padded [of ys "2 ^ Suc d - length ys"] by simp
  then show ?case using IH len by (simp add: d ys_def)
qed

lemma merkle_root_levels:
  assumes "xs \<noteq> []" "length xs \<le> 2 ^ k" "k = 0 \<or> 2 ^ (k - 1) < length xs"
  shows "(merkle_level ^^ k) xs = [merkle_root xs]"
  using assms
proof (induction k arbitrary: xs)
  case 0
  then obtain x where "xs = [x]" by (cases xs) auto
  then show ?case by (simp add: merkle_root.simps)
next
  case (Suc k)
  then have lt: "2 ^ k < length xs" by simp
  then have "1 < length xs" by (meson one_le_numeral one_le_power order_le_less_trans)
  then have r: "merkle_root xs = merkle_root (merkle_level xs)" by (subst merkle_root.simps) simp
  have len: "length (merkle_level xs) = (length xs + 1) div 2" by (rule length_merkle_level)
  have "(merkle_level ^^ k) (merkle_level xs) = [merkle_root (merkle_level xs)]"
  proof (rule Suc.IH)
    show "merkle_level xs \<noteq> []" using \<open>1 < length xs\<close> len by auto
    show "length (merkle_level xs) \<le> 2 ^ k" using Suc.prems(2) len by simp
    show "k = 0 \<or> 2 ^ (k - 1) < length (merkle_level xs)"
    proof (cases k)
      case (Suc j)
      then show ?thesis using lt len by simp
    qed simp
  qed
  then show ?case unfolding r by (simp add: funpow_swap1)
qed

lemma merkle_tree_root_ex:
  assumes "transactions \<noteq> []"
  shows "\<exists>merkles. BuildMerkleTreeStore transactions witness = Inr merkles \<and>
    length merkles = 2 * nextPowerOfTwo (length transactions) - 1 \<and>
    merkles ! (length merkles - 1) = Some (merkle_root (merkleLeaves witness transactions))"
proof -
  define xs where "xs = merkleLeaves witness transactions"
  have xs: "xs \<noteq> []" "length xs = length transactions" using assms by (simp_all add: xs_def merkleLeaves_def enumerate_eq_zip)
  obtain k where k: "nextPowerOfTwo (length transactions) = 2 ^ k" "length xs \<le> 2 ^ k" "k = 0 \<or> 2 ^ (k - 1) < length xs"
    using nextPowerOfTwo_eq [of "length transactions"] assms xs(2) by auto
  define m0 where "m0 = map Some xs @ replicate (2 * 2 ^ k - 1 - length xs) None"
  define m where "m = fold (merkleStep (2 ^ k)) [0..<2 ^ k - 1] m0"
  have pos: "(1 :: nat) \<le> 2 ^ k" by simp
  have half: "(2 * 2 ^ k - Suc (Suc 0)) div 2 = 2 ^ k - Suc 0" using pos by linarith
  have b: "BuildMerkleTreeStore transactions witness = Inr m"
    using k(1) xs(2) half by (simp add: BuildMerkleTreeStore_def Let_def m_def m0_def xs_def mult.commute)
  have len0: "length m0 = 2 * 2 ^ k - 1" using k(2) pos by (simp add: m0_def)
  then have len: "length m = 2 * 2 ^ k - 1" by (simp add: m_def)
  note loop = merkleLoop [of "2 ^ k - 1" "2 ^ k" m0, folded m_def]
  have "take (2 ^ k) m = take (2 ^ k) m0" using loop len len0 by (intro nth_equalityI) simp_all
  also have "\<dots> = map Some xs @ replicate (2 ^ k - length xs) None"
    using k(2) pos by (simp add: m0_def min_def)
  finally have t: "take (2 ^ k) m = map Some xs @ replicate (2 ^ k - length xs) None" .
  have "take (2 ^ (k - k)) (drop (levelBase k k) m) = (pairUp ^^ k) (take (2 ^ k) m)"
    using loop len0 len by (intro level_slice) simp_all
  also have "\<dots> = [Some (merkle_root xs)]"
    unfolding t using levels_padded [OF xs(1) k(2), of k] merkle_root_levels [OF xs(1) k(2,3)] by simp
  finally have "take 1 (drop (2 * 2 ^ k - 2) m) = [Some (merkle_root xs)]" by (simp add: levelBase_def)
  moreover have "2 * 2 ^ k - 2 < length m" using len pos by linarith
  ultimately have "m ! (2 * 2 ^ k - 2) = Some (merkle_root xs)" by (simp add: take_Suc hd_drop_conv_nth)
  then show ?thesis using b len k(1) by (simp add: xs_def numeral_2_eq_2)
qed

text \<open>
  C19: Building the tree of at least one transaction never panics, gives an array of the size of
  a full tree, and leaves in its last place the root obtained by pairing up the hashes level by level.
\<close>

theorem merkle_tree_root:
  assumes "transactions \<noteq> []"
  shows "\<exists>merkles. BuildMerkleTreeStore transactions witness = Inr merkles \<and>
    length merkles = 2 * nextPowerOfTwo (length transactions) - 1 \<and>
    merkles ! (length merkles - 1) = Some (merkle_root (merkleLeaves witness transactions))"
  by (rule merkle_tree_root_ex [OF assms])

definition merkleTx :: "32 word \<Rightarrow> MsgTx" where
  "merkleTx n = \<lparr>Version = n, TxIns = [], TxOuts = [], LockTime = 0\<rparr>"

theorem merkle_tree_root_witness:
  "\<exists>merkles. BuildMerkleTreeStore [merkleTx 1, merkleTx 2, merkleTx 3] False = Inr merkles \<and> length merkles = 7 \<and>
    merkles ! 6 = Some (HashMerkleBranches (HashMerkleBranches (TxHash (merkleTx 1)) (TxHash (merkleTx 2)))
      (HashMerkleBranches (TxHash (merkleTx 3)) (TxHash (merkleTx 3))))"
proof -
  have "nextPowerOfTwo 3 = 4" by (simp add: nextPowerOfTwo_def log2Floor.simps)
  then have p: "nextPowerOfTwo (Suc (Suc (Suc 0))) = 4" by (simp add: numeral_3_eq_3)
  show ?thesis
    using merkle_tree_root [of "[merkleTx 1, merkleTx 2, merkleTx 3]" False] p
    by (auto simp: merkleLeaves_def merkle_root.simps)
qed

text \<open>
  The root does not tell a list of transactions of odd length from the list with its last element
  repeated, which is why a block with a repeated transaction is rejected.
\<close>

lemma merkle_level_duplicate: "odd (length xs) \<Longrightarrow> merkle_level (xs @ [last xs]) = merkle_level xs"
  by (induction xs rule: merkle_level.induct) auto

lemma merkle_root_duplicate: "odd (length xs) \<Longrightarrow> 1 < length xs \<Longrightarrow> merkle_root (xs @ [last xs]) = merkle_root xs"
  using merkle_level_duplicate [of xs] by (cases "xs = []") (simp_all add: merkle_root.simps [of xs] merkle_root.simps [of "xs @ [last xs]"])

end
