(* ===== verification/Vote.thy ===== *)
theory Vote
  imports Wire_Block Script_Engine
begin

text \<open>
  The voting rules: the thresholds below which the weight of a node gives it the right to vote or
  to propose a block, the estimate of the number of nodes from earlier blocks, in 16 and 32 bit
  arithmetic as the code has it, and the pools of votes (\<^verbatim>\<open>src/vote/util.go\<close>); counting votes and
  choosing the winner of a round (\<^verbatim>\<open>src/mining/cpuminer/vote.go\<close>, \<^verbatim>\<open>src/blockchain/process.go\<close>); and collecting
  the votes of other nodes (\<^verbatim>\<open>src/netsync/manager.go\<close>).  The verification equation of ECDSA is a
  parameter.
\<close>

unbundle bit_operations_syntax

section \<open>Thresholds\<close>

definition IdealBlockNum :: int where "IdealBlockNum = 50"
definition IdealVoteNum :: int where "IdealVoteNum = 300"
definition PrevScaleNum :: nat where "PrevScaleNum = 9"

text \<open>\<^verbatim>\<open>big.Int.Quo\<close> panics on a zero divisor: the result is None then.\<close>

definition VotesVerge :: "16 word \<Rightarrow> int option" where
  "VotesVerge scale =
     (if uint scale = 0 then None else Some ((2 ^ 256 * IdealVoteNum) div uint scale))"

definition BlockVerge :: "16 word \<Rightarrow> int option" where
  "BlockVerge scale = (case VotesVerge scale of None \<Rightarrow> None
     | Some verge \<Rightarrow> Some ((verge * IdealBlockNum) div IdealVoteNum))"

section \<open>The number of nodes\<close>

text \<open>
  The mean of a slice, rounded up.  The quotient is taken in floating point; both numbers are
  small enough for its ceiling to be exact.  For an empty slice the quotient is not a number and
  its conversion to an integer is not specified by the language: the result is None.
\<close>

definition total :: "16 word list \<Rightarrow> 16 word" where
  "total vs = foldl (\<lambda>totalValue value. totalValue + value) 0 vs"

definition mean :: "16 word list \<Rightarrow> 16 word option" where
  "mean vs = (if vs = [] then None
     else Some (of_nat ((unat (total vs) + length vs - 1) div length vs)))"

definition EstimateScale :: "16 word list \<Rightarrow> 16 word list \<Rightarrow> 16 word option" where
  "EstimateScale prevVoteNums prevScales =
     (case (mean prevScales, mean prevVoteNums) of
        (Some meanScale, Some meanVoteNum) \<Rightarrow>
          let meanScale = (if meanScale = 0 then 1 else meanScale);
              meanVoteNum = (if meanVoteNum = 0 then 1 else meanVoteNum) in
          Some (if uint meanScale \<le> IdealVoteNum then meanVoteNum
                else ucast (((ucast meanScale :: 32 word) * ucast meanVoteNum) div of_int IdealVoteNum))
      | _ \<Rightarrow> None)"

section \<open>Ticket pools\<close>

record SignAndKey =
  sk_Signature :: bytes
  sk_PublicKey :: bytes

type_synonym pool = "bytes \<rightharpoonup> SignAndKey list"

record pools =
  ticketPool :: pool
  prevTicketPool :: pool

definition SetTicketPool :: "pool \<Rightarrow> pools \<Rightarrow> pools" where
  "SetTicketPool p s = s\<lparr>ticketPool := p\<rparr>"

definition SetPrevTicketPool :: "pool \<Rightarrow> pools \<Rightarrow> pools" where
  "SetPrevTicketPool p s = s\<lparr>ticketPool := p\<rparr>"

definition UpdateTicketPool :: "bytes \<Rightarrow> SignAndKey \<Rightarrow> pools \<Rightarrow> pools" where
  "UpdateTicketPool hash signAndKey s =
     (let pool = ticketPool s;
          pool = pool(hash \<mapsto> (case pool hash of Some l \<Rightarrow> l | None \<Rightarrow> []) @ [signAndKey])
      in SetTicketPool pool s)"

section \<open>Properties of the thresholds\<close>

lemma uint_pos_iff: "0 < uint (w :: 16 word) \<longleftrightarrow> uint w \<noteq> 0"
  using uint_nonnegative [of w] by linarith

lemma div_times_div:
  fixes M s :: int
  shows "((M * 300) div s * 50) div 300 = (M * 50) div s"
proof -
  have "((M * 300) div s * 50) div 300 = ((M * 300) div s) div 6"
    using div_mult_mult2 [of 50 "(M * 300) div s" 6] by simp
  also have "\<dots> = (M * 300) div (s * 6)"
    by (rule zdiv_zmult2_eq [symmetric]) simp
  also have "\<dots> = (M * 50) div s"
    using div_mult_mult2 [of 6 "M * 50" s] by simp
  finally show ?thesis .
qed

lemma VotesVerge_Some: "VotesVerge scale = Some v \<longleftrightarrow> 0 < uint scale \<and> v = (2 ^ 256 * 300) div uint scale"
  unfolding VotesVerge_def IdealVoteNum_def uint_pos_iff by (cases "uint scale = 0") (simp_all del: power_numeral, blast)

lemma BlockVerge_Some: "BlockVerge scale = Some v \<longleftrightarrow> 0 < uint scale \<and> v = (2 ^ 256 * 50) div uint scale"
proof (cases "uint scale = 0")
  case True
  then show ?thesis by (simp add: BlockVerge_def VotesVerge_def)
next
  case False
  then have "BlockVerge scale = Some (((2 ^ 256 * 300) div uint scale * 50) div 300)"
    unfolding BlockVerge_def VotesVerge_def IdealVoteNum_def IdealBlockNum_def by (simp only: if_False option.case)
  then show ?thesis unfolding div_times_div uint_pos_iff using False by (simp only: option.inject) blast
qed

lemma verge_all:
  fixes M s n :: int
  assumes "0 < s" "0 < M"
  shows "M \<le> (M * n) div s \<longleftrightarrow> s \<le> n"
proof -
  have "M \<le> (M * n) div s \<longleftrightarrow> M * s \<le> M * n"
  proof
    assume "M \<le> (M * n) div s"
    then have "M * s \<le> (M * n) div s * s" using assms by (intro mult_right_mono) simp_all
    also have "\<dots> \<le> M * n" using assms div_mult_mod_eq [of "M * n" s] pos_mod_sign [of s "M * n"] by linarith
    finally show "M * s \<le> M * n" .
  next
    assume "M * s \<le> M * n"
    then have "(M * s) div s \<le> (M * n) div s" using assms by (intro zdiv_mono1)
    then show "M \<le> (M * n) div s" using assms by simp
  qed
  then show ?thesis using assms by simp
qed

lemma verge_share:
  fixes m s :: int
  assumes "0 < s"
  shows "(m div s) * s \<le> m" "m < (m div s + 1) * s"
proof -
  have e: "m div s * s + m mod s = m" by (rule div_mult_mod_eq)
  have r: "0 \<le> m mod s" "m mod s < s" using assms by simp_all
  show "(m div s) * s \<le> m" using e r(1) by linarith
  show "m < (m div s + 1) * s" unfolding distrib_right using e r(2) by linarith
qed

text \<open>
  For every number of nodes but zero both thresholds exist.  The share of the hash space
  below them is that of 300 voters and 50 proposers among that many nodes, rounded down by less than
  one part; a proposer may always vote; and all weights are below the threshold exactly when there
  are at most 300, or 50, nodes.
\<close>

theorem vote_thresholds:
  assumes "scale \<noteq> 0"
  shows "\<exists>v b. VotesVerge scale = Some v \<and> BlockVerge scale = Some b \<and> b \<le> v \<and>
    v * uint scale \<le> 2 ^ 256 * 300 \<and> 2 ^ 256 * 300 < (v + 1) * uint scale \<and>
    b * uint scale \<le> 2 ^ 256 * 50 \<and> 2 ^ 256 * 50 < (b + 1) * uint scale \<and>
    (2 ^ 256 \<le> v \<longleftrightarrow> scale \<le> 300) \<and> (2 ^ 256 \<le> b \<longleftrightarrow> scale \<le> 50)"
proof -
  define s where "s = uint scale"
  define v b where "v = (2 ^ 256 * 300) div s" and "b = (2 ^ 256 * 50) div s"
  have s: "0 < s" using assms unfolding s_def uint_pos_iff by (simp add: uint_0_iff)
  have "VotesVerge scale = Some v" "BlockVerge scale = Some b"
    unfolding VotesVerge_Some BlockVerge_Some v_def b_def s_def [symmetric] using s by simp_all
  moreover have "b \<le> v" unfolding b_def v_def using s by (intro zdiv_mono1) simp_all
  moreover have "v * s \<le> 2 ^ 256 * 300" "2 ^ 256 * 300 < (v + 1) * s" unfolding v_def using verge_share [OF s] by blast+
  moreover have "b * s \<le> 2 ^ 256 * 50" "2 ^ 256 * 50 < (b + 1) * s" unfolding b_def using verge_share [OF s] by blast+
  moreover have "2 ^ 256 \<le> v \<longleftrightarrow> scale \<le> 300" "2 ^ 256 \<le> b \<longleftrightarrow> scale \<le> 50"
    using verge_all [OF s, of "2 ^ 256" 300] verge_all [OF s, of "2 ^ 256" 50]
    unfolding v_def [symmetric] b_def [symmetric] by (simp_all add: word_le_def s_def)
  ultimately show ?thesis unfolding s_def by blast
qed

theorem vote_thresholds_witness:
  "\<exists>v b. VotesVerge 600 = Some v \<and> BlockVerge 600 = Some b \<and> b \<le> v \<and>
    v * 600 \<le> 2 ^ 256 * 300 \<and> 2 ^ 256 * 300 < (v + 1) * 600 \<and>
    b * 600 \<le> 2 ^ 256 * 50 \<and> 2 ^ 256 * 50 < (b + 1) * 600 \<and> \<not> 2 ^ 256 \<le> v \<and> \<not> 2 ^ 256 \<le> b"
proof -
  have "(600 :: 16 word) \<noteq> 0" "uint (600 :: 16 word) = 600" "\<not> (600 :: 16 word) \<le> 300" "\<not> (600 :: 16 word) \<le> 50"
    by simp_all
  then show ?thesis using vote_thresholds [of 600] by metis
qed

section \<open>Properties of the estimate\<close>

definition ceil_mean :: "16 word list \<Rightarrow> nat" where
  "ceil_mean vs = (sum_list (map unat vs) + length vs - 1) div length vs"

definition exact_estimate :: "16 word list \<Rightarrow> 16 word list \<Rightarrow> nat" where
  "exact_estimate votes scales =
     (let s = max 1 (ceil_mean scales); v = max 1 (ceil_mean votes) in if s \<le> 300 then v else s * v div 300)"

lemma total_exact: "sum_list (map unat vs) < 2 ^ 16 \<Longrightarrow> unat (total vs) = sum_list (map unat vs)"
proof -
  have "total vs = of_nat (sum_list (map unat vs))"
  proof -
    have "foldl (\<lambda>t v. t + v) a vs = a + of_nat (sum_list (map unat vs))" for a :: "16 word"
      by (induction vs arbitrary: a) (simp_all add: add.assoc)
    then show ?thesis by (simp add: total_def)
  qed
  then show "sum_list (map unat vs) < 2 ^ 16 \<Longrightarrow> unat (total vs) = sum_list (map unat vs)"
    by (simp add: unat_of_nat)
qed

lemma ceil_mean_le: "vs \<noteq> [] \<Longrightarrow> ceil_mean vs \<le> max 1 (sum_list (map unat vs))"
proof -
  have "(s + n - 1) div n \<le> max 1 s" if "0 < n" for s n :: nat
  proof (cases "s = 0")
    case False
    have "s + n - 1 < n + s * n" using that False by (cases n) simp_all
    then have "(s + n - 1) div n < s + 1"
      using that by (subst div_less_iff_less_mult) (simp_all add: algebra_simps)
    then show ?thesis by simp
  qed (use that in simp)
  then show "vs \<noteq> [] \<Longrightarrow> ceil_mean vs \<le> max 1 (sum_list (map unat vs))" by (simp add: ceil_mean_def)
qed

lemma unat_nonzero: "unat (if w = 0 then 1 else w :: 16 word) = max 1 (unat w)"
  using unat_gt_0 [of w] by (cases "w = 0") (simp_all add: max_def)

lemma mean_exact:
  assumes "vs \<noteq> []" "sum_list (map unat vs) < 2 ^ 16"
  shows "\<exists>m. mean vs = Some m \<and> unat m = ceil_mean vs"
proof -
  have "ceil_mean vs < 2 ^ 16" using ceil_mean_le [OF assms(1)] assms(2) by simp
  then show ?thesis using assms total_exact [OF assms(2)] by (simp add: mean_def ceil_mean_def unat_of_nat)
qed

text \<open>
  As long as the sums and the estimate itself fit in 16 bits, the estimate is the exact
  one over the integers, and it is never zero, so that the thresholds computed from it exist.
\<close>

theorem estimate_scale_exact:
  assumes "votes \<noteq> []" "scales \<noteq> []" "sum_list (map unat votes) < 2 ^ 16" "sum_list (map unat scales) < 2 ^ 16"
    and "exact_estimate votes scales < 2 ^ 16"
  shows "\<exists>s. EstimateScale votes scales = Some s \<and> unat s = exact_estimate votes scales \<and> s \<noteq> 0 \<and>
    (\<exists>b. BlockVerge s = Some b)"
proof -
  obtain v where v: "mean votes = Some v" "unat v = ceil_mean votes" using mean_exact assms(1,3) by blast
  obtain m where m: "mean scales = Some m" "unat m = ceil_mean scales" using mean_exact assms(2,4) by blast
  define m' v' where "m' = (if m = 0 then 1 else m)" and "v' = (if v = 0 then 1 else v)"
  have u: "unat m' = max 1 (ceil_mean scales)" "unat v' = max 1 (ceil_mean votes)"
    unfolding m(2) [symmetric] v(2) [symmetric] m'_def v'_def by (rule unat_nonzero)+
  have le: "uint m' \<le> IdealVoteNum \<longleftrightarrow> unat m' \<le> 300" unfolding IdealVoteNum_def uint_nat by linarith
  define s where "s = (if unat m' \<le> 300 then v' else ucast (((ucast m' :: 32 word) * ucast v') div 300))"
  have es: "EstimateScale votes scales = Some s"
    unfolding EstimateScale_def v(1) m(1) s_def le [symmetric] by (simp add: m'_def v'_def Let_def IdealVoteNum_def)
  have s: "unat s = exact_estimate votes scales"
  proof (cases "unat m' \<le> 300")
    case True
    then show ?thesis using u by (simp add: s_def exact_estimate_def Let_def)
  next
    case False
    have lt: "unat m' * unat v' < 2 ^ 32"
      using mult_strict_mono [OF unsigned_less [of m'] unsigned_less [of v']] by simp
    have w: "unat (ucast x :: 32 word) = unat x" for x :: "16 word"
      by (rule unat_ucast_wide) simp
    have "unat (((ucast m' :: 32 word) * ucast v') div 300) = unat m' * unat v' div 300"
      using lt w by (simp add: unat_div unat_word_ariths)
    then show ?thesis using False u assms(5) by (simp add: s_def exact_estimate_def Let_def unsigned_ucast_eq take_bit_nat_eq_self)
  qed
  have "1 \<le> exact_estimate votes scales"
  proof (cases "max 1 (ceil_mean scales) \<le> 300")
    case True
    then show ?thesis by (simp add: exact_estimate_def Let_def)
  next
    case False
    have "300 * 1 \<le> max 1 (ceil_mean scales) * max 1 (ceil_mean votes)" using False by (intro mult_le_mono) simp_all
    then have "1 \<le> max 1 (ceil_mean scales) * max 1 (ceil_mean votes) div 300" by linarith
    then show ?thesis using False by (simp add: exact_estimate_def Let_def)
  qed
  then have "s \<noteq> 0" using s by auto
  then have "\<exists>b. BlockVerge s = Some b" unfolding BlockVerge_Some uint_pos_iff by (simp add: uint_0_iff)
  with es s \<open>s \<noteq> 0\<close> show ?thesis by blast
qed

theorem estimate_scale_exact_witness:
  "\<exists>s. EstimateScale [310, 290] [1000, 1200] = Some s \<and> unat s = 1100 \<and> s \<noteq> 0 \<and> (\<exists>b. BlockVerge s = Some b)"
proof -
  have e: "exact_estimate [310, 290] [1000, 1200] = 1100" by (simp add: exact_estimate_def ceil_mean_def Let_def flip: numeral_2_eq_2)
  show ?thesis using estimate_scale_exact [of "[310, 290]" "[1000, 1200]"] unfolding e by simp
qed

text \<open>
  Without these bounds the sums and the product wrap: ten blocks of 7000 nodes are estimated as
  447 nodes, and an estimate of 65536 is taken for zero, for which the thresholds are a division
  by zero.
\<close>

lemma mean_wraps: "mean [7000, 7000, 7000, 7000, 7000, 7000, 7000, 7000, 7000, 7000] = Some 447"
  by (simp add: mean_def total_def)

lemma estimate_wraps: "EstimateScale [4800, 4800, 4800, 4800, 4800, 4800, 4800, 4800, 4800, 4800] [4096, 4096, 4096, 4096, 4096, 4096, 4096, 4096, 4096, 4096] = Some 0" "BlockVerge 0 = None"
  by (simp_all add: EstimateScale_def mean_def total_def IdealVoteNum_def BlockVerge_def VotesVerge_def)

section \<open>Properties of the ticket pools\<close>

text \<open>
  A recorded vote is appended to the votes of its block; and setting the previous pool replaces the
  current one.
\<close>

lemma UpdateTicketPool_votes:
  "ticketPool (UpdateTicketPool hash sk s) hash = Some ((case ticketPool s hash of Some l \<Rightarrow> l | None \<Rightarrow> []) @ [sk])"
  "h \<noteq> hash \<Longrightarrow> ticketPool (UpdateTicketPool hash sk s) h = ticketPool s h"
  "prevTicketPool (UpdateTicketPool hash sk s) = prevTicketPool s"
  by (simp_all add: UpdateTicketPool_def SetTicketPool_def Let_def)

lemma SetPrevTicketPool_replaces_current:
  "ticketPool (SetPrevTicketPool p s) = p" "prevTicketPool (SetPrevTicketPool p s) = prevTicketPool s"
  by (simp_all add: SetPrevTicketPool_def)

section \<open>Candidates and their weights\<close>

type_synonym candidatePool = "bytes \<rightharpoonup> MsgCandidate"

definition weightOf :: "bytes \<Rightarrow> int" where "weightOf signature = SetBytes (DoubleHashB signature)"

text \<open>The pools are maps, over which the code loops in an order that Go leaves open; a list stands for the order taken.\<close>

definition GetMinWeightBlock :: "MsgCandidate list \<Rightarrow> MsgCandidate option \<times> int" where
  "GetMinWeightBlock pool =
     foldl (\<lambda>(minCandidate, least) v.
        let weight = weightOf (hSignature (Header v)) in
        if weight < least then (Some v, weight) else (minCandidate, least)) (None, 2 ^ 256) pool"

definition GetBestPointBlockH :: "(bytes \<times> MsgCandidate list) list \<Rightarrow> bytes" where
  "GetBestPointBlockH pool =
     fst (foldl (\<lambda>(bestHash, best) (k, v). if length v > best then (k, length v) else (bestHash, best))
       (replicate HashSize 0, 0) pool)"

section \<open>Counting votes\<close>

definition votesFor :: "pools \<Rightarrow> bytes \<Rightarrow> SignAndKey list" where
  "votesFor s hash = (case ticketPool s hash of Some l \<Rightarrow> l | None \<Rightarrow> [])"

definition GetVotes :: "bytes \<Rightarrow> pools \<Rightarrow> 16 word" where
  "GetVotes hash s = of_nat (length (votesFor s hash))"

text \<open>On a tie the code reads the headers of both candidates, which panics for a block that is not a candidate.\<close>

definition maxVotesStep :: "candidatePool \<Rightarrow> bytes \<times> nat \<Rightarrow> bytes \<times> SignAndKey list \<Rightarrow> (bytes \<times> nat) option" where
  "maxVotesStep cands = (\<lambda>(maxBlockHash, maxVotes) (headerHash, signAndKeys).
     let count = length signAndKeys in
     if count > maxVotes then Some (headerHash, count)
     else if count = maxVotes then
       (case (cands headerHash, cands maxBlockHash) of
          (Some msgCandidate, Some maxCandidate) \<Rightarrow>
            Some (if weightOf (hSignature (Header msgCandidate)) < weightOf (hSignature (Header maxCandidate))
                  then headerHash else maxBlockHash, maxVotes)
        | _ \<Rightarrow> None)
     else Some (maxBlockHash, maxVotes))"

fun maxVotesLoop :: "candidatePool \<Rightarrow> (bytes \<times> SignAndKey list) list \<Rightarrow> bytes \<times> nat \<Rightarrow> (bytes \<times> nat) option" where
  "maxVotesLoop cands [] best = Some best"
| "maxVotesLoop cands (x # pool) best =
     (case maxVotesStep cands best x of None \<Rightarrow> None | Some best \<Rightarrow> maxVotesLoop cands pool best)"

definition GetMaxVotes :: "candidatePool \<Rightarrow> (bytes \<times> SignAndKey list) list \<Rightarrow> (bytes \<times> 16 word) option" where
  "GetMaxVotes cands pool =
     map_option (\<lambda>(h, n). (h, of_nat n)) (maxVotesLoop cands pool (replicate HashSize 0, 0))"

definition AdvantageVoteNum :: "16 word" where "AdvantageVoteNum = 100"

definition isAdvantage :: "16 word \<Rightarrow> bytes \<Rightarrow> pools \<Rightarrow> bool" where
  "isAdvantage maxVotes headerHash s = (\<not> maxVotes - GetVotes headerHash s \<ge> AdvantageVoteNum)"

text \<open>
  Enough votes: two thirds, one vote less among at most ten nodes.  The code compares in floating
  point; as the numbers are small, the comparison is the one of the exact values.
\<close>

definition IsEnough :: "16 word \<Rightarrow> 16 word \<Rightarrow> bool" where
  "IsEnough voteNum scale =
     (if uint scale \<le> IdealVoteNum then
        (uint scale \<le> 10 \<and> 3 * uint voteNum \<ge> 2 * uint scale - 3) \<or> 3 * uint voteNum \<ge> 2 * uint scale
      else 3 * uint voteNum \<ge> 2 * IdealVoteNum)"

section \<open>Collecting votes\<close>

definition preventRepeatSign :: "bytes \<Rightarrow> bytes \<Rightarrow> pools \<Rightarrow> bool" where
  "preventRepeatSign blockHeaderHash publicKey s =
     (\<not> list_ex (\<lambda>signAndKey. publicKey = sk_PublicKey signAndKey) (votesFor s blockHeaderHash))"

text \<open>
  The result tells whether the vote is passed on.  A public key that does not parse is logged and
  then used as a nil pointer; the threshold of a candidate with scale zero is a division by zero.
\<close>

definition CollectVotes :: "crypto \<Rightarrow> MsgSign \<Rightarrow> MsgCandidate \<Rightarrow> bytes option \<Rightarrow> pools \<Rightarrow> (script_err + bool) \<times> pools" where
  "CollectVotes C sign candidate lastCandidate s =
     (if preventRepeatSign (BlockHeaderHash sign) (sPublicKey sign) s then
        (case GetSignature (sSignature sign) of
           Inl err \<Rightarrow> (Inl err, s)
         | Inr signature \<Rightarrow>
             (case ParsePubKey (sPublicKey sign) of
                Inl _ \<Rightarrow> (Inl GoPanic, s)
              | Inr pubKey \<Rightarrow>
                  if Signature_Verify C (BlockHeaderHash sign) signature pubKey then
                    (case VotesVerge (Scale (Header candidate)) of
                       None \<Rightarrow> (Inl GoPanic, s)
                     | Some voteVerge \<Rightarrow>
                         if weightOf (sSignature sign) \<le> voteVerge then
                           (Inr (lastCandidate = Some (PrevBlock (Header candidate))),
                            UpdateTicketPool (BlockHeaderHash sign)
                              \<lparr>sk_Signature = sSignature sign, sk_PublicKey = sPublicKey sign\<rparr> s)
                         else (Inr False, s))
                  else (Inr False, s)))
      else (Inr False, s))"

definition handleSignMsg :: "crypto \<Rightarrow> candidatePool \<Rightarrow> bytes option \<Rightarrow> MsgSign \<Rightarrow> pools \<Rightarrow> (script_err + bool) \<times> pools" where
  "handleSignMsg C cands lastCandidate sign s =
     (case cands (BlockHeaderHash sign) of
        Some headerBlock \<Rightarrow> CollectVotes C sign headerBlock lastCandidate s
      | None \<Rightarrow> (Inr False, s))"

section \<open>Every vote counts once\<close>

definition valid_vote :: "crypto \<Rightarrow> MsgCandidate \<Rightarrow> bytes \<Rightarrow> SignAndKey \<Rightarrow> bool" where
  "valid_vote C cand h sk = (\<exists>key sig v. ParsePubKey (sk_PublicKey sk) = Inr key \<and> GetSignature (sk_Signature sk) = Inr sig \<and>
     Signature_Verify C h sig key \<and> VotesVerge (Scale (Header cand)) = Some v \<and> weightOf (sk_Signature sk) \<le> v)"

definition tickets_ok :: "crypto \<Rightarrow> candidatePool \<Rightarrow> pools \<Rightarrow> bool" where
  "tickets_ok C cands s = (\<forall>h sks. ticketPool s h = Some sks \<longrightarrow>
     (\<exists>cand. cands h = Some cand \<and> list_all (valid_vote C cand h) sks) \<and> distinct (map sk_PublicKey sks))"

text \<open>The states of a voting_round: candidates arrive and messages with votes are handled.\<close>

inductive voting_round :: "crypto \<Rightarrow> candidatePool \<Rightarrow> pools \<Rightarrow> bool" for C where
  start: "ticketPool s = Map.empty \<Longrightarrow> voting_round C cands s"
| candidate: "voting_round C cands s \<Longrightarrow> cands h = None \<Longrightarrow> voting_round C (cands(h \<mapsto> cand)) s"
| sign: "voting_round C cands s \<Longrightarrow> handleSignMsg C cands lastCandidate sign s = (r, s') \<Longrightarrow> voting_round C cands s'"

lemma tickets_votesFor:
  assumes "tickets_ok C cands s" "cands h = Some cand"
  shows "list_all (valid_vote C cand h) (votesFor s h)" "distinct (map sk_PublicKey (votesFor s h))"
proof -
  have "list_all (valid_vote C cand h) (votesFor s h) \<and> distinct (map sk_PublicKey (votesFor s h))"
  proof (cases "ticketPool s h")
    case (Some sks)
    then have "(\<exists>cand. cands h = Some cand \<and> list_all (valid_vote C cand h) sks) \<and> distinct (map sk_PublicKey sks)"
      using assms(1) by (simp add: tickets_ok_def)
    then show ?thesis using Some assms(2) by (simp add: votesFor_def)
  qed (simp add: votesFor_def)
  then show "list_all (valid_vote C cand h) (votesFor s h)" "distinct (map sk_PublicKey (votesFor s h))" by simp_all
qed

lemma tickets_candidate: "tickets_ok C cands s \<Longrightarrow> cands h = None \<Longrightarrow> ticketPool s h = None"
  unfolding tickets_ok_def by (metis option.distinct(1) option.exhaust)

lemma CollectVotes_cases:
  assumes "CollectVotes C sign cand lastCandidate s = (r, s')"
  shows "s' = s \<or> preventRepeatSign (BlockHeaderHash sign) (sPublicKey sign) s \<and>
    s' = UpdateTicketPool (BlockHeaderHash sign) \<lparr>sk_Signature = sSignature sign, sk_PublicKey = sPublicKey sign\<rparr> s \<and>
    valid_vote C cand (BlockHeaderHash sign) \<lparr>sk_Signature = sSignature sign, sk_PublicKey = sPublicKey sign\<rparr>"
  using assms by (auto simp: CollectVotes_def valid_vote_def split: if_splits sum.splits option.splits)

lemma CollectVotes_ok:
  assumes "tickets_ok C cands s" "cands (BlockHeaderHash sign) = Some cand" "CollectVotes C sign cand lastCandidate s = (r, s')"
  shows "tickets_ok C cands s'"
proof (cases "s' = s")
  case False
  define h where "h = BlockHeaderHash sign"
  define sk where "sk = \<lparr>sk_Signature = sSignature sign, sk_PublicKey = sPublicKey sign\<rparr>"
  have c: "preventRepeatSign h (sPublicKey sign) s" "s' = UpdateTicketPool h sk s" "valid_vote C cand h sk"
    using CollectVotes_cases [OF assms(3)] False by (simp_all add: h_def sk_def)
  have n: "ticketPool s' = (ticketPool s)(h \<mapsto> votesFor s h @ [sk])"
    by (simp add: c(2) UpdateTicketPool_def SetTicketPool_def votesFor_def Let_def)
  have old: "list_all (valid_vote C cand h) (votesFor s h)" "distinct (map sk_PublicKey (votesFor s h))"
    by (rule tickets_votesFor [OF assms(1), of h cand], use assms(2) in \<open>simp add: h_def\<close>)+
  have "sk_PublicKey sk \<notin> sk_PublicKey ` set (votesFor s h)"
    using c(1) by (auto simp: preventRepeatSign_def list_ex_iff sk_def)
  then show ?thesis using assms(1,2) n old c(3) by (auto simp: tickets_ok_def h_def [symmetric])
qed (use assms in simp)

lemma voting_round_tickets_ok: "voting_round C cands s \<Longrightarrow> tickets_ok C cands s"
proof (induction rule: voting_round.induct)
  case (start s cands)
  then show ?case by (simp add: tickets_ok_def)
next
  case (candidate cands s h cand)
  then have "ticketPool s h = None" using tickets_candidate by blast
  with candidate show ?case by (auto simp: tickets_ok_def)
next
  case (sign cands s lastCandidate sign r s')
  then show ?case by (auto simp: handleSignMsg_def split: option.splits intro: CollectVotes_ok)
qed


lemma quorum_overlap:
  assumes "finite V" "S \<subseteq> V" "T \<subseteq> V" "10 < scale" "card V \<le> min 300 (unat scale)"
    and "IsEnough (of_nat (card S)) scale" "IsEnough (of_nat (card T)) scale"
  shows "card V \<le> 3 * card (S \<inter> T) \<and> S \<inter> T \<noteq> {}"
proof -
  define m where "m = min 300 (unat scale)"
  have fin: "finite S" "finite T" using assms finite_subset by blast+
  have c: "card S \<le> card V" "card T \<le> card V" using assms card_mono by blast+
  have V: "card V \<le> m" "m \<le> 300" using assms(5) by (simp_all add: m_def)
  have big: "10 < unat scale" using assms(4) by (simp add: word_less_nat_alt)
  have en: "2 * m \<le> 3 * k" if "IsEnough (of_nat k) scale" "k \<le> 300" for k
  proof -
    have k: "uint (of_nat k :: 16 word) = int k" using that(2) by (simp add: unsigned_of_nat take_bit_nat_eq_self)
    have u: "uint scale = int (unat scale)" by (rule uint_nat)
    have e: "if int (unat scale) \<le> 300
        then (int (unat scale) \<le> 10 \<and> 3 * int k \<ge> 2 * int (unat scale) - 3) \<or> 3 * int k \<ge> 2 * int (unat scale)
        else 3 * int k \<ge> 2 * 300"
      using that(1) unfolding IsEnough_def IdealVoteNum_def k u .
    have "2 * int m \<le> 3 * int k"
    proof (cases "unat scale \<le> 300")
      case True
      then have "int (unat scale) \<le> 300" "int m = int (unat scale)" unfolding m_def by linarith+
      then have "(int (unat scale) \<le> 10 \<and> 3 * int k \<ge> 2 * int (unat scale) - 3) \<or> 3 * int k \<ge> 2 * int (unat scale)"
        using e by (simp only: if_True)
      then show ?thesis using big \<open>int m = int (unat scale)\<close> by linarith
    next
      case False
      then have "\<not> int (unat scale) \<le> 300" "int m = 300" unfolding m_def by linarith+
      then have "3 * int k \<ge> 2 * 300" using e by (simp only: if_False)
      then show ?thesis using \<open>int m = 300\<close> by linarith
    qed
    then show ?thesis by linarith
  qed
  have S: "2 * m \<le> 3 * card S" and T: "2 * m \<le> 3 * card T" using en assms(6,7) c V by auto
  have "card S + card T = card (S \<union> T) + card (S \<inter> T)" using fin by (rule card_Un_Int)
  moreover have "card (S \<union> T) \<le> card V" using assms by (intro card_mono) auto
  ultimately have "m \<le> 3 * card (S \<inter> T)" using S T V(1) by linarith
  moreover have "0 < m" using big by (simp add: m_def)
  ultimately have "0 < card (S \<inter> T)" by linarith
  then show ?thesis using \<open>m \<le> 3 * card (S \<inter> T)\<close> V(1) by (auto simp: card_gt_0_iff)
qed

text \<open>
  Among more than ten nodes, when no more nodes vote than the estimate says and at most 300,
  any two sets of voters that are each enough have at least a third of the voters in common.
\<close>

theorem quorums_intersect:
  assumes "finite V" "S \<subseteq> V" "T \<subseteq> V" "10 < scale" "card V \<le> min 300 (unat scale)"
    and "IsEnough (of_nat (card S)) scale" "IsEnough (of_nat (card T)) scale"
  shows "card V \<le> 3 * card (S \<inter> T) \<and> S \<inter> T \<noteq> {}"
  using assms by (rule quorum_overlap)

theorem quorums_intersect_witness:
  "card {0::nat..<12} \<le> 3 * card ({0..<8} \<inter> {4::nat..<12}) \<and> {0..<8} \<inter> {4::nat..<12} \<noteq> {}"
  by (rule quorums_intersect [of _ _ _ 12]) (simp_all add: IsEnough_def IdealVoteNum_def)

text \<open>With at most ten nodes the correction by one vote lets two disjoint sets of voters both be enough.\<close>

lemma small_quorums_disjoint: "IsEnough 1 2" "IsEnough 0 1" "IsEnough 1 3"
  by (simp_all add: IsEnough_def IdealVoteNum_def)

text \<open>A vote with a public key that does not parse stops the node.\<close>

lemma collect_votes_bad_key_panics:
  assumes "cands (BlockHeaderHash sign) = Some cand" "length (sSignature sign) = 64" "ParsePubKey (sPublicKey sign) = Inl e"
    and "preventRepeatSign (BlockHeaderHash sign) (sPublicKey sign) s"
  shows "handleSignMsg C cands lastCandidate sign s = (Inl GoPanic, s)"
proof -
  obtain sig where "GetSignature (sSignature sign) = Inr sig"
    using assms(2) by (cases "GetSignature (sSignature sign)") (auto simp: GetSignature_def sliceE_def)
  then show ?thesis using assms by (simp add: handleSignMsg_def CollectVotes_def)
qed

definition anyVote :: crypto where
  "anyVote = \<lparr>ripemd160 = (\<lambda>b. replicate 20 0), ecdsaVerify = (\<lambda>k h r s. True), evictPick = (\<lambda>ks. 0)\<rparr>"

definition sampleVote :: MsgSign where
  "sampleVote = \<lparr>BlockHeaderHash = [1], sSignature = replicate 64 0, sPublicKey = SerializeUncompressed generator\<rparr>"


section \<open>The winner of a round\<close>

definition candWeight :: "candidatePool \<Rightarrow> bytes \<Rightarrow> int" where
  "candWeight cands h = (case cands h of Some cand \<Rightarrow> weightOf (hSignature (Header cand)) | None \<Rightarrow> 0)"

lemma maxVotesLoop_spec:
  assumes "list_all (\<lambda>(h, sks). sks \<noteq> [] \<and> cands h \<noteq> None) pool" "n = 0 \<or> cands b \<noteq> None"
  shows "\<exists>h m. maxVotesLoop cands pool (b, n) = Some (h, m) \<and> n \<le> m \<and>
    (m = n \<and> h = b \<or> (\<exists>sks. (h, sks) \<in> set pool \<and> length sks = m)) \<and>
    (n = m \<longrightarrow> n > 0 \<longrightarrow> candWeight cands h \<le> candWeight cands b) \<and>
    (\<forall>(k, sks) \<in> set pool. length sks \<le> m \<and> (length sks = m \<longrightarrow> candWeight cands h \<le> candWeight cands k))"
  using assms
proof (induction pool arbitrary: b n)
  case Nil
  then show ?case by simp
next
  case (Cons x pool)
  obtain k sks where x: "x = (k, sks)" by (cases x)
  have k: "0 < length sks" "cands k \<noteq> None" using Cons.prems(1) by (auto simp: x)
  define b' n' where "b' = (if length sks > n \<or> (length sks = n \<and> candWeight cands k < candWeight cands b) then k else b)"
    and "n' = max n (length sks)"
  have step: "maxVotesStep cands (b, n) x = Some (b', n')"
    using k Cons.prems(2) by (auto simp: x maxVotesStep_def b'_def n'_def candWeight_def Let_def max_def)
  have ok: "n' = 0 \<or> cands b' \<noteq> None" using k Cons.prems(2) by (auto simp: b'_def n'_def max_def)
  obtain h m where h: "maxVotesLoop cands pool (b', n') = Some (h, m)" "n' \<le> m"
      "m = n' \<and> h = b' \<or> (\<exists>sks. (h, sks) \<in> set pool \<and> length sks = m)"
      "n' = m \<longrightarrow> n' > 0 \<longrightarrow> candWeight cands h \<le> candWeight cands b'"
      "\<forall>(k, sks) \<in> set pool. length sks \<le> m \<and> (length sks = m \<longrightarrow> candWeight cands h \<le> candWeight cands k)"
    using Cons.IH [OF _ ok] Cons.prems(1) by auto
  have le: "n \<le> m" "length sks \<le> m" using h(2) by (simp_all add: n'_def)
  show ?case
  proof (intro exI [of _ h] exI [of _ m] conjI)
    show "maxVotesLoop cands (x # pool) (b, n) = Some (h, m)" using step h(1) by simp
    show "n \<le> m" by (rule le(1))
    show "m = n \<and> h = b \<or> (\<exists>l. (h, l) \<in> set (x # pool) \<and> length l = m)"
      using h(3) by (auto simp: x b'_def n'_def max_def split: if_splits)
    show "n = m \<longrightarrow> n > 0 \<longrightarrow> candWeight cands h \<le> candWeight cands b"
      using h(4) le(2) by (auto simp: b'_def n'_def max_def split: if_splits)
    have "length sks = m \<longrightarrow> candWeight cands h \<le> candWeight cands k"
      using h(4) le k(1) by (auto simp: b'_def n'_def max_def split: if_splits)
    then show "\<forall>(k, sks) \<in> set (x # pool). length sks \<le> m \<and> (length sks = m \<longrightarrow> candWeight cands h \<le> candWeight cands k)"
      using h(5) le(2) by (auto simp: x)
  qed
qed

lemma GetMaxVotes_winner:
  assumes "pool \<noteq> []" "list_all (\<lambda>(h, sks). sks \<noteq> [] \<and> cands h \<noteq> None) pool"
  shows "\<exists>h sks. GetMaxVotes cands pool = Some (h, of_nat (length sks)) \<and> (h, sks) \<in> set pool \<and>
    list_all (\<lambda>(k, l). length l \<le> length sks \<and> (length l = length sks \<longrightarrow> candWeight cands h \<le> candWeight cands k)) pool"
proof -
  obtain h m where h: "maxVotesLoop cands pool (replicate HashSize 0, 0) = Some (h, m)"
      "m = 0 \<and> h = replicate HashSize 0 \<or> (\<exists>sks. (h, sks) \<in> set pool \<and> length sks = m)"
      "\<forall>(k, sks) \<in> set pool. length sks \<le> m \<and> (length sks = m \<longrightarrow> candWeight cands h \<le> candWeight cands k)"
    using maxVotesLoop_spec [OF assms(2), of 0 "replicate HashSize 0"] by blast
  obtain k l where kl: "(k, l) \<in> set pool" using assms(1) by (cases pool) auto
  then have "l \<noteq> []" using assms(2) by (auto simp: list_all_iff)
  moreover have "length l \<le> m" using h(3) kl by auto
  ultimately have "m \<noteq> 0" by (cases l) auto
  then obtain sks where "(h, sks) \<in> set pool" "length sks = m" using h(2) by blast
  then show ?thesis using h(1,3) by (auto simp: GetMaxVotes_def list_all_iff)
qed

text \<open>
  C22: When every block with votes is a candidate, the winner of a round has the most votes and,
  among the blocks with as many votes, the smallest weight, whatever the order of the loop over the pool.
\<close>

theorem winner_of_round:
  assumes "pool \<noteq> []" "list_all (\<lambda>(h, sks). sks \<noteq> [] \<and> cands h \<noteq> None) pool"
  shows "\<exists>h sks. GetMaxVotes cands pool = Some (h, of_nat (length sks)) \<and> (h, sks) \<in> set pool \<and>
    list_all (\<lambda>(k, l). length l \<le> length sks \<and> (length l = length sks \<longrightarrow> candWeight cands h \<le> candWeight cands k)) pool"
  using assms by (rule GetMaxVotes_winner)

theorem winner_of_round_witness:
  "GetMaxVotes [[1] \<mapsto> sample_candidate] [([1], [\<lparr>sk_Signature = [], sk_PublicKey = []\<rparr>])] = Some ([1], 1)"
  using winner_of_round [of "[([1], [\<lparr>sk_Signature = [], sk_PublicKey = []\<rparr>])]" "[[1] \<mapsto> sample_candidate]"] by auto

end
