(* ===== verification/Chain_Validate.thy ===== *)
theory Chain_Validate
  imports "HOL-Library.Signed_Division" Script_Safety Script_Builder Chain_Index Chain_Merkle Vote
begin

text \<open>
  The rules of \<open>blockchain/validate.go\<close> and \<open>blockchain/weight.go\<close>: sanity of a transaction, its
  inputs against a view of the coins, counting of signature operations, weights, the subsidy, the
  height in a coinbase (read here, written by \<open>mining/mining.go\<close>), and the checks of headers, blocks
  and candidates with and without their position in the chain.  The lemmas reduce each check to the
  condition it stands for, over unbounded integers.
\<close>

unbundle bit_operations_syntax

section \<open>Constants and parameters\<close>

definition MaxBlockWeight :: nat where "MaxBlockWeight = 4000000"
definition MaxBlockBaseSize :: nat where "MaxBlockBaseSize = 1000000"
definition MaxBlockSigOpsCost :: int where "MaxBlockSigOpsCost = 80000"
definition WitnessScaleFactor :: nat where "WitnessScaleFactor = 4"
definition MinCoinbaseScriptLen :: nat where "MinCoinbaseScriptLen = 2"
definition MaxCoinbaseScriptLen :: nat where "MaxCoinbaseScriptLen = 100"
definition SatoshiPerBitcoin :: int where "SatoshiPerBitcoin = 100000000"
definition MaxSatoshi :: int where "MaxSatoshi = 21000000 * SatoshiPerBitcoin"
definition baseSubsidy :: int where "baseSubsidy = 50 * SatoshiPerBitcoin"

record Params =
  GenesisHash :: bytes
  BIP0034Height :: "32 word"
  BIP0065Height :: "32 word"
  BIP0066Height :: "32 word"
  CoinbaseMaturity :: "16 word"
  SubsidyReductionInterval :: "32 word"

section \<open>Context-free rules for transactions\<close>

definition isNullOutpoint :: "OutPoint \<Rightarrow> bool" where
  "isNullOutpoint outpoint = (Index outpoint = 0xffffffff \<and> Hash outpoint = nullHash)"

fun sumOutputs :: "TxOut list \<Rightarrow> 64 word \<Rightarrow> chain_err + 64 word" where
  "sumOutputs [] totalSatoshi = Inr totalSatoshi"
| "sumOutputs (txOut # outs) totalSatoshi =
     (let satoshi = Value txOut in
      if sint satoshi < 0 then Inl (ruleError ErrBadTxOutValue)
      else if sint satoshi > MaxSatoshi then Inl (ruleError ErrBadTxOutValue)
      else
        let totalSatoshi = totalSatoshi + satoshi in
        if sint totalSatoshi < 0 then Inl (ruleError ErrBadTxOutValue)
        else if sint totalSatoshi > MaxSatoshi then Inl (ruleError ErrBadTxOutValue)
        else sumOutputs outs totalSatoshi)"

fun checkDuplicateInputs :: "TxIn list \<Rightarrow> OutPoint set \<Rightarrow> chain_err + unit" where
  "checkDuplicateInputs [] existingTxOut = Inr ()"
| "checkDuplicateInputs (txIn # ins) existingTxOut =
     (if PreviousOutPoint txIn \<in> existingTxOut then Inl (ruleError ErrDuplicateTxInputs)
      else checkDuplicateInputs ins (insert (PreviousOutPoint txIn) existingTxOut))"

definition CheckTransactionSanity :: "MsgTx \<Rightarrow> chain_err + unit" where
  "CheckTransactionSanity msgTx =
     (if length (TxIns msgTx) = 0 then Inl (ruleError ErrNoTxInputs)
      else if length (TxOuts msgTx) = 0 then Inl (ruleError ErrNoTxOutputs)
      else if MsgTx_SerializeSizeStripped msgTx > MaxBlockBaseSize then Inl (ruleError ErrTxTooBig)
      else bindE (sumOutputs (TxOuts msgTx) 0) (\<lambda>_.
           bindE (checkDuplicateInputs (TxIns msgTx) {}) (\<lambda>_.
             if IsCoinBaseTx msgTx then
               (let slen = length (SignatureScript (TxIns msgTx ! 0)) in
                if slen < MinCoinbaseScriptLen \<or> slen > MaxCoinbaseScriptLen then Inl (ruleError ErrBadCoinbaseScriptLen)
                else Inr ())
             else if list_ex (\<lambda>txIn. isNullOutpoint (PreviousOutPoint txIn)) (TxIns msgTx)
             then Inl (ruleError ErrBadTxInput) else Inr ())))"

definition IsFinalizedTransaction :: "MsgTx \<Rightarrow> 32 word \<Rightarrow> int \<Rightarrow> bool" where
  "IsFinalizedTransaction msgTx blockHeight blockTime =
     (let lockTime = LockTime msgTx in
      if lockTime = 0 then True
      else
        let blockTimeOrHeight = (if uint lockTime < LockTimeThreshold then sint blockHeight else blockTime) in
        if uint lockTime < blockTimeOrHeight then True
        else list_all (\<lambda>txIn. Sequence txIn = 0xffffffff) (TxIns msgTx))"

section \<open>The subsidy\<close>

text \<open>
  A division of 32-bit integers rounds towards zero; a shift by a negative number is a shift by a
  very large one, for which the result is zero.
\<close>

definition CalcBlockSubsidy :: "32 word \<Rightarrow> Params \<Rightarrow> int" where
  "CalcBlockSubsidy nextHeight chainParams =
     (if SubsidyReductionInterval chainParams = 0 then baseSubsidy
      else
        let n = sint nextHeight sdiv sint (SubsidyReductionInterval chainParams) in
        if n < 0 \<or> n \<ge> 64 then 0 else drop_bit (nat n) baseSubsidy)"

section \<open>Signature operations\<close>

definition CountSigOps :: "MsgTx \<Rightarrow> int" where
  "CountSigOps msgTx =
     foldl (\<lambda>total txOut. total + GetSigOpCount (PkScript txOut))
       (foldl (\<lambda>total txIn. total + GetSigOpCount (SignatureScript txIn)) 0 (TxIns msgTx)) (TxOuts msgTx)"

fun p2shLoop :: "UtxoViewpoint \<Rightarrow> TxIn list \<Rightarrow> int \<Rightarrow> chain_err + int" where
  "p2shLoop utxoView [] totalSigOps = Inr totalSigOps"
| "p2shLoop utxoView (txIn # ins) totalSigOps =
     (case LookupEntry utxoView (PreviousOutPoint txIn) of
        None \<Rightarrow> Inl (ruleError ErrMissingTxOut)
      | Some utxo \<Rightarrow>
          if IsSpent utxo then Inl (ruleError ErrMissingTxOut)
          else if \<not> IsPayToScriptHash (ue_pkScript utxo) then p2shLoop utxoView ins totalSigOps
          else
            let numSigOps = GetPreciseSigOpCount (SignatureScript txIn) (ue_pkScript utxo) True;
                lastSigOps = totalSigOps;
                totalSigOps = int64 (totalSigOps + numSigOps) in
            if totalSigOps < lastSigOps then Inl (ruleError ErrTooManySigOps)
            else p2shLoop utxoView ins totalSigOps)"

definition CountP2SHSigOps :: "MsgTx \<Rightarrow> bool \<Rightarrow> UtxoViewpoint \<Rightarrow> chain_err + int" where
  "CountP2SHSigOps msgTx isCoinBaseTx utxoView = (if isCoinBaseTx then Inr 0 else p2shLoop utxoView (TxIns msgTx) 0)"

fun witnessLoop :: "UtxoViewpoint \<Rightarrow> TxIn list \<Rightarrow> int \<Rightarrow> chain_err + int" where
  "witnessLoop utxoView [] numSigOps = Inr numSigOps"
| "witnessLoop utxoView (txIn # ins) numSigOps =
     (case LookupEntry utxoView (PreviousOutPoint txIn) of
        None \<Rightarrow> Inl (ruleError ErrMissingTxOut)
      | Some utxo \<Rightarrow>
          if IsSpent utxo then Inl (ruleError ErrMissingTxOut)
          else case GetWitnessSigOpCount (SignatureScript txIn) (ue_pkScript utxo) (Witness txIn) of
                 Inl _ \<Rightarrow> Inl ChainPanic
               | Inr n \<Rightarrow> witnessLoop utxoView ins (numSigOps + n))"

text \<open>An error of the count of pay-to-script-hash operations is dropped: the cost is then zero.\<close>

definition GetSigOpCost :: "MsgTx \<Rightarrow> bool \<Rightarrow> UtxoViewpoint \<Rightarrow> bool \<Rightarrow> bool \<Rightarrow> chain_err + int" where
  "GetSigOpCost msgTx isCoinBaseTx utxoView enforceBip16 segWit =
     (let numSigOps = CountSigOps msgTx * int WitnessScaleFactor in
      case (if enforceBip16 then CountP2SHSigOps msgTx isCoinBaseTx utxoView else Inr 0) of
        Inl _ \<Rightarrow> Inr 0
      | Inr numP2SHSigOps \<Rightarrow>
          let numSigOps = numSigOps + numP2SHSigOps * int WitnessScaleFactor in
          if segWit \<and> \<not> isCoinBaseTx then witnessLoop utxoView (TxIns msgTx) numSigOps else Inr numSigOps)"

definition GetBlockWeight :: "MsgBlock \<Rightarrow> int" where
  "GetBlockWeight blk = int (MsgBlock_SerializeSizeStripped blk * (WitnessScaleFactor - 1) + MsgBlock_SerializeSize blk)"

definition GetTransactionWeight :: "MsgTx \<Rightarrow> int" where
  "GetTransactionWeight tx = int (MsgTx_SerializeSizeStripped tx * (WitnessScaleFactor - 1) + MsgTx_SerializeSize tx)"

section \<open>The inputs of a transaction\<close>

fun sumInputs :: "32 word \<Rightarrow> UtxoViewpoint \<Rightarrow> Params \<Rightarrow> TxIn list \<Rightarrow> 64 word \<Rightarrow> chain_err + 64 word" where
  "sumInputs txHeight utxoView chainParams [] totalSatoshiIn = Inr totalSatoshiIn"
| "sumInputs txHeight utxoView chainParams (txIn # ins) totalSatoshiIn =
     (case LookupEntry utxoView (PreviousOutPoint txIn) of
        None \<Rightarrow> Inl (ruleError ErrMissingTxOut)
      | Some utxo \<Rightarrow>
          if IsSpent utxo then Inl (ruleError ErrMissingTxOut)
          else if UtxoEntry_IsCoinBase utxo \<and>
                  sint (txHeight - ue_blockHeight utxo) < uint (CoinbaseMaturity chainParams)
          then Inl (ruleError ErrImmatureSpend)
          else
            let originTxSatoshi = ue_amount utxo in
            if sint originTxSatoshi < 0 then Inl (ruleError ErrBadTxOutValue)
            else if sint originTxSatoshi > MaxSatoshi then Inl (ruleError ErrBadTxOutValue)
            else
              let lastSatoshiIn = totalSatoshiIn;
                  totalSatoshiIn = totalSatoshiIn + originTxSatoshi in
              if sint totalSatoshiIn < sint lastSatoshiIn \<or> sint totalSatoshiIn > MaxSatoshi
              then Inl (ruleError ErrBadTxOutValue)
              else sumInputs txHeight utxoView chainParams ins totalSatoshiIn)"

definition totalOut :: "MsgTx \<Rightarrow> 64 word" where
  "totalOut msgTx = foldl (\<lambda>totalSatoshiOut txOut. totalSatoshiOut + Value txOut) 0 (TxOuts msgTx)"

definition CheckTransactionInputs :: "MsgTx \<Rightarrow> 32 word \<Rightarrow> UtxoViewpoint \<Rightarrow> Params \<Rightarrow> chain_err + 64 word" where
  "CheckTransactionInputs msgTx txHeight utxoView chainParams =
     (if IsCoinBaseTx msgTx then Inr 0
      else bindE (sumInputs txHeight utxoView chainParams (TxIns msgTx) 0) (\<lambda>totalSatoshiIn.
        let totalSatoshiOut = totalOut msgTx in
        if sint totalSatoshiIn < sint totalSatoshiOut then Inl (ruleError ErrSpendTooHigh)
        else Inr (totalSatoshiIn - totalSatoshiOut)))"

section \<open>The height in the coinbase\<close>

definition ExtractCoinbaseHeight :: "MsgTx \<Rightarrow> chain_err + 32 word" where
  "ExtractCoinbaseHeight coinbaseTx =
     (case TxIns coinbaseTx of [] \<Rightarrow> Inl ChainPanic
      | txIn # _ \<Rightarrow>
          let sigScript = SignatureScript txIn in
          if length sigScript < 1 then Inl (ruleError ErrMissingCoinbaseHeight)
          else
            let opcode = sigScript ! 0 in
            if opcode = OP_0 then Inr 0
            else if opcode \<ge> OP_1 \<and> opcode \<le> OP_16 then Inr (ucast (opcode - (OP_1 - 1)))
            else
              let serializedLen = unat (sigScript ! 0) in
              if length sigScript - 1 < serializedLen then Inl (ruleError ErrMissingCoinbaseHeight)
              else Inr (of_nat (le_nat (take 8 (drop 1 (take (serializedLen + 1) sigScript))))))"

definition checkSerializedHeight :: "MsgTx \<Rightarrow> 32 word \<Rightarrow> chain_err + unit" where
  "checkSerializedHeight coinbaseTx wantHeight =
     bindE (ExtractCoinbaseHeight coinbaseTx) (\<lambda>serializedHeight.
       if serializedHeight \<noteq> wantHeight then Inl (ruleError ErrBadCoinbaseHeight) else Inr ())"

section \<open>Sums of amounts\<close>

definition outValues :: "MsgTx \<Rightarrow> int list" where "outValues tx = map (\<lambda>txOut. sint (Value txOut)) (TxOuts tx)"

lemma MaxSatoshi_eq: "MaxSatoshi = 2100000000000000"
  by (simp add: MaxSatoshi_def SatoshiPerBitcoin_def)

lemma sint_add64:
  fixes a b :: "64 word"
  assumes "0 \<le> sint a" "sint a \<le> MaxSatoshi" "0 \<le> sint b" "sint b \<le> MaxSatoshi"
  shows "sint (a + b) = sint a + sint b"
proof -
  have "sint (a + b) = signed_take_bit 63 (sint a + sint b)" by (simp add: sint_word_add)
  also have "\<dots> = sint a + sint b" using assms by (intro signed_take_bit_int_eq_self) (simp_all add: MaxSatoshi_eq)
  finally show ?thesis .
qed

lemma sum_list_nonneg_int: "(\<forall>x \<in> set xs. 0 \<le> x) \<Longrightarrow> 0 \<le> sum_list (xs :: int list)"
  by (induction xs) auto

lemma sumOutputs_iff:
  assumes "0 \<le> sint a" "sint a \<le> MaxSatoshi"
  shows "sumOutputs outs a = Inr r \<longleftrightarrow>
    (\<forall>txOut \<in> set outs. 0 \<le> sint (Value txOut)) \<and> sint a + sum_list (map (\<lambda>txOut. sint (Value txOut)) outs) \<le> MaxSatoshi \<and>
    r = foldl (\<lambda>t txOut. t + Value txOut) a outs"
  using assms
proof (induction outs arbitrary: a)
  case Nil
  then show ?case by auto
next
  case (Cons txOut outs)
  define v where "v = Value txOut"
  have nn: "\<forall>out \<in> set outs. 0 \<le> sint (Value out) \<Longrightarrow> 0 \<le> sum_list (map (\<lambda>txOut. sint (Value txOut)) outs)"
    by (rule sum_list_nonneg_int) auto
  show ?case
  proof (cases "0 \<le> sint v \<and> sint v \<le> MaxSatoshi")
    case False
    then show ?thesis using Cons.prems nn by (auto simp: v_def [symmetric] Let_def)
  next
    case True
    then have s: "sint (a + v) = sint a + sint v" using Cons.prems sint_add64 by blast
    show ?thesis
    proof (cases "sint a + sint v \<le> MaxSatoshi")
      case False
      then show ?thesis using True Cons.prems s nn by (auto simp: v_def [symmetric] Let_def)
    next
      case le: True
      have "sumOutputs (txOut # outs) a = sumOutputs outs (a + v)"
        using True le s Cons.prems by (simp add: v_def [symmetric] Let_def)
      then show ?thesis using Cons.IH [of "a + v"] True le s Cons.prems by (simp add: v_def [symmetric] algebra_simps)
    qed
  qed
qed

lemma foldl_values:
  assumes "0 \<le> sint a" "\<forall>txOut \<in> set outs. 0 \<le> sint (Value txOut)"
    and "sint a + sum_list (map (\<lambda>txOut. sint (Value txOut)) outs) \<le> MaxSatoshi"
  shows "sint (foldl (\<lambda>t txOut. t + Value txOut) a outs) = sint a + sum_list (map (\<lambda>txOut. sint (Value txOut)) outs)"
  using assms
proof (induction outs arbitrary: a)
  case Nil
  then show ?case by simp
next
  case (Cons txOut outs)
  have nn: "0 \<le> sum_list (map (\<lambda>txOut. sint (Value txOut)) outs)"
    using Cons.prems by (intro sum_list_nonneg_int) auto
  have s: "sint (a + Value txOut) = sint a + sint (Value txOut)" using Cons.prems nn by (intro sint_add64) auto
  then show ?case using Cons.IH [of "a + Value txOut"] Cons.prems by simp
qed

lemma checkDuplicateInputs_iff:
  "checkDuplicateInputs ins S = Inr () \<longleftrightarrow> distinct (map PreviousOutPoint ins) \<and> PreviousOutPoint ` set ins \<inter> S = {}"
  by (induction ins arbitrary: S) auto

lemma CheckTransactionSanity_iff:
  "CheckTransactionSanity tx = Inr () \<longleftrightarrow>
     TxIns tx \<noteq> [] \<and> TxOuts tx \<noteq> [] \<and> MsgTx_SerializeSizeStripped tx \<le> 1000000 \<and>
     (\<forall>v \<in> set (outValues tx). 0 \<le> v) \<and> sum_list (outValues tx) \<le> MaxSatoshi \<and>
     distinct (map PreviousOutPoint (TxIns tx)) \<and>
     (if IsCoinBaseTx tx then 2 \<le> length (SignatureScript (TxIns tx ! 0)) \<and> length (SignatureScript (TxIns tx ! 0)) \<le> 100
      else \<forall>txIn \<in> set (TxIns tx). \<not> isNullOutpoint (PreviousOutPoint txIn))"
proof -
  have so: "(\<exists>r. sumOutputs (TxOuts tx) 0 = Inr r) \<longleftrightarrow> (\<forall>v \<in> set (outValues tx). 0 \<le> v) \<and> sum_list (outValues tx) \<le> MaxSatoshi"
    using sumOutputs_iff [of 0 "TxOuts tx"] by (auto simp: outValues_def MaxSatoshi_eq)
  have dup: "checkDuplicateInputs (TxIns tx) {} = Inr () \<longleftrightarrow> distinct (map PreviousOutPoint (TxIns tx))"
    by (simp add: checkDuplicateInputs_iff)
  show ?thesis
  proof (cases "\<exists>r. sumOutputs (TxOuts tx) 0 = Inr r")
    case True
    then have so': "\<forall>v \<in> set (outValues tx). 0 \<le> v" "sum_list (outValues tx) \<le> MaxSatoshi" using so by blast+
    obtain r where r: "sumOutputs (TxOuts tx) 0 = Inr r" using True by blast
    show ?thesis
      unfolding CheckTransactionSanity_def dup [symmetric] r
      by (auto simp: so' bindE_Inr_iff ifE_Inr_iff Let_def MaxBlockBaseSize_def MinCoinbaseScriptLen_def MaxCoinbaseScriptLen_def list_ex_iff)
  next
    case False
    then have "CheckTransactionSanity tx \<noteq> Inr ()" by (auto simp: CheckTransactionSanity_def bindE_Inr_iff ifE_Inr_iff)
    then show ?thesis using False so by blast
  qed
qed

text \<open>
  C38: A transaction passes the context-free checks exactly when it has inputs and outputs, its
  stripped size is at most a million bytes, no output is negative and their exact sum is at most
  the maximum amount, no outpoint is spent twice, and a coinbase has a script of 2 to 100 bytes
  while the inputs of any other transaction are not null.
\<close>

theorem transaction_sanity:
  "CheckTransactionSanity tx = Inr () \<longleftrightarrow>
     TxIns tx \<noteq> [] \<and> TxOuts tx \<noteq> [] \<and> MsgTx_SerializeSizeStripped tx \<le> 1000000 \<and>
     list_all (\<lambda>v. 0 \<le> v) (outValues tx) \<and> sum_list (outValues tx) \<le> 2100000000000000 \<and>
     distinct (map PreviousOutPoint (TxIns tx)) \<and>
     (if IsCoinBaseTx tx then 2 \<le> length (SignatureScript (TxIns tx ! 0)) \<and> length (SignatureScript (TxIns tx ! 0)) \<le> 100
      else list_all (\<lambda>txIn. \<not> isNullOutpoint (PreviousOutPoint txIn)) (TxIns tx))"
  unfolding CheckTransactionSanity_iff list_all_iff MaxSatoshi_eq by (rule refl)

lemma sane_totalOut:
  assumes "CheckTransactionSanity tx = Inr ()"
  shows "sint (totalOut tx) = sum_list (outValues tx)" "0 \<le> sum_list (outValues tx)" "sum_list (outValues tx) \<le> MaxSatoshi"
proof -
  have o: "\<forall>txOut \<in> set (TxOuts tx). 0 \<le> sint (Value txOut)" "sum_list (outValues tx) \<le> MaxSatoshi"
    using assms unfolding CheckTransactionSanity_iff by (auto simp: outValues_def)
  show "sint (totalOut tx) = sum_list (outValues tx)"
    using foldl_values [of 0 "TxOuts tx"] o by (simp add: totalOut_def outValues_def)
  show "0 \<le> sum_list (outValues tx)" using o(1) by (intro sum_list_nonneg_int) (auto simp: outValues_def)
  show "sum_list (outValues tx) \<le> MaxSatoshi" by (rule o(2))
qed

section \<open>Fees\<close>

text \<open>A coin that a transaction at a given height may spend.\<close>

definition spendable :: "Params \<Rightarrow> 32 word \<Rightarrow> SpentTxOut \<Rightarrow> bool" where
  "spendable P h coin = ((st_IsCoinBase coin \<longrightarrow> uint (CoinbaseMaturity P) \<le> sint (h - st_Height coin)) \<and>
     0 \<le> sint (st_Amount coin))"

definition coinValue :: "coins \<Rightarrow> OutPoint \<Rightarrow> int" where
  "coinValue A p = (case A p of Some coin \<Rightarrow> sint (st_Amount coin) | None \<Rightarrow> 0)"

lemma coins_Some: "coins view p = Some coin \<longleftrightarrow> (\<exists>e. LookupEntry view p = Some e \<and> \<not> IsSpent e \<and> coin = stxoOf e)"
  by (auto simp: coins_def split: option.splits)

lemma sumInputs_iff:
  assumes "0 \<le> sint a" "sint a \<le> MaxSatoshi"
  shows "sumInputs h view P ins a = Inr r \<longleftrightarrow>
    (\<forall>txIn \<in> set ins. \<exists>coin. coins view (PreviousOutPoint txIn) = Some coin \<and> spendable P h coin) \<and>
    sint a + sum_list (map (\<lambda>txIn. coinValue (coins view) (PreviousOutPoint txIn)) ins) \<le> MaxSatoshi \<and>
    r = a + sum_list (map (\<lambda>txIn. word_of_int (coinValue (coins view) (PreviousOutPoint txIn))) ins)"
  using assms
proof (induction ins arbitrary: a)
  case Nil
  then show ?case by auto
next
  case (Cons txIn ins)
  define p where "p = PreviousOutPoint txIn"
  have nn: "0 \<le> sum_list (map (\<lambda>txIn. coinValue (coins view) (PreviousOutPoint txIn)) ins)"
    if "\<forall>txIn \<in> set ins. \<exists>coin. coins view (PreviousOutPoint txIn) = Some coin \<and> spendable P h coin"
    using that by (intro sum_list_nonneg_int) (auto simp: coinValue_def spendable_def)
  show ?case
  proof (cases "\<exists>coin. coins view p = Some coin \<and> spendable P h coin")
    case False
    then have "\<nexists>r. sumInputs h view P (txIn # ins) a = Inr r"
      by (auto simp: p_def [symmetric] coins_def spendable_def stxoOf_def Let_def split: option.splits if_splits)
    then show ?thesis using False by (auto simp: p_def)
  next
    case True
    then obtain e where e: "LookupEntry view p = Some e" "\<not> IsSpent e" "coins view p = Some (stxoOf e)" "spendable P h (stxoOf e)"
      by (auto simp: coins_Some)
    define v where "v = ue_amount e"
    have cv: "coinValue (coins view) p = sint v" using e by (simp add: coinValue_def stxoOf_def v_def)
    have v: "0 \<le> sint v" "\<not> (UtxoEntry_IsCoinBase e \<and> sint (h - ue_blockHeight e) < uint (CoinbaseMaturity P))"
      using e(4) by (auto simp: spendable_def stxoOf_def v_def)
    show ?thesis
    proof (cases "sint v \<le> MaxSatoshi \<and> sint a + sint v \<le> MaxSatoshi")
      case False
      have "sumInputs h view P (txIn # ins) a = Inl (ruleError ErrBadTxOutValue)"
      proof (cases "sint v \<le> MaxSatoshi")
        case le: True
        then have "sint (a + v) = sint a + sint v" using Cons.prems v sint_add64 by blast
        then show ?thesis using False le v e by (auto simp: p_def [symmetric] v_def [symmetric] Let_def)
      qed (use v e in \<open>auto simp: p_def [symmetric] v_def [symmetric] Let_def\<close>)
      then show ?thesis using False cv nn Cons.prems v by (auto simp: p_def [symmetric])
    next
      case le: True
      then have s: "sint (a + v) = sint a + sint v" using Cons.prems v sint_add64 by blast
      have u: "sumInputs h view P (txIn # ins) a = sumInputs h view P ins (a + v)"
        using le s v e by (auto simp: p_def [symmetric] v_def [symmetric] Let_def)
      have w: "word_of_int (coinValue (coins view) p) = v" unfolding cv by simp
      show ?thesis unfolding u
        using Cons.IH [of "a + v"] Cons.prems le s v True by (simp add: p_def [symmetric] cv w algebra_simps)
    qed
  qed
qed

lemma CheckTransactionInputs_iff:
  assumes "CheckTransactionSanity tx = Inr ()" "\<not> IsCoinBaseTx tx"
  shows "CheckTransactionInputs tx h view P = Inr fee \<longleftrightarrow>
    (\<forall>p \<in> set (inputsOf tx). \<exists>coin. coins view p = Some coin \<and> spendable P h coin) \<and>
    sum_list (map (coinValue (coins view)) (inputsOf tx)) \<le> MaxSatoshi \<and>
    sum_list (outValues tx) \<le> sum_list (map (coinValue (coins view)) (inputsOf tx)) \<and>
    fee = word_of_int (sum_list (map (coinValue (coins view)) (inputsOf tx)) - sum_list (outValues tx))"
proof -
  define S where "S = sum_list (map (coinValue (coins view)) (inputsOf tx))"
  have ins: "inputsOf tx = map PreviousOutPoint (TxIns tx)" using assms(2) by (simp add: inputsOf_def)
  have w: "sum_list (map (\<lambda>txIn. word_of_int (coinValue (coins view) (PreviousOutPoint txIn))) ts) =
      (word_of_int (sum_list (map (\<lambda>txIn. coinValue (coins view) (PreviousOutPoint txIn)) ts)) :: 64 word)" for ts
    by (induction ts) simp_all
  have si: "sumInputs h view P (TxIns tx) 0 = Inr r \<longleftrightarrow>
     (\<forall>p \<in> set (inputsOf tx). \<exists>coin. coins view p = Some coin \<and> spendable P h coin) \<and> S \<le> MaxSatoshi \<and> r = word_of_int S" for r
    using sumInputs_iff [of 0 h view P "TxIns tx" r] by (simp add: MaxSatoshi_eq ins S_def w comp_def)
  note out = sane_totalOut [OF assms(1)]
  have nn: "0 \<le> S" if "\<forall>p \<in> set (inputsOf tx). \<exists>coin. coins view p = Some coin \<and> spendable P h coin"
    unfolding S_def using that by (intro sum_list_nonneg_int) (auto simp: coinValue_def spendable_def)
  have sS: "sint (word_of_int S :: 64 word) = S" if "0 \<le> S" "S \<le> MaxSatoshi"
    using that by (simp add: signed_of_int signed_take_bit_int_eq_self MaxSatoshi_eq)
  have wo: "totalOut tx = word_of_int (sum_list (outValues tx))" unfolding out(1) [symmetric] by simp
  show ?thesis
  proof (cases "(\<forall>p \<in> set (inputsOf tx). \<exists>coin. coins view p = Some coin \<and> spendable P h coin) \<and> S \<le> MaxSatoshi")
    case True
    then have "sumInputs h view P (TxIns tx) 0 = Inr (word_of_int S)" "sint (word_of_int S :: 64 word) = S" using si nn sS by blast+
    then have "CheckTransactionInputs tx h view P =
       (if S < sum_list (outValues tx) then Inl (ruleError ErrSpendTooHigh) else Inr (word_of_int S - totalOut tx))"
      using assms(2) out(1) by (simp add: CheckTransactionInputs_def Let_def)
    then show ?thesis using True wo unfolding S_def [symmetric] by auto
  next
    case False
    then have "\<nexists>r. sumInputs h view P (TxIns tx) 0 = Inr r" using si by blast
    then show ?thesis using False assms(2) unfolding S_def [symmetric] by (auto simp: CheckTransactionInputs_def bindE_Inr_iff)
  qed
qed

lemma fee_value:
  assumes "CheckTransactionSanity tx = Inr ()" "\<not> IsCoinBaseTx tx" "CheckTransactionInputs tx h view P = Inr fee"
  shows "sint fee = sum_list (map (coinValue (coins view)) (inputsOf tx)) - sum_list (outValues tx)"
    "0 \<le> sint fee" "sint fee \<le> MaxSatoshi"
proof -
  define d where "d = sum_list (map (coinValue (coins view)) (inputsOf tx)) - sum_list (outValues tx)"
  have d: "fee = word_of_int d" "0 \<le> d" "d \<le> MaxSatoshi"
    using CheckTransactionInputs_iff [OF assms(1,2)] assms(3) sane_totalOut(2) [OF assms(1)] by (auto simp: d_def)
  then have "sint fee = d" by (simp add: signed_of_int signed_take_bit_int_eq_self MaxSatoshi_eq)
  then show "sint fee = sum_list (map (coinValue (coins view)) (inputsOf tx)) - sum_list (outValues tx)"
    "0 \<le> sint fee" "sint fee \<le> MaxSatoshi" using d by (simp_all add: d_def)
qed

text \<open>
  C18: For a sane transaction other than a coinbase the check of its inputs succeeds exactly when
  every input is an unspent coin of the view that is mature and in range, and the exact sum of the
  inputs is at most the maximum and covers the outputs; the fee returned is then the exact
  difference, which is not negative.
\<close>

theorem transaction_fee:
  assumes "CheckTransactionSanity tx = Inr ()" "\<not> IsCoinBaseTx tx"
  shows "((\<exists>fee. CheckTransactionInputs tx h view P = Inr fee) \<longleftrightarrow>
      list_all (\<lambda>p. \<exists>coin. coins view p = Some coin \<and> spendable P h coin) (inputsOf tx) \<and>
      sum_list (map (coinValue (coins view)) (inputsOf tx)) \<le> 2100000000000000 \<and>
      sum_list (outValues tx) \<le> sum_list (map (coinValue (coins view)) (inputsOf tx)))
    \<and> (\<forall>fee. CheckTransactionInputs tx h view P = Inr fee \<longrightarrow>
      sint fee = sum_list (map (coinValue (coins view)) (inputsOf tx)) - sum_list (outValues tx) \<and> 0 \<le> sint fee)"
  using CheckTransactionInputs_iff [OF assms, of h view P] fee_value(1,2) [OF assms, of h view P]
  unfolding list_all_iff MaxSatoshi_eq by blast

section \<open>The money supply\<close>

lemma CalcBlockSubsidy_eq:
  assumes "0 < sint (SubsidyReductionInterval P)" "h < 2 ^ 31"
  shows "CalcBlockSubsidy (of_nat h) P = baseSubsidy div 2 ^ (h div nat (sint (SubsidyReductionInterval P)))"
proof -
  define I where "I = sint (SubsidyReductionInterval P)"
  define n where "n = h div nat I"
  have I: "0 < I" using assms by (simp add: I_def)
  have h: "sint (of_nat h :: 32 word) = int h"
    using assms(2) by (simp add: sint_uint uint_nat unat_of_nat signed_take_bit_int_eq_self)
  have sd: "int h sdiv I = int n" using I by (cases "h = 0") (simp_all add: signed_divide_int_def n_def zdiv_int)
  have "SubsidyReductionInterval P \<noteq> 0" using I by (auto simp: I_def)
  then have e: "CalcBlockSubsidy (of_nat h) P = (if 64 \<le> n then 0 else drop_bit n baseSubsidy)"
    using sd h by (simp add: CalcBlockSubsidy_def I_def [symmetric] Let_def)
  have "baseSubsidy div 2 ^ n = 0" if "64 \<le> n"
  proof -
    have "baseSubsidy < 2 ^ 64" by (simp add: baseSubsidy_def SatoshiPerBitcoin_def)
    also have "(2 :: int) ^ 64 \<le> 2 ^ n" using that by (intro power_increasing) simp_all
    finally show ?thesis by (simp add: baseSubsidy_def SatoshiPerBitcoin_def)
  qed
  then show ?thesis unfolding e n_def [symmetric] I_def [symmetric] by (simp add: drop_bit_eq_div)
qed

lemma halving_sum: "0 \<le> (B :: int) \<Longrightarrow> (\<Sum>k<Suc m. B div 2 ^ k) + B div 2 ^ m \<le> 2 * B"
proof (induction m)
  case (Suc m)
  have "2 * (B div 2 ^ Suc m) \<le> B div 2 ^ m"
    using zdiv_zmult2_eq [of 2 B "2 ^ m"] by (simp add: mult.commute)
  then show ?case using Suc by simp
qed simp

lemma block_sum:
  fixes f :: "nat \<Rightarrow> int"
  shows "(\<Sum>h<I * m. f (h div I)) = int I * (\<Sum>k<m. f k)"
proof (induction m)
  case (Suc m)
  have "(\<Sum>h<I * Suc m. f (h div I)) = (\<Sum>h<I * m. f (h div I)) + (\<Sum>h=I * m..<I * m + I. f (h div I))"
    by (simp add: lessThan_atLeast0 sum.atLeastLessThan_concat add.commute)
  also have "(\<Sum>h=I * m..<I * m + I. f (h div I)) = (\<Sum>h=I * m..<I * m + I. f m)"
  proof (rule sum.cong)
    fix h
    assume "h \<in> {I * m..<I * m + I}"
    then have "h div I = m" by (intro div_nat_eqI) (auto simp: algebra_simps)
    then show "f (h div I) = f m" by simp
  qed simp
  finally show ?case using Suc by (simp add: algebra_simps)
qed simp

lemma supply_bound:
  assumes "0 < sint (SubsidyReductionInterval P)" "n \<le> 2 ^ 31"
  shows "(\<Sum>h<n. CalcBlockSubsidy (of_nat h) P) \<le> 2 * baseSubsidy * sint (SubsidyReductionInterval P)"
proof -
  define I where "I = nat (sint (SubsidyReductionInterval P))"
  have I: "0 < I" "int I = sint (SubsidyReductionInterval P)" using assms by (simp_all add: I_def)
  have B: "0 \<le> baseSubsidy" by (simp add: baseSubsidy_def SatoshiPerBitcoin_def)
  have "(\<Sum>h<n. CalcBlockSubsidy (of_nat h) P) = (\<Sum>h<n. baseSubsidy div 2 ^ (h div I))"
    using CalcBlockSubsidy_eq [OF assms(1)] assms(2) by (intro sum.cong) (simp_all add: I_def)
  also have "\<dots> \<le> (\<Sum>h<I * Suc n. baseSubsidy div 2 ^ (h div I))"
  proof (rule sum_mono2)
    have "n \<le> I * Suc n" using I(1) by (cases I) simp_all
    then show "{..<n} \<subseteq> {..<I * Suc n}" by auto
  qed (use B in \<open>simp_all add: pos_imp_zdiv_nonneg_iff\<close>)
  also have "\<dots> = int I * (\<Sum>k<Suc n. baseSubsidy div 2 ^ k)" by (rule block_sum)
  also have "\<dots> \<le> int I * (2 * baseSubsidy)"
  proof (rule mult_left_mono)
    have "0 \<le> baseSubsidy div 2 ^ n" using B by (simp add: pos_imp_zdiv_nonneg_iff)
    then show "(\<Sum>k<Suc n. baseSubsidy div 2 ^ k) \<le> 2 * baseSubsidy" using halving_sum [OF B, of n] by linarith
  qed simp
  finally show ?thesis using I(2) by (simp add: algebra_simps)
qed

text \<open>
  C39: With the reduction interval of the main network the subsidies of all blocks that a 32-bit
  height can number add up to at most the maximum amount of money.
\<close>

theorem supply_cap:
  assumes "SubsidyReductionInterval P = 210000" "n \<le> 2 ^ 31"
  shows "(\<Sum>h<n. CalcBlockSubsidy (of_nat h) P) \<le> MaxSatoshi"
  using supply_bound [of P n] assms by (simp add: MaxSatoshi_eq baseSubsidy_def SatoshiPerBitcoin_def)

definition mainNetLike :: Params where
  "mainNetLike = \<lparr>GenesisHash = [], BIP0034Height = 0, BIP0065Height = 0, BIP0066Height = 0, CoinbaseMaturity = 100,
     SubsidyReductionInterval = 210000\<rparr>"

lemma spender_sane: "CheckTransactionSanity spender = Inr ()" "\<not> IsCoinBaseTx spender"
proof -
  have "MsgTx_SerializeSizeStripped spender \<le> 1000000"
    by (simp add: MsgTx_SerializeSizeStripped_def baseSize_def spender_def TxIn_SerializeSize_def TxOut_SerializeSize_def VarIntSerializeSize_def)
  then show "CheckTransactionSanity spender = Inr ()" unfolding CheckTransactionSanity_iff
    by (simp add: spender_def outValues_def MaxSatoshi_eq IsCoinBaseTx_def isNullOutpoint_def)
  show "\<not> IsCoinBaseTx spender" by (simp add: spender_def IsCoinBaseTx_def)
qed

theorem transaction_fee_witness:
  "\<exists>fee. CheckTransactionInputs spender 4 oneCoinView mainNetLike = Inr fee \<and> sint fee = 1"
proof -
  have v: "map (coinValue (coins oneCoinView)) (inputsOf spender) = [5]" "outValues spender = [4]"
    using spender_sane(2) by (simp_all add: inputsOf_def spender_def oneCoinView_coins coinValue_def stxoOf_def oneCoin_def outValues_def)
  have "list_all (\<lambda>p. \<exists>coin. coins oneCoinView p = Some coin \<and> spendable mainNetLike 4 coin) (inputsOf spender)"
    using spender_sane(2)
    by (simp add: inputsOf_def spender_def oneCoinView_coins spendable_def stxoOf_def oneCoin_def UtxoEntry_IsCoinBase_def tfCoinBase_def)
  then show ?thesis using transaction_fee [OF spender_sane, of 4 oneCoinView mainNetLike] unfolding v by auto
qed

theorem supply_cap_witness: "(\<Sum>h<3. CalcBlockSubsidy (of_nat h) mainNetLike) \<le> MaxSatoshi"
  by (rule supply_cap) (simp_all add: mainNetLike_def)

section \<open>The height in the coinbase\<close>

definition CoinbaseFlags :: bytes where
  "CoinbaseFlags = [0x2f, 0x50, 0x32, 0x53, 0x48, 0x2f, 0x62, 0x74, 0x63, 0x64, 0x2f]"

definition standardCoinbaseScript :: "32 word \<Rightarrow> 64 word \<Rightarrow> script_err + bytes" where
  "standardCoinbaseScript nextBlockHeight extraNonce =
     bindE (AddInt64 (sint nextBlockHeight) NewScriptBuilder) (\<lambda>b.
     bindE (AddInt64 (sint extraNonce) b) (\<lambda>b. Builder_Script (AddData CoinbaseFlags b)))"

lemma AddInt64_bytes:
  assumes "berr b = None" "length (bscript b) \<le> 100" "\<bar>n\<bar> < 2 ^ (8 * L - 1)" "0 < L" "L \<le> 8"
  obtains bs where "AddInt64 n b = Inr (b\<lparr>bscript := bscript b @ bs\<rparr>)" "1 \<le> length bs" "length bs \<le> Suc L"
    "n \<ge> 17 \<Longrightarrow> \<exists>v. bs = of_nat (length v) # v \<and> 1 \<le> length v \<and> length v \<le> L \<and> int (le_nat v) = n"
    "n = 0 \<Longrightarrow> bs = [OP_0]" "1 \<le> n \<Longrightarrow> n \<le> 16 \<Longrightarrow> bs = [(OP_1 - 1) + of_int n]"
proof (cases "n = 0 \<or> n = - 1 \<or> (1 \<le> n \<and> n \<le> 16)")
  case True
  define bs where "bs = (if n = 0 then [OP_0] else [(OP_1 - 1) + of_int n :: byte])"
  have "AddInt64 n b = Inr (b\<lparr>bscript := bscript b @ bs\<rparr>)"
    using True assms by (auto simp: AddInt64_def bs_def MaxScriptSize_def)
  then show thesis using True by (intro that [of bs]) (auto simp: bs_def)
next
  case False
  have "\<bar>n\<bar> < 2 ^ 63"
  proof -
    have "(2 :: int) ^ (8 * L - 1) \<le> 2 ^ 63" using assms by (intro power_increasing) auto
    then show ?thesis using assms(3) by linarith
  qed
  then obtain v where v: "scriptNum_Bytes n = Inr v" "sm_value v = n" "checkMinimalDataEncoding v = Inr ()"
    by (rule scriptNum_Bytes_ok)
  have len: "length v \<le> L" using sm_value_length [OF v(3)] v(2) assms by simp
  have ne: "v \<noteq> []" using v(2) False by (auto simp: sm_value_def)
  have l76: "length v < 76" using len assms by simp
  have b: "1 \<le> length (pushBytes v)" "length (pushBytes v) \<le> Suc (length v)" "canonicalDataSize v \<le> Suc (length v)"
    using l76 by (auto simp: pushBytes_def addData_def NewScriptBuilder_def canonicalDataSize_def Let_def)
  have "AddData v b = b\<lparr>bscript := bscript b @ pushBytes v\<rparr>"
    using assms b(3) l76 by (intro AddData_ok) (simp_all add: MaxScriptSize_def)
  then have add: "AddInt64 n b = Inr (b\<lparr>bscript := bscript b @ pushBytes v\<rparr>)"
    using False assms(1,2) v(1) by (auto simp: AddInt64_def MaxScriptSize_def)
  have big: "\<exists>v'. pushBytes v = of_nat (length v') # v' \<and> 1 \<le> length v' \<and> length v' \<le> L \<and> int (le_nat v') = n" if "17 \<le> n"
  proof (intro exI [of _ v] conjI)
    have "unat (last v) < 128" using sm_value_sign [OF ne] v(2) that by simp
    then show le: "int (le_nat v) = n" using v(2) ne by (simp add: sm_value_def)
    show "1 \<le> length v" "length v \<le> L" using ne len by (simp_all add: Suc_le_eq)
    show "pushBytes v = of_nat (length v) # v"
    proof (cases "length v = 1")
      case True
      then obtain x where x: "v = [x]" by (cases v) auto
      then have "int (le_nat [x]) = n" "unat x < 128" using le \<open>unat (last v) < 128\<close> by simp_all
      then have "17 \<le> unat x" "unat x < 128" using that unfolding le_nat.simps by linarith+
      then have "x \<noteq> 0" "\<not> x \<le> 16" "x \<noteq> 0x81" by (auto simp: word_le_nat_alt)
      then show ?thesis by (simp add: x pushBytes_def addData_def NewScriptBuilder_def)
    next
      case False
      then show ?thesis using direct_push [of v] ne l76 by (cases v) auto
    qed
  qed
  show thesis by (rule that [OF add]) (use b len big False in auto)
qed

lemma CoinbaseFlags_push:
  "length (pushBytes CoinbaseFlags) = 12" "canonicalDataSize CoinbaseFlags = 12" "length CoinbaseFlags = 11"
  using direct_push [of CoinbaseFlags] by (simp_all add: CoinbaseFlags_def)

text \<open>
  C40: The script that the miner writes into a coinbase for any height and extra nonce (the least
  64-bit integer apart) has an admissible length, and the validator reads the same height back from it.
\<close>

theorem coinbase_height_roundtrip:
  assumes "0 \<le> sint h" "extraNonce \<noteq> 0x8000000000000000"
  shows "\<exists>s. standardCoinbaseScript h extraNonce = Inr s \<and> 2 \<le> length s \<and> length s \<le> 100 \<and>
    (\<forall>tx txIn ins. TxIns tx = txIn # ins \<longrightarrow> SignatureScript txIn = s \<longrightarrow>
       ExtractCoinbaseHeight tx = Inr h \<and> checkSerializedHeight tx h = Inr ())"
proof -
  define n where "n = sint h"
  have n: "0 \<le> n" "n < 2 ^ 31" using assms(1) sint_lt [of h] by (simp_all add: n_def)
  obtain bs where bs: "AddInt64 n NewScriptBuilder = Inr (NewScriptBuilder\<lparr>bscript := bscript NewScriptBuilder @ bs\<rparr>)"
      "1 \<le> length bs" "length bs \<le> Suc 5"
      "n \<ge> 17 \<Longrightarrow> \<exists>v. bs = of_nat (length v) # v \<and> 1 \<le> length v \<and> length v \<le> 5 \<and> int (le_nat v) = n"
      "n = 0 \<Longrightarrow> bs = [OP_0]" "1 \<le> n \<Longrightarrow> n \<le> 16 \<Longrightarrow> bs = [(OP_1 - 1) + of_int n]"
    using AddInt64_bytes [of NewScriptBuilder n 5] n by (auto simp: NewScriptBuilder_def)
  have b1: "AddInt64 n NewScriptBuilder = Inr \<lparr>bscript = bs, berr = None\<rparr>" using bs(1) by (simp add: NewScriptBuilder_def)
  have "sint extraNonce \<noteq> - (2 ^ 63)"
  proof
    assume "sint extraNonce = - (2 ^ 63)"
    then have "sint extraNonce = sint (0x8000000000000000 :: 64 word)" by simp
    then show False using assms(2) signed_word_eqI by blast
  qed
  then have "\<bar>sint extraNonce\<bar> < 2 ^ 63" using sint_lt [of extraNonce] sint_ge [of extraNonce] by simp
  then obtain cs where cs: "AddInt64 (sint extraNonce) \<lparr>bscript = bs, berr = None\<rparr> = Inr \<lparr>bscript = bs @ cs, berr = None\<rparr>"
      "1 \<le> length cs" "length cs \<le> Suc 8"
    using AddInt64_bytes [of "\<lparr>bscript = bs, berr = None\<rparr>" "sint extraNonce" 8] bs(3) by auto
  define s where "s = bs @ cs @ pushBytes CoinbaseFlags"
  have s: "standardCoinbaseScript h extraNonce = Inr s"
    using b1 cs bs(3) AddData_ok [of "\<lparr>bscript = bs @ cs, berr = None\<rparr>" CoinbaseFlags] CoinbaseFlags_push
    by (simp add: standardCoinbaseScript_def n_def [symmetric] s_def Builder_Script_def MaxScriptSize_def)
  have len: "2 \<le> length s" "length s \<le> 100" using bs(2,3) cs(2,3) CoinbaseFlags_push(1) by (simp_all add: s_def)
  have hw: "h = word_of_int n" by (simp add: n_def)
  have "ExtractCoinbaseHeight tx = Inr h" if tx: "TxIns tx = txIn # ins" "SignatureScript txIn = s" for tx txIn ins
  proof -
    consider "n = 0" | "1 \<le> n" "n \<le> 16" | "17 \<le> n" using n by linarith
    then show ?thesis
    proof cases
      case 1
      then show ?thesis using bs(5) tx len hw by (simp add: ExtractCoinbaseHeight_def s_def)
    next
      case 2
      then obtain k where k: "n = int k" "1 \<le> k" "k \<le> 16" using nonneg_int_cases [OF n(1)] by auto
      define op :: byte where "op = (OP_1 - 1) + of_int n"
      have op: "unat op = 80 + k" using k by (simp add: op_def unat_word_ariths)
      then have "op \<noteq> OP_0" "op \<ge> OP_1" "op \<le> OP_16" using k by (auto simp: word_le_nat_alt)
      moreover have "op - (OP_1 - 1) = of_nat k" by (simp add: op_def k)
      then have "(ucast (op - (OP_1 - 1)) :: 32 word) = h"
        using k hw by (simp add: word_unat_eq_iff unsigned_ucast_eq unat_of_nat take_bit_nat_eq_self)
      moreover have "s = op # cs @ pushBytes CoinbaseFlags" using bs(6) 2 by (simp add: s_def op_def)
      ultimately show ?thesis using tx by (simp add: ExtractCoinbaseHeight_def Let_def)
    next
      case 3
      then obtain v where v: "bs = of_nat (length v) # v" "1 \<le> length v" "length v \<le> 5" "int (le_nat v) = n" using bs(4) by blast
      have u: "unat (of_nat (length v) :: byte) = length v" using v by simp
      have op: "(of_nat (length v) :: byte) \<noteq> OP_0" "\<not> OP_1 \<le> (of_nat (length v) :: byte)"
        using v u by (auto simp: word_le_nat_alt word_unat_eq_iff)
      have s': "s = of_nat (length v) # v @ cs @ pushBytes CoinbaseFlags" using v(1) by (simp add: s_def)
      have "of_nat (le_nat v) = h" using v(4) hw by (metis of_int_of_nat_eq)
      then show ?thesis using tx u op v(2,3) by (simp add: ExtractCoinbaseHeight_def s' Let_def)
    qed
  qed
  then show ?thesis using s len by (intro exI [of _ s]) (auto simp: checkSerializedHeight_def)
qed

theorem coinbase_height_roundtrip_witness:
  "\<exists>s. standardCoinbaseScript 100000 7 = Inr s \<and>
    ExtractCoinbaseHeight \<lparr>Version = 1, TxIns = [\<lparr>PreviousOutPoint = \<lparr>Hash = nullHash, Index = 0xffffffff\<rparr>,
     SignatureScript = s, Witness = [], Sequence = 0\<rparr>], TxOuts = [], LockTime = 0\<rparr> = Inr 100000"
  using coinbase_height_roundtrip [of 100000 7] by fastforce

section \<open>Context-free rules for blocks\<close>

text \<open>
  The header: its public key parses, its signature is one of the seed, and its weight is below the
  threshold.  The result tells whether the weight is also below all weights of the pool of
  candidates, which is a vote for the block.  The precision of timestamps is a second in the model.
\<close>

definition checkBlockHeaderSanity :: "crypto \<Rightarrow> BlockHeader \<Rightarrow> bytes \<Rightarrow> int \<Rightarrow> MsgCandidate list \<Rightarrow> chain_err + bool" where
  "checkBlockHeaderSanity C header seed piValue pool =
     (case ParsePubKey (hPublicKey header) of
        Inl _ \<Rightarrow> Inl (ruleError ErrInvalidTime)
      | Inr pubKey \<Rightarrow>
          (case GetSignature (hSignature header) of
             Inl _ \<Rightarrow> Inl ChainPanic
           | Inr signature \<Rightarrow>
               if \<not> Signature_Verify C seed signature pubKey then Inl (ruleError ErrInvalidTime)
               else
                 let weight = weightOf (hSignature header) in
                 if weight \<ge> piValue then Inl (ruleError ErrInvalidTime)
                 else Inr (weight < snd (GetMinWeightBlock pool))))"

fun checkEachSanity :: "MsgTx list \<Rightarrow> chain_err + unit" where
  "checkEachSanity [] = Inr ()"
| "checkEachSanity (tx # txs) = bindE (CheckTransactionSanity tx) (\<lambda>_. checkEachSanity txs)"

fun checkDuplicateTxs :: "MsgTx list \<Rightarrow> bytes set \<Rightarrow> chain_err + unit" where
  "checkDuplicateTxs [] existingTxHashes = Inr ()"
| "checkDuplicateTxs (tx # txs) existingTxHashes =
     (if TxHash tx \<in> existingTxHashes then Inl (ruleError ErrDuplicateTx)
      else checkDuplicateTxs txs (insert (TxHash tx) existingTxHashes))"

fun checkSigOps :: "MsgTx list \<Rightarrow> int \<Rightarrow> chain_err + unit" where
  "checkSigOps [] totalSigOps = Inr ()"
| "checkSigOps (tx # txs) totalSigOps =
     (let lastSigOps = totalSigOps;
          totalSigOps = int64 (totalSigOps + CountSigOps tx * int WitnessScaleFactor) in
      if totalSigOps < lastSigOps \<or> totalSigOps > MaxBlockSigOpsCost then Inl (ruleError ErrTooManySigOps)
      else checkSigOps txs totalSigOps)"

text \<open>The checks on the transactions of a block, which blocks and candidates share.\<close>

definition checkTransactions :: "bytes \<Rightarrow> nat \<Rightarrow> MsgTx list \<Rightarrow> chain_err + unit" where
  "checkTransactions merkleRoot serializedSize transactions =
     (let numTx = length transactions in
      if numTx = 0 then Inl (ruleError ErrNoTransactions)
      else if numTx > MaxBlockBaseSize then Inl (ruleError ErrBlockTooBig)
      else if serializedSize > MaxBlockBaseSize then Inl (ruleError ErrBlockTooBig)
      else if \<not> IsCoinBaseTx (transactions ! 0) then Inl (ruleError ErrFirstTxNotCoinbase)
      else if list_ex IsCoinBaseTx (drop 1 transactions) then Inl (ruleError ErrMultipleCoinbases)
      else bindE (checkEachSanity transactions) (\<lambda>_.
           bindE (BuildMerkleTreeStore transactions False) (\<lambda>merkles.
             if merkles ! (length merkles - 1) \<noteq> Some merkleRoot then Inl (ruleError ErrBadMerkleRoot)
             else bindE (checkDuplicateTxs transactions {}) (\<lambda>_. checkSigOps transactions 0))))"

definition checkBlockSanity :: "crypto \<Rightarrow> MsgBlock \<Rightarrow> bytes \<Rightarrow> int \<Rightarrow> MsgCandidate list \<Rightarrow> chain_err + unit" where
  "checkBlockSanity C block seed piValue pool =
     bindE (checkBlockHeaderSanity C (Header block) seed piValue pool) (\<lambda>_.
       checkTransactions (MerkleRoot (Header block)) (MsgBlock_SerializeSizeStripped block) (Transactions block))"

definition checkCandidateSanity :: "crypto \<Rightarrow> MsgCandidate \<Rightarrow> bytes \<Rightarrow> int \<Rightarrow> MsgCandidate list \<Rightarrow> chain_err + bool" where
  "checkCandidateSanity C candidate seed piValue pool =
     bindE (checkBlockHeaderSanity C (Header candidate) seed piValue pool) (\<lambda>vb.
     bindE (checkTransactions (MerkleRoot (Header candidate)) (MsgBlock_SerializeSizeStripped (MsgBlock.truncate candidate))
       (Transactions candidate)) (\<lambda>_. Inr vb))"

section \<open>Rules that depend on the position in the chain\<close>

text \<open>
  The scales and votes from which a header is judged: those of the previous node, and then nine
  times those of the ancestor at height 1 of the node before.
\<close>

fun prevNodes :: "nat \<Rightarrow> blockNode option \<Rightarrow> blockNode list" where
  "prevNodes 0 node = []"
| "prevNodes (Suc i) node = (case node of None \<Rightarrow> [] | Some n \<Rightarrow> n # prevNodes i (Ancestor n 1))"

definition checkBlockHeaderContext :: "crypto \<Rightarrow> BlockHeader \<Rightarrow> blockNode \<Rightarrow> chain_err + unit" where
  "checkBlockHeaderContext C header prevNode =
     (let seed = DoubleHashB (n_signature (nodeFields prevNode)) in
      case GetSignature (hSignature header) of
        Inl _ \<Rightarrow> Inl ChainPanic
      | Inr signature \<Rightarrow>
          (case ParsePubKey (hPublicKey header) of
             Inl _ \<Rightarrow> Inl OtherError
           | Inr pubKey \<Rightarrow>
               if \<not> Signature_Verify C seed signature pubKey then Inl (ruleError ErrUnexpectedDifficulty)
               else
                 let weight = weightOf (hSignature header);
                     ns = prevNode # prevNodes 9 (Ancestor prevNode 1);
                     scales = map (\<lambda>n. n_scale (nodeFields n)) ns;
                     votes = map (\<lambda>n. n_Votes (nodeFields n)) ns in
                 (case EstimateScale votes scales of
                    None \<Rightarrow> Inl ChainPanic
                  | Some scale \<Rightarrow>
                      (case BlockVerge scale of
                         None \<Rightarrow> Inl ChainPanic
                       | Some verge \<Rightarrow>
                           if weight \<ge> verge then Inl (ruleError ErrUnexpectedDifficulty)
                           else if \<not> Timestamp header > CalcPastMedianTime prevNode then Inl (ruleError ErrTimeTooOld)
                           else Inr ()))))"

definition checkBlockContext :: "crypto \<Rightarrow> MsgBlock \<Rightarrow> blockNode \<Rightarrow> chain_err + unit" where
  "checkBlockContext C block prevNode =
     bindE (checkBlockHeaderContext C (Header block) prevNode) (\<lambda>_.
       let blockTime = CalcPastMedianTime prevNode;
           blockHeight = height prevNode + 1 in
       if list_ex (\<lambda>tx. \<not> IsFinalizedTransaction tx blockHeight blockTime) (Transactions block)
       then Inl (ruleError ErrUnfinalizedTx)
       else case Transactions block of [] \<Rightarrow> Inl ChainPanic
         | coinbaseTx # _ \<Rightarrow> checkSerializedHeight coinbaseTx blockHeight)"

section \<open>What a sane block satisfies\<close>

lemma checkEachSanity_iff: "checkEachSanity txs = Inr () \<longleftrightarrow> (\<forall>tx \<in> set txs. CheckTransactionSanity tx = Inr ())"
  by (induction txs) (auto simp: bindE_Inr_iff)

lemma checkDuplicateTxs_iff:
  "checkDuplicateTxs txs S = Inr () \<longleftrightarrow> distinct (map TxHash txs) \<and> TxHash ` set txs \<inter> S = {}"
  by (induction txs arbitrary: S) auto

lemma foldl_sum: "foldl (\<lambda>t x. t + f x) a xs = a + sum_list (map f xs)" for a :: "'b::comm_monoid_add"
  by (induction xs arbitrary: a) (simp_all add: add.assoc)

lemma CountSigOps_eq:
  "CountSigOps tx = sum_list (map (\<lambda>i. GetSigOpCount (SignatureScript i)) (TxIns tx)) +
     sum_list (map (\<lambda>out. GetSigOpCount (PkScript out)) (TxOuts tx))"
  by (simp add: CountSigOps_def foldl_sum)

lemma parse_length_any: "length (fst (parseScript s)) \<le> length s"
proof -
  obtain pops e where p: "parseScript s = (pops, e)" by (cases "parseScript s")
  then obtain pre suf where "unparseScript pops = Inr pre" "s = pre @ suf" using parse_prefix by blast
  moreover have "unparseScript pops = Inr pre \<Longrightarrow> length pops \<le> length pre" for pre
  proof (induction pops arbitrary: pre)
    case (Cons p ps)
    then obtain b t where "pop_bytes p = Inr b" "unparseScript ps = Inr t" "pre = b @ t" by (auto split: sum.splits)
    then show ?case using Cons.IH [of t] pop_bytes_nonempty [of p b] by (cases b) auto
  qed simp
  ultimately show ?thesis using p by (simp add: trans_le_add1)
qed

lemma GetSigOpCount_bounds: "0 \<le> GetSigOpCount s" "GetSigOpCount s \<le> 20 * int (length s)"
proof -
  define pops where "pops = fst (parseScript s)"
  have "0 \<le> getSigOpCount pops False" "getSigOpCount pops False \<le> 20 * int (length pops)"
    using sigOpLoop_bounds [of None pops] by (simp_all add: getSigOpCount_def)
  moreover have "length pops \<le> length s" using parse_length_any by (simp add: pops_def)
  ultimately show "0 \<le> GetSigOpCount s" "GetSigOpCount s \<le> 20 * int (length s)"
    by (simp_all add: GetSigOpCount_def pops_def [symmetric])
qed

lemma sum_list_between:
  fixes f :: "'a \<Rightarrow> int"
  assumes "\<And>x. 0 \<le> f x" "\<And>x. f x \<le> 20 * int (g x)"
  shows "0 \<le> sum_list (map f xs)" "sum_list (map f xs) \<le> 20 * int (sum_list (map g xs))"
proof (induction xs)
  case (Cons x xs)
  { case 1 then show ?case using Cons assms(1) [of x] by simp }
  { case 2 then show ?case using Cons assms(2) [of x] by simp }
qed simp_all

lemma CountSigOps_bounds: "0 \<le> CountSigOps tx" "CountSigOps tx \<le> 20 * int (MsgTx_SerializeSizeStripped tx)"
proof -
  define a b where "a = sum_list (map TxIn_SerializeSize (TxIns tx))" and "b = sum_list (map TxOut_SerializeSize (TxOuts tx))"
  have i: "GetSigOpCount (SignatureScript i) \<le> 20 * int (TxIn_SerializeSize i)" for i
    using GetSigOpCount_bounds(2) [of "SignatureScript i"] by (simp add: TxIn_SerializeSize_def)
  have out: "GetSigOpCount (PkScript t) \<le> 20 * int (TxOut_SerializeSize t)" for t
    using GetSigOpCount_bounds(2) [of "PkScript t"] by (simp add: TxOut_SerializeSize_def)
  note I = sum_list_between [where f = "\<lambda>i. GetSigOpCount (SignatureScript i)", OF GetSigOpCount_bounds(1) i, of "TxIns tx", folded a_def]
  note T = sum_list_between [where f = "\<lambda>t. GetSigOpCount (PkScript t)", OF GetSigOpCount_bounds(1) out, of "TxOuts tx", folded b_def]
  have "a + b \<le> MsgTx_SerializeSizeStripped tx"
    by (simp add: MsgTx_SerializeSizeStripped_def baseSize_def Let_def foldl_sum a_def b_def)
  then have "int a + int b \<le> int (MsgTx_SerializeSizeStripped tx)" by linarith
  then show "0 \<le> CountSigOps tx" "CountSigOps tx \<le> 20 * int (MsgTx_SerializeSizeStripped tx)"
    unfolding CountSigOps_eq using I T by linarith+
qed

lemma checkSigOps_iff:
  assumes "\<forall>tx \<in> set txs. CheckTransactionSanity tx = Inr ()" "0 \<le> a" "a \<le> 80000"
  shows "checkSigOps txs a = Inr () \<longleftrightarrow> a + 4 * sum_list (map CountSigOps txs) \<le> 80000"
  using assms
proof (induction txs arbitrary: a)
  case (Cons tx txs)
  define n where "n = CountSigOps tx"
  have "MsgTx_SerializeSizeStripped tx \<le> 1000000" using Cons.prems(1) by (simp add: CheckTransactionSanity_iff)
  then have n: "0 \<le> n" "n \<le> 20000000" using CountSigOps_bounds [of tx] by (simp_all add: n_def)
  have w: "int64 (a + n * int WitnessScaleFactor) = a + 4 * n"
    using n Cons.prems by (simp add: int64_id WitnessScaleFactor_def)
  have nn: "0 \<le> sum_list (map CountSigOps txs)" using CountSigOps_bounds(1) by (intro sum_list_nonneg_int) auto
  have u: "checkSigOps (tx # txs) a = (if a + 4 * n > 80000 then Inl (ruleError ErrTooManySigOps) else checkSigOps txs (a + 4 * n))"
    using n w by (simp add: n_def [symmetric] MaxBlockSigOpsCost_def)
  show ?case
  proof (cases "a + 4 * n > 80000")
    case True
    then show ?thesis using nn unfolding u by (simp add: n_def)
  next
    case False
    then show ?thesis using Cons.IH [of "a + 4 * n"] Cons.prems n unfolding u by (simp add: n_def [symmetric] algebra_simps)
  qed
qed simp

lemma merkleLeaves_plain: "merkleLeaves False txs = map TxHash txs"
proof -
  have "map TxHash (map snd (enumerate 0 txs)) = map TxHash txs" by (simp only: map_snd_enumerate)
  then have "map (\<lambda>p. TxHash (snd p)) (enumerate 0 txs) = map TxHash txs" by (simp only: map_map comp_def)
  then show ?thesis by (simp add: merkleLeaves_def case_prod_unfold comp_def)
qed

lemma checkTransactions_iff:
  "checkTransactions merkleRoot blockSize txs = Inr () \<longleftrightarrow>
     txs \<noteq> [] \<and> length txs \<le> 1000000 \<and> blockSize \<le> 1000000 \<and>
     IsCoinBaseTx (hd txs) \<and> list_all (\<lambda>tx. \<not> IsCoinBaseTx tx) (tl txs) \<and>
     list_all (\<lambda>tx. CheckTransactionSanity tx = Inr ()) txs \<and>
     merkle_root (map TxHash txs) = merkleRoot \<and> distinct (map TxHash txs) \<and>
     4 * sum_list (map CountSigOps txs) \<le> 80000"
proof (cases "txs = []")
  case True
  then show ?thesis by (simp add: checkTransactions_def)
next
  case False
  obtain m where m: "BuildMerkleTreeStore txs False = Inr m" "m ! (length m - 1) = Some (merkle_root (map TxHash txs))"
    using merkle_tree_root_ex [OF False, of False] by (auto simp: merkleLeaves_plain)
  have "checkTransactions merkleRoot blockSize txs = Inr () \<longleftrightarrow> length txs \<le> 1000000 \<and> blockSize \<le> 1000000 \<and>
     IsCoinBaseTx (hd txs) \<and> \<not> list_ex IsCoinBaseTx (tl txs) \<and> checkEachSanity txs = Inr () \<and>
     merkle_root (map TxHash txs) = merkleRoot \<and> checkDuplicateTxs txs {} = Inr () \<and> checkSigOps txs 0 = Inr ()"
    using False m by (auto simp: checkTransactions_def bindE_Inr_iff ifE_Inr_iff Let_def MaxBlockBaseSize_def hd_conv_nth drop_Suc)
  then show ?thesis
    using False checkSigOps_iff [of txs 0] by (auto simp: checkEachSanity_iff checkDuplicateTxs_iff list_all_iff list_ex_iff)
qed

text \<open>
  C20: The checks that blocks and candidates share accept a list of transactions exactly when there is
  at least one and at most a million, the size is within the limit, the first and only the first is a
  coinbase, each is sane, the Merkle root is that of the header, no hash occurs twice, and four times
  the exact number of signature operations is at most the limit.
\<close>

theorem block_transactions:
  "checkTransactions merkleRoot blockSize txs = Inr () \<longleftrightarrow>
     txs \<noteq> [] \<and> length txs \<le> 1000000 \<and> blockSize \<le> 1000000 \<and>
     IsCoinBaseTx (hd txs) \<and> list_all (\<lambda>tx. \<not> IsCoinBaseTx tx) (tl txs) \<and>
     list_all (\<lambda>tx. CheckTransactionSanity tx = Inr ()) txs \<and>
     merkle_root (map TxHash txs) = merkleRoot \<and> distinct (map TxHash txs) \<and>
     4 * sum_list (map CountSigOps txs) \<le> 80000"
  by (rule checkTransactions_iff)

text \<open>
  The window of nodes that the header rules look at is not the last ten blocks: behind the
  previous node it repeats the block at height 1.
\<close>

lemma header_context_window:
  assumes "node_ok n" "1 < length (path n)"
  shows "prevNodes k (Ancestor n 1) = replicate k (path n ! 1)"
proof -
  have a: "Ancestor m 1 = Some (path n ! 1)" if "node_ok m" "1 < length (path m)" "path m ! 1 = path n ! 1" for m
    using Ancestor_eq [OF that(1), of 1 1] that by simp
  have ok: "node_ok (path n ! 1)" "path (path n ! 1) = take 2 (path n)"
    using node_ok_nth [OF assms(1), of 1] path_nth [of 1 n] assms(2) by (simp_all add: numeral_2_eq_2)
  have "prevNodes k (Some (path n ! 1)) = replicate k (path n ! 1)"
  proof (induction k)
    case (Suc k)
    have "Ancestor (path n ! 1) 1 = Some (path n ! 1)" using a [of "path n ! 1"] ok assms(2) by simp
    then show ?case using Suc by simp
  qed simp
  then show ?thesis using a [OF assms refl] by simp
qed

end
