(* ===== verification/Chain_ScriptVal.thy ===== *)
theory Chain_ScriptVal
  imports "HOL-Library.Multiset" Script_Caches Chain_Validate
begin

text \<open>
  Concurrent validation of scripts (\<^verbatim>\<open>src/blockchain/scriptval.go\<close>): the main loop and the workers
  with their channels as a step relation, in which the engines of all workers take their steps in any
  order and share one signature cache; the collection of the inputs of a transaction or a block with
  the cache of signature hashes.  The protocol is verified once, in a locale, for any check of an item
  that keeps a contract, and the engine keeps it.
\<close>

unbundle bit_operations_syntax

section \<open>Items and workers\<close>

record txValidateItem =
  vi_txInIndex :: int
  vi_txIn :: TxIn
  vi_tx :: MsgTx
  vi_sigHashes :: "TxSigHashes option"

text \<open>What is sent on the result channel: nil or the rule that an item violates.\<close>

type_synonym verdict = "chain_err option"

text \<open>
  A worker waits for an item, holds the number of an item, is inside of its check, waits to
  send a result, has left its loop, or has panicked.
\<close>

datatype 'b worker = Idle | Got nat | Busy 'b | Sending verdict | Exited | Panicked

record ('b, 'c) validator =
  workers :: "'b worker list"
  currentItem :: nat
  processedItems :: nat
  returned :: "verdict option"
  sharedCache :: 'c

text \<open>
  One step of the main loop or of a worker.  The validate and the result channel have no buffer, so
  sending and receiving is one step of both sides; \<open>returned\<close> is set when the quit channel is
  closed.  The check of an item is a parameter: how it begins and one step of it, each with the
  state that all workers share.
\<close>

inductive validateStep :: "nat \<Rightarrow> (nat \<Rightarrow> 'c \<Rightarrow> 'b worker) \<Rightarrow> ('b \<Rightarrow> 'c \<Rightarrow> 'b worker \<times> 'c) \<Rightarrow>
    ('b, 'c) validator \<Rightarrow> ('b, 'c) validator \<Rightarrow> bool" for numInputs start run where
  send: "returned s = None \<Longrightarrow> processedItems s < numInputs \<Longrightarrow> currentItem s < numInputs \<Longrightarrow>
    i < length (workers s) \<Longrightarrow> workers s ! i = Idle \<Longrightarrow>
    validateStep numInputs start run s
      (s\<lparr>workers := (workers s)[i := Got (currentItem s)], currentItem := currentItem s + 1\<rparr>)"
| lookup: "i < length (workers s) \<Longrightarrow> workers s ! i = Got k \<Longrightarrow>
    validateStep numInputs start run s (s\<lparr>workers := (workers s)[i := start k (sharedCache s)]\<rparr>)"
| execute: "i < length (workers s) \<Longrightarrow> workers s ! i = Busy b \<Longrightarrow> run b (sharedCache s) = (w, c) \<Longrightarrow>
    validateStep numInputs start run s (s\<lparr>workers := (workers s)[i := w], sharedCache := c\<rparr>)"
| receive: "returned s = None \<Longrightarrow> processedItems s < numInputs \<Longrightarrow>
    i < length (workers s) \<Longrightarrow> workers s ! i = Sending v \<Longrightarrow>
    validateStep numInputs start run s
      (s\<lparr>workers := (workers s)[i := (if v = None then Idle else Exited)],
         processedItems := processedItems s + 1,
         returned := (if v \<noteq> None \<or> processedItems s + 1 = numInputs then Some v else None)\<rparr>)"
| discard: "returned s \<noteq> None \<Longrightarrow> i < length (workers s) \<Longrightarrow> workers s ! i = Sending v \<Longrightarrow>
    validateStep numInputs start run s (s\<lparr>workers := (workers s)[i := (if v = None then Idle else Exited)]\<rparr>)"
| quit: "returned s \<noteq> None \<Longrightarrow> i < length (workers s) \<Longrightarrow> workers s ! i = Idle \<Longrightarrow>
    validateStep numInputs start run s (s\<lparr>workers := (workers s)[i := Exited]\<rparr>)"

text \<open>The start of \<open>Validate\<close>; without items it returns at once.\<close>

definition Validate :: "int \<Rightarrow> nat \<Rightarrow> 'c \<Rightarrow> ('b, 'c) validator" where
  "Validate numCPU numItems c =
     (if numItems = 0 then \<lparr>workers = [], currentItem = 0, processedItems = 0, returned = Some None, sharedCache = c\<rparr>
      else
        let maxGoRoutines = numCPU * 3;
            maxGoRoutines = (if maxGoRoutines \<le> 0 then 1 else maxGoRoutines);
            maxGoRoutines = (if maxGoRoutines > int numItems then int numItems else maxGoRoutines) in
        \<lparr>workers = replicate (nat maxGoRoutines) Idle, currentItem = 0, processedItems = 0, returned = None, sharedCache = c\<rparr>)"

definition finished :: "('b, 'c) validator \<Rightarrow> bool" where
  "finished s = (returned s \<noteq> None \<and> list_all (\<lambda>w. w = Exited) (workers s))"

text \<open>Every run from a state reaches a state with the property, and none of them stops before.\<close>

inductive inevitable :: "('s \<Rightarrow> 's \<Rightarrow> bool) \<Rightarrow> ('s \<Rightarrow> bool) \<Rightarrow> 's \<Rightarrow> bool" for R P where
  now: "P s \<Longrightarrow> inevitable R P s"
| later: "\<exists>s'. R s s' \<Longrightarrow> (\<And>s'. R s s' \<Longrightarrow> inevitable R P s') \<Longrightarrow> inevitable R P s"

section \<open>The contract of a check\<close>

locale item_check =
  fixes numInputs :: nat and start :: "nat \<Rightarrow> 'c \<Rightarrow> 'b worker" and run :: "'b \<Rightarrow> 'c \<Rightarrow> 'b worker \<times> 'c"
    and expected :: "nat \<Rightarrow> verdict" and ok :: "'b \<Rightarrow> bool" and outcome :: "'b \<Rightarrow> verdict" and left :: "'b \<Rightarrow> nat"
    and limit :: nat and sound :: "'c \<Rightarrow> bool"
  assumes start_contract: "sound c \<Longrightarrow> k < numInputs \<Longrightarrow>
      (\<exists>b. start k c = Busy b \<and> ok b \<and> outcome b = expected k \<and> left b \<le> limit) \<or> start k c = Sending (expected k)"
    and run_contract: "sound c \<Longrightarrow> ok b \<Longrightarrow> run b c = (w, c') \<Longrightarrow>
      sound c' \<and> ((\<exists>b'. w = Busy b' \<and> ok b' \<and> outcome b' = outcome b \<and> left b' < left b) \<or> w = Sending (outcome b))"
begin

fun flight :: "'b worker \<Rightarrow> verdict multiset" where
  "flight (Got k) = {#expected k#}"
| "flight (Busy b) = {#outcome b#}"
| "flight (Sending v) = {#v#}"
| "flight _ = {#}"

fun worker_ok :: "'b worker \<Rightarrow> bool" where
  "worker_ok (Got k) = (k < numInputs)"
| "worker_ok (Busy b) = (ok b \<and> left b \<le> limit)"
| "worker_ok Panicked = False"
| "worker_ok _ = True"

fun weight :: "'b worker \<Rightarrow> nat" where
  "weight (Got k) = limit + 4"
| "weight (Busy b) = left b + 3"
| "weight (Sending v) = 2"
| "weight Idle = 1"
| "weight _ = 0"

definition potential :: "('b, 'c) validator \<Rightarrow> nat" where
  "potential s = (numInputs - currentItem s) * (limit + 4) + sum_list (map weight (workers s))"

definition inv :: "('b, 'c) validator \<Rightarrow> bool" where
  "inv s = (sound (sharedCache s) \<and> list_all worker_ok (workers s) \<and> currentItem s \<le> numInputs \<and>
     (case returned s of
        None \<Rightarrow> processedItems s < numInputs \<and> workers s \<noteq> [] \<and> Exited \<notin> set (workers s) \<and>
          mset (map expected [0..<currentItem s]) =
            replicate_mset (processedItems s) None + sum_list (map flight (workers s))
      | Some None \<Rightarrow> (\<forall>k < numInputs. expected k = None)
      | Some (Some e) \<Rightarrow> (\<exists>k < numInputs. expected k = Some e)))"

lemma sum_list_flight:
  assumes "i < length ws"
  shows "sum_list (map flight (ws[i := w])) + flight (ws ! i) = sum_list (map flight ws) + flight w"
  using assms
proof (induction ws arbitrary: i)
  case (Cons x xs)
  then show ?case by (cases i) (auto simp: ac_simps)
qed simp

lemma sum_list_weight:
  assumes "i < length ws"
  shows "sum_list (map weight (ws[i := w])) + weight (ws ! i) = sum_list (map weight ws) + weight w"
  using assms
proof (induction ws arbitrary: i)
  case (Cons x xs)
  then show ?case by (cases i) auto
qed simp

lemma list_all_update: "list_all P xs \<Longrightarrow> P x \<Longrightarrow> list_all P (xs[i := x])"
  using set_update_subset_insert [of xs i x] by (auto simp: list_all_iff)

lemma moved:
  assumes "inv s" "i < length (workers s)" "worker_ok w" "w \<noteq> Exited" "flight w = flight (workers s ! i)" "sound c"
  shows "inv (s\<lparr>workers := (workers s)[i := w], sharedCache := c\<rparr>)"
proof -
  have f: "sum_list (map flight ((workers s)[i := w])) = sum_list (map flight (workers s))"
    using sum_list_flight [OF assms(2), of w] assms(5) by simp
  show ?thesis
    using assms list_all_update [of worker_ok "workers s" w i] set_update_subset_insert [of "workers s" i w]
    by (auto simp: inv_def f split: option.splits)
qed

end

context item_check
begin

lemma worker_at: "inv s \<Longrightarrow> i < length (workers s) \<Longrightarrow> worker_ok (workers s ! i)"
  by (auto simp: inv_def list_all_iff)

lemma sum_list_flight_idle: "(\<And>w. w \<in> set ws \<Longrightarrow> w = Idle) \<Longrightarrow> sum_list (map flight ws) = {#}"
proof (induction ws)
  case (Cons w ws)
  then have "w = Idle" "sum_list (map flight ws) = {#}" by simp_all
  then show ?case by simp
qed simp

lemma flight_size:
  assumes "inv s" "returned s = None"
  shows "currentItem s = processedItems s + size (sum_list (map flight (workers s)))"
proof -
  have "size (mset (map expected [0..<currentItem s])) = size (replicate_mset (processedItems s) (None :: verdict) + sum_list (map flight (workers s)))"
    using assms by (simp add: inv_def)
  then show ?thesis by simp
qed

lemma flight_member:
  assumes "inv s" "returned s = None" "i < length (workers s)" "v \<in># flight (workers s ! i)"
  shows "\<exists>k < numInputs. expected k = v"
proof -
  have "v \<in># sum_list (map flight (workers s))"
    using assms(3,4) sum_list_flight [OF assms(3), of Idle] by (metis flight.simps(4) add.right_neutral union_iff)
  then have "v \<in># mset (map expected [0..<currentItem s])" using assms(1,2) by (simp add: inv_def)
  then obtain k where "k < currentItem s" "expected k = v" by auto
  moreover have "currentItem s \<le> numInputs" using assms(1) by (simp add: inv_def)
  ultimately show ?thesis by (intro exI [of _ k]) simp
qed

lemma inv_send:
  assumes "inv s" "returned s = None" "processedItems s < numInputs" "currentItem s < numInputs"
    "i < length (workers s)" "workers s ! i = Idle"
  shows "inv (s\<lparr>workers := (workers s)[i := Got (currentItem s)], currentItem := currentItem s + 1\<rparr>)"
proof -
  have f: "sum_list (map flight ((workers s)[i := Got (currentItem s)])) = sum_list (map flight (workers s)) + {#expected (currentItem s)#}"
    using sum_list_flight [OF assms(5), of "Got (currentItem s)"] assms(6) by simp
  have e: "Exited \<notin> set ((workers s)[i := Got (currentItem s)])"
    using assms set_update_subset_insert [of "workers s" i "Got (currentItem s)"] by (auto simp: inv_def)
  show ?thesis
    using assms list_all_update [of worker_ok "workers s" "Got (currentItem s)" i] e
    by (simp add: inv_def f)
qed

lemma inv_receive:
  assumes "inv s" "returned s = None" "processedItems s < numInputs" "i < length (workers s)" "workers s ! i = Sending v"
  shows "inv (s\<lparr>workers := (workers s)[i := (if v = None then Idle else Exited)],
     processedItems := processedItems s + 1,
     returned := (if v \<noteq> None \<or> processedItems s + 1 = numInputs then Some v else None)\<rparr>)"
proof (cases v)
  case None
  define ws where "ws = (workers s)[i := Idle]"
  have f: "sum_list (map flight (workers s)) = sum_list (map flight ws) + {#None#}"
    using sum_list_flight [OF assms(4), of Idle] assms(5) None by (simp add: ws_def)
  have m: "mset (map expected [0..<currentItem s]) = replicate_mset (Suc (processedItems s)) None + sum_list (map flight ws)"
    using assms(1,2) by (simp add: inv_def f)
  have w: "list_all worker_ok ws" "sound (sharedCache s)" "currentItem s \<le> numInputs"
    using assms list_all_update [of worker_ok "workers s" Idle i] by (simp_all add: inv_def ws_def)
  have all: "\<forall>k < numInputs. expected k = None" if "Suc (processedItems s) = numInputs"
  proof -
    have "currentItem s = Suc (processedItems s) + size (sum_list (map flight ws))"
      using flight_size [OF assms(1,2)] by (simp add: f)
    then have c: "currentItem s = numInputs" "sum_list (map flight ws) = {#}" using that w(3) by simp_all
    show ?thesis
    proof (intro allI impI)
      fix k assume "k < numInputs"
      then have "expected k \<in># mset (map expected [0..<currentItem s])" using c(1) by simp
      then show "expected k = None" unfolding m c(2) by (simp split: if_splits)
    qed
  qed
  have e: "ws \<noteq> []" "Exited \<notin> set ws"
    using assms set_update_subset_insert [of "workers s" i Idle] by (auto simp: inv_def ws_def)
  show ?thesis using None assms(3) w all m e by (auto simp: inv_def ws_def [symmetric])
next
  case (Some e)
  then have "\<exists>k < numInputs. expected k = Some e" using flight_member [OF assms(1,2,4), of "Some e"] assms(5) by simp
  then show ?thesis using Some assms(1) list_all_update [of worker_ok "workers s" Exited i] by (simp add: inv_def)
qed

lemma inv_done:
  assumes "inv s" "returned s \<noteq> None" "worker_ok w"
  shows "inv (s\<lparr>workers := (workers s)[i := w]\<rparr>)"
  using assms list_all_update [of worker_ok "workers s" w i] by (auto simp: inv_def split: option.splits)

lemma potential_update:
  assumes "i < length (workers s)"
  shows "potential (s\<lparr>workers := (workers s)[i := w], sharedCache := c\<rparr>) + weight (workers s ! i) = potential s + weight w"
  using sum_list_weight [OF assms, of w] by (simp add: potential_def)

lemma potential_other:
  "potential (s\<lparr>workers := ws, processedItems := p, returned := r\<rparr>) = potential (s\<lparr>workers := ws, sharedCache := c\<rparr>)"
  "potential (s\<lparr>workers := ws\<rparr>) = potential (s\<lparr>workers := ws, sharedCache := c\<rparr>)"
  by (simp_all add: potential_def)

lemma step_inv:
  assumes "validateStep numInputs start run s s'" "inv s"
  shows "inv s' \<and> potential s' < potential s"
  using assms(1)
proof cases
  case (send i)
  have "numInputs - currentItem s = Suc (numInputs - Suc (currentItem s))" using send by simp
  then have "potential s' < potential s"
    using sum_list_weight [OF send(5), of "Got (currentItem s)"] send(1,6) by (simp add: potential_def)
  then show ?thesis using inv_send [OF assms(2) send(2-6)] send(1) by blast
next
  case (lookup i k)
  have k: "k < numInputs" using worker_at [OF assms(2) lookup(2)] lookup(3) by simp
  have c: "sound (sharedCache s)" using assms(2) by (simp add: inv_def)
  define w where "w = start k (sharedCache s)"
  have s': "s' = s\<lparr>workers := (workers s)[i := w], sharedCache := sharedCache s\<rparr>" using lookup(1) by (simp add: w_def)
  from start_contract [OF c k, folded w_def]
  have "worker_ok w \<and> w \<noteq> Exited \<and> flight w = flight (workers s ! i) \<and> weight w < weight (workers s ! i)"
    using lookup(3) by auto
  then show ?thesis
    using moved [OF assms(2) lookup(2), of w "sharedCache s"] potential_update [OF lookup(2), where w = w and c = "sharedCache s"] c unfolding s' by simp
next
  case (execute i b w c)
  have b: "ok b" "left b \<le> limit" using worker_at [OF assms(2) execute(2)] execute(3) by simp_all
  have c: "sound (sharedCache s)" using assms(2) by (simp add: inv_def)
  from run_contract [OF c b(1) execute(4)]
  have "sound c" "worker_ok w \<and> w \<noteq> Exited \<and> flight w = flight (workers s ! i) \<and> weight w < weight (workers s ! i)"
    using execute(3) b(2) by auto
  then show ?thesis
    using moved [OF assms(2) execute(2), of w c] potential_update [OF execute(2), where w = w and c = c] unfolding execute(1) by simp
next
  case (receive i v)
  have "potential s' < potential s"
    using potential_update [OF receive(4), where w = "if v = None then Idle else Exited" and c = "sharedCache s"] receive(5)
    unfolding receive(1) potential_other(1) [where c = "sharedCache s"] by (cases v) simp_all
  then show ?thesis using inv_receive [OF assms(2) receive(2-5)] receive(1) by blast
next
  case (discard i v)
  have "potential s' < potential s"
    using potential_update [OF discard(3), where w = "if v = None then Idle else Exited" and c = "sharedCache s"] discard(4)
    unfolding discard(1) potential_other(2) [where c = "sharedCache s"] by (cases v) simp_all
  then show ?thesis using inv_done [OF assms(2) discard(2), of "if v = None then Idle else Exited" i] discard(1) by simp
next
  case (quit i)
  have "potential s' < potential s"
    using potential_update [OF quit(3), where w = Exited and c = "sharedCache s"] quit(4)
    unfolding quit(1) potential_other(2) [where c = "sharedCache s"] by simp
  then show ?thesis using inv_done [OF assms(2) quit(2), of Exited i] quit(1) by simp
qed

lemma no_deadlock:
  assumes "inv s" "\<not> finished s"
  shows "\<exists>s'. validateStep numInputs start run s s'"
proof (cases "\<exists>i < length (workers s). workers s ! i \<noteq> Idle \<and> workers s ! i \<noteq> Exited")
  case True
  then obtain i where i: "i < length (workers s)" "workers s ! i \<noteq> Idle" "workers s ! i \<noteq> Exited" by blast
  show ?thesis
  proof (cases "workers s ! i")
    case (Got k)
    then show ?thesis using i by (blast intro: lookup)
  next
    case (Busy b)
    then show ?thesis using i execute [of i s b run] by (metis prod.exhaust)
  next
    case (Sending v)
    show ?thesis
    proof (cases "returned s")
      case None
      then have "processedItems s < numInputs" using assms(1) by (simp add: inv_def)
      then show ?thesis using None i Sending by (blast intro: receive)
    next
      case (Some r)
      then show ?thesis using i Sending by (metis discard option.distinct(1))
    qed
  next
    case Panicked
    then show ?thesis using worker_at [OF assms(1) i(1)] by simp
  qed (use i in simp_all)
next
  case False
  then have quiet: "\<And>i. i < length (workers s) \<Longrightarrow> workers s ! i = Idle \<or> workers s ! i = Exited" by blast
  show ?thesis
  proof (cases "returned s")
    case None
    then have b: "processedItems s < numInputs" "workers s \<noteq> []" "Exited \<notin> set (workers s)" using assms(1) by (simp_all add: inv_def)
    then have idle: "\<And>w. w \<in> set (workers s) \<Longrightarrow> w = Idle" using quiet by (metis in_set_conv_nth)
    then have "sum_list (map flight (workers s)) = {#}" by (intro sum_list_flight_idle)
    then have "currentItem s = processedItems s" using flight_size [OF assms(1) None] by simp
    then show ?thesis using None b idle send [of s numInputs 0] by (metis length_greater_0_conv nth_mem)
  next
    case (Some r)
    then obtain w where "w \<in> set (workers s)" "w \<noteq> Exited" using assms(2) by (auto simp: finished_def list_all_iff)
    then obtain i where "i < length (workers s)" "workers s ! i = Idle" using quiet by (metis in_set_conv_nth)
    then show ?thesis using Some by (metis quit option.distinct(1))
  qed
qed

lemma inv_Validate: "sound c \<Longrightarrow> inv (Validate numCPU numInputs c)"
  using sum_list_flight_idle [of "replicate _ Idle"] by (auto simp: inv_def Validate_def Let_def list_all_iff simp del: map_replicate)

lemma potential_Validate: "potential (Validate numCPU numInputs c) \<le> numInputs * (limit + 5)"
  by (auto simp: potential_def Validate_def Let_def sum_list_replicate algebra_simps)

definition correct :: "('b, 'c) validator \<Rightarrow> bool" where
  "correct s = (case returned s of
       None \<Rightarrow> False
     | Some None \<Rightarrow> \<forall>k < numInputs. expected k = None
     | Some (Some e) \<Rightarrow> \<exists>k < numInputs. expected k = Some e)"

lemma inv_correct: "inv s \<Longrightarrow> finished s \<Longrightarrow> correct s \<and> sound (sharedCache s)"
  by (auto simp: inv_def finished_def correct_def split: option.splits)

lemma inevitable_result:
  assumes "inv s"
  shows "inevitable (validateStep numInputs start run) (\<lambda>s. finished s \<and> correct s \<and> sound (sharedCache s)) s"
  using assms
proof (induction "potential s" arbitrary: s rule: less_induct)
  case less
  show ?case
  proof (cases "finished s")
    case True
    then show ?thesis using inv_correct [OF less.prems] by (blast intro: inevitable.now)
  next
    case False
    show ?thesis
    proof (rule inevitable.later)
      show "\<exists>s'. validateStep numInputs start run s s'" using no_deadlock [OF less.prems False] .
    qed (use step_inv less in blast)
  qed
qed

lemma runs_bounded:
  assumes "(validateStep numInputs start run ^^ m) s s'" "inv s"
  shows "inv s' \<and> m + potential s' \<le> potential s"
  using assms(1)
proof (induction m arbitrary: s')
  case 0
  then show ?case using assms(2) by simp
next
  case (Suc m)
  then obtain t where "(validateStep numInputs start run ^^ m) s t" "validateStep numInputs start run t s'" by auto
  then show ?case using Suc.IH step_inv by fastforce
qed

end

section \<open>Checking an input\<close>

definition startItem :: "UtxoViewpoint \<Rightarrow> ScriptFlags \<Rightarrow> txValidateItem list \<Rightarrow> nat \<Rightarrow> SigCache option \<Rightarrow> Engine worker" where
  "startItem view fs items k sc =
     (let txVI = items ! k in
      case LookupEntry view (PreviousOutPoint (vi_txIn txVI)) of
        None \<Rightarrow> Sending (Some (ruleError ErrMissingTxOut))
      | Some utxo \<Rightarrow>
          (case NewEngine (ue_pkScript utxo) (vi_tx txVI) (vi_txInIndex txVI) fs sc (vi_sigHashes txVI) (ue_amount utxo) of
             Inl err \<Rightarrow> if err = GoPanic then Panicked else Sending (Some (ruleError ErrScriptMalformed))
           | Inr vm \<Rightarrow> Busy vm))"

text \<open>The end of an execution: its result, as the rule error that is sent.\<close>

definition executed :: "script_err + unit \<Rightarrow> 'b worker" where
  "executed r = (case r of
     Inl err \<Rightarrow> if err = GoPanic then Panicked else Sending (Some (ruleError ErrScriptValidation))
   | Inr _ \<Rightarrow> Sending None)"

text \<open>One turn of the loop of \<open>Execute\<close>; all engines share the signature cache.\<close>

definition runItem :: "crypto \<Rightarrow> Engine \<Rightarrow> SigCache option \<Rightarrow> Engine worker \<times> SigCache option" where
  "runItem C vm sc =
     (case Step C (vm\<lparr>sigCache := sc\<rparr>) of (r, vm') \<Rightarrow>
        (case r of
           Inl err \<Rightarrow> executed (Inl err)
         | Inr done \<Rightarrow> if \<not> done then Busy vm' else executed (fst (CheckErrorCondition True vm')),
         sigCache vm'))"

section \<open>The inputs of transactions\<close>

definition segwitActive :: "ScriptFlags \<Rightarrow> bool" where
  "segwitActive fs = (fs AND ScriptVerifyWitness = ScriptVerifyWitness)"

definition txItems :: "MsgTx \<Rightarrow> TxSigHashes option \<Rightarrow> txValidateItem list" where
  "txItems tx cachedHashes =
     map (\<lambda>(txInIdx, txIn). \<lparr>vi_txInIndex = int txInIdx, vi_txIn = txIn, vi_tx = tx, vi_sigHashes = cachedHashes\<rparr>)
       (filter (\<lambda>(txInIdx, txIn). Index (PreviousOutPoint txIn) \<noteq> 0xffffffff) (enumerate 0 (TxIns tx)))"

text \<open>The cache of signature hashes is a pointer, which a single transaction uses without a test for nil.\<close>

definition transactionItems :: "ScriptFlags \<Rightarrow> MsgTx \<Rightarrow> HashCache option \<Rightarrow> chain_err + txValidateItem list \<times> HashCache option" where
  "transactionItems fs tx hc =
     (if segwitActive fs \<and> HasWitness tx then
        (case hc of
           None \<Rightarrow> Inl ChainPanic
         | Some h \<Rightarrow>
             let h = (if \<not> ContainsHashes (TxHash tx) h then AddSigHashes tx h else h) in
             Inr (txItems tx (GetSigHashes (TxHash tx) h), Some h))
      else Inr (txItems tx None, hc))"

fun blockItems :: "ScriptFlags \<Rightarrow> MsgTx list \<Rightarrow> HashCache option \<Rightarrow> txValidateItem list \<times> HashCache option" where
  "blockItems fs [] hc = ([], hc)"
| "blockItems fs (tx # txs) hc =
     (let hc = (case hc of
                  Some h \<Rightarrow> if segwitActive fs \<and> HasWitness tx \<and> \<not> ContainsHashes (TxHash tx) h then Some (AddSigHashes tx h) else hc
                | None \<Rightarrow> None);
          cachedHashes = (if segwitActive fs \<and> HasWitness tx then
                            (case hc of Some h \<Rightarrow> GetSigHashes (TxHash tx) h | None \<Rightarrow> Some (NewTxSigHashes tx))
                          else None);
          (items, hc) = blockItems fs txs hc in
      (txItems tx cachedHashes @ items, hc))"

definition purgeBlock :: "ScriptFlags \<Rightarrow> MsgTx list \<Rightarrow> HashCache option \<Rightarrow> HashCache option" where
  "purgeBlock fs txs hc =
     (case hc of
        Some h \<Rightarrow> if segwitActive fs then Some (fold (\<lambda>tx h. if HasWitness tx then PurgeSigHashes (TxHash tx) h else h) txs h) else hc
      | None \<Rightarrow> None)"

abbreviation validatorStep :: "crypto \<Rightarrow> UtxoViewpoint \<Rightarrow> ScriptFlags \<Rightarrow> txValidateItem list \<Rightarrow>
    (Engine, SigCache option) validator \<Rightarrow> (Engine, SigCache option) validator \<Rightarrow> bool" where
  "validatorStep C view fs items \<equiv> validateStep (length items) (startItem view fs items) (runItem C)"

text \<open>
  What the two entry points may return, with the caches after it: the order in which the workers
  run is left open.
\<close>

inductive ValidateTransactionScripts :: "crypto \<Rightarrow> int \<Rightarrow> MsgTx \<Rightarrow> UtxoViewpoint \<Rightarrow> ScriptFlags \<Rightarrow> SigCache option \<Rightarrow>
    HashCache option \<Rightarrow> chain_err + unit \<Rightarrow> SigCache option \<Rightarrow> HashCache option \<Rightarrow> bool" for C numCPU tx view fs sc hc where
  nil_cache: "transactionItems fs tx hc = Inl e \<Longrightarrow> ValidateTransactionScripts C numCPU tx view fs sc hc (Inl e) sc hc"
| validated: "transactionItems fs tx hc = Inr (items, hc') \<Longrightarrow>
    (validatorStep C view fs items)\<^sup>*\<^sup>* (Validate numCPU (length items) sc) s \<Longrightarrow> returned s = Some v \<Longrightarrow>
    ValidateTransactionScripts C numCPU tx view fs sc hc (case v of None \<Rightarrow> Inr () | Some e \<Rightarrow> Inl e) (sharedCache s) hc'"

inductive checkBlockScripts :: "crypto \<Rightarrow> int \<Rightarrow> MsgTx list \<Rightarrow> UtxoViewpoint \<Rightarrow> ScriptFlags \<Rightarrow> SigCache option \<Rightarrow>
    HashCache option \<Rightarrow> chain_err + unit \<Rightarrow> SigCache option \<Rightarrow> HashCache option \<Rightarrow> bool" for C numCPU txs view fs sc hc where
  failed: "blockItems fs txs hc = (items, hc') \<Longrightarrow>
    (validatorStep C view fs items)\<^sup>*\<^sup>* (Validate numCPU (length items) sc) s \<Longrightarrow> returned s = Some (Some e) \<Longrightarrow>
    checkBlockScripts C numCPU txs view fs sc hc (Inl e) (sharedCache s) hc'"
| passed: "blockItems fs txs hc = (items, hc') \<Longrightarrow>
    (validatorStep C view fs items)\<^sup>*\<^sup>* (Validate numCPU (length items) sc) s \<Longrightarrow> returned s = Some None \<Longrightarrow>
    checkBlockScripts C numCPU txs view fs sc hc (Inr ()) (sharedCache s) (purgeBlock fs txs hc')"

section \<open>The reference: one input after the other, without caches\<close>

definition inputVerdict :: "crypto \<Rightarrow> UtxoViewpoint \<Rightarrow> ScriptFlags \<Rightarrow> MsgTx \<times> nat \<Rightarrow> verdict" where
  "inputVerdict C view fs = (\<lambda>(tx, i).
     case LookupEntry view (PreviousOutPoint (TxIns tx ! i)) of
       None \<Rightarrow> Some (ruleError ErrMissingTxOut)
     | Some utxo \<Rightarrow>
         (case NewEngine (ue_pkScript utxo) tx (int i) fs None None (ue_amount utxo) of
            Inl _ \<Rightarrow> Some (ruleError ErrScriptMalformed)
          | Inr vm \<Rightarrow>
              (case Execute C vm of
                 Some (Inr _, _) \<Rightarrow> None
               | _ \<Rightarrow> Some (ruleError ErrScriptValidation))))"

definition spendingInputs :: "MsgTx list \<Rightarrow> (MsgTx \<times> nat) list" where
  "spendingInputs txs = concat (map (\<lambda>tx. map (Pair tx)
     (filter (\<lambda>i. Index (PreviousOutPoint (TxIns tx ! i)) \<noteq> 0xffffffff) [0..<length (TxIns tx)])) txs)"

definition item_ok :: "txValidateItem \<Rightarrow> bool" where
  "item_ok it = (tx_small (vi_tx it) \<and> 0 \<le> vi_txInIndex it \<and> nat (vi_txInIndex it) < length (TxIns (vi_tx it)) \<and>
     vi_txIn it = TxIns (vi_tx it) ! nat (vi_txInIndex it) \<and>
     (\<forall>h. vi_sigHashes it = Some h \<longrightarrow> h = NewTxSigHashes (vi_tx it)))"

definition itemInput :: "txValidateItem \<Rightarrow> MsgTx \<times> nat" where
  "itemInput it = (vi_tx it, nat (vi_txInIndex it))"

section \<open>The engine keeps the contract\<close>

definition engine_ok :: "Engine \<Rightarrow> bool" where
  "engine_ok vm = (run_ok vm \<and> (\<forall>h. hashCache vm = Some h \<longrightarrow> h = NewTxSigHashes (vm_tx vm)))"

definition engineVerdict :: "crypto \<Rightarrow> Engine \<Rightarrow> verdict" where
  "engineVerdict C vm = (case Execute C (forgetCaches vm) of
     Some (Inr _, _) \<Rightarrow> None | _ \<Rightarrow> Some (ruleError ErrScriptValidation))"

definition sig_sound :: "crypto \<Rightarrow> SigCache option \<Rightarrow> bool" where
  "sig_sound C sc = (\<forall>c. sc = Some c \<longrightarrow> cache_sound (Signature_Verify C) c)"

lemma run_ok_sigCache: "run_ok (vm\<lparr>sigCache := sc\<rparr>) = run_ok vm" "steps_left (vm\<lparr>sigCache := sc\<rparr>) = steps_left vm"
    "forgetCaches (vm\<lparr>sigCache := sc\<rparr>) = forgetCaches vm"
  by (simp_all add: run_ok_def vm_ok_def saved_ok_def bip_ok_def steps_left_def scripts_left_def forgetCaches_def)

lemma startItem_contract:
  assumes "item_ok (items ! k)"
  shows "(\<exists>vm. startItem view fs items k sc = Busy vm \<and> engine_ok vm \<and>
       engineVerdict C vm = inputVerdict C view fs (itemInput (items ! k)) \<and> steps_left vm \<le> 40000)
    \<or> startItem view fs items k sc = Sending (inputVerdict C view fs (itemInput (items ! k)))"
proof -
  define it where "it = items ! k"
  have it: "tx_small (vi_tx it)" "int (nat (vi_txInIndex it)) = vi_txInIndex it" "vi_txIn it = TxIns (vi_tx it) ! nat (vi_txInIndex it)"
    "\<And>h. vi_sigHashes it = Some h \<Longrightarrow> h = NewTxSigHashes (vi_tx it)" using assms by (simp_all add: item_ok_def it_def)
  show ?thesis
  proof (cases "LookupEntry view (PreviousOutPoint (vi_txIn it))")
    case None
    then show ?thesis using it(3) by (simp add: startItem_def inputVerdict_def itemInput_def it_def [symmetric])
  next
    case (Some utxo)
    define r where "r = NewEngine (ue_pkScript utxo) (vi_tx it) (vi_txInIndex it) fs sc (vi_sigHashes it) (ue_amount utxo)"
    have p: "NewEngine (ue_pkScript utxo) (vi_tx it) (vi_txInIndex it) fs None None (ue_amount utxo) = map_sum id forgetCaches r"
      unfolding r_def by (rule NewEngine_forget)
    have v: "inputVerdict C view fs (itemInput it) = (case map_sum id forgetCaches r of
        Inl _ \<Rightarrow> Some (ruleError ErrScriptMalformed)
      | Inr vm \<Rightarrow> (case Execute C vm of Some (Inr _, _) \<Rightarrow> None | _ \<Rightarrow> Some (ruleError ErrScriptValidation)))"
      using Some it(2,3) p by (simp add: inputVerdict_def itemInput_def)
    have st: "startItem view fs items k sc = (case r of
        Inl err \<Rightarrow> if err = GoPanic then Panicked else Sending (Some (ruleError ErrScriptMalformed)) | Inr vm \<Rightarrow> Busy vm)"
      using Some by (simp add: startItem_def it_def [symmetric] r_def)
    show ?thesis
    proof (cases r)
      case (Inl e)
      moreover have "r \<noteq> Inl GoPanic" unfolding r_def by (rule NewEngine_safe)
      ultimately show ?thesis using v st by (simp add: it_def)
    next
      case (Inr vm)
      have "run_ok vm" "scriptOff vm = 0" "scripts_left vm \<le> 4" using NewEngine_run_ok [OF Inr [unfolded r_def] it(1)] by simp_all
      moreover have "hashCache vm = vi_sigHashes it" "vm_tx vm = vi_tx it" using NewEngine_caches [OF Inr [unfolded r_def]] by simp_all
      ultimately have "engine_ok vm" "steps_left vm \<le> 40000"
        using it(4) by (simp_all add: engine_ok_def steps_left_def MaxScriptSize_def)
      moreover have "engineVerdict C vm = inputVerdict C view fs (itemInput it)" using v Inr by (simp add: engineVerdict_def)
      ultimately show ?thesis using st Inr by (simp add: it_def)
    qed
  qed
qed

lemma runItem_contract:
  assumes "crypto_ok C" "sig_sound C sc" "engine_ok vm" "runItem C vm sc = (w, sc')"
  shows "sig_sound C sc' \<and> ((\<exists>vm'. w = Busy vm' \<and> engine_ok vm' \<and> engineVerdict C vm' = engineVerdict C vm \<and> steps_left vm' < steps_left vm)
    \<or> w = Sending (engineVerdict C vm))"
proof -
  define vm0 where "vm0 = vm\<lparr>sigCache := sc\<rparr>"
  have vm0: "run_ok vm0" "caches_ok C vm0" "forgetCaches vm0 = forgetCaches vm" "steps_left vm0 = steps_left vm"
    using assms(2,3) by (simp_all add: vm0_def run_ok_sigCache engine_ok_def caches_ok_def sig_sound_def)
  obtain r vm' where s: "Step C vm0 = (r, vm')" by fastforce
  have b: "caches_ok C vm'" "Step C (forgetCaches vm) = (r, forgetCaches vm')"
    using cb.blindD [OF blind_Step vm0(2) s] vm0(3) by auto
  have sc': "sc' = sigCache vm'" "sig_sound C sc'" using assms(4) s b(1)
    by (auto simp: runItem_def vm0_def [symmetric] sig_sound_def caches_ok_def)
  note ok = Step_ok [OF assms(1) vm0(1) s]
  show ?thesis
  proof (cases r)
    case (Inl e)
    then have "w = Sending (Some (ruleError ErrScriptValidation))"
      using assms(4) s ok by (simp add: runItem_def vm0_def [symmetric] executed_def)
    then show ?thesis using sc' b Inl by (simp add: engineVerdict_def Execute.simps [of C "forgetCaches vm"])
  next
    case (Inr d)
    show ?thesis
    proof (cases d)
      case True
      obtain r2 vm2 where c: "CheckErrorCondition True vm' = (r2, vm2)" by fastforce
      then have f: "CheckErrorCondition True (forgetCaches vm') = (r2, forgetCaches vm2)"
        using cb.blindD [OF blind_CheckErrorCondition b(1)] by blast
      have "elems_ok (dstack vm')" using ok Inr by simp
      from c this have np: "r2 \<noteq> Inl GoPanic" by (cases rule: CheckErrorCondition_cases) auto
      have "w = executed r2" using assms(4) s Inr True c by (simp add: runItem_def vm0_def [symmetric])
      then have "w = Sending (engineVerdict C vm)"
        using np b Inr True f by (cases r2) (auto simp: executed_def engineVerdict_def Execute.simps [of C "forgetCaches vm"])
      then show ?thesis using sc' by blast
    next
      case False
      then have "w = Busy vm'" using assms(4) s Inr by (simp add: runItem_def vm0_def [symmetric])
      moreover have "engineVerdict C vm' = engineVerdict C vm"
        using b Inr False by (simp add: engineVerdict_def Execute.simps [of C "forgetCaches vm"])
      ultimately show ?thesis using sc' ok Inr False b(1) vm0(4) by (simp add: engine_ok_def caches_ok_def)
    qed
  qed
qed

interpretation sv: item_check "length items" "startItem view fs items" "runItem C"
    "\<lambda>k. inputVerdict C view fs (itemInput (items ! k))" engine_ok "engineVerdict C" steps_left 40000
    "\<lambda>sc. crypto_ok C \<and> list_all item_ok items \<and> sig_sound C sc" for C view fs items
proof
  show "(\<exists>b. startItem view fs items k c = Busy b \<and> engine_ok b \<and>
         engineVerdict C b = inputVerdict C view fs (itemInput (items ! k)) \<and> steps_left b \<le> 40000) \<or>
     startItem view fs items k c = Sending (inputVerdict C view fs (itemInput (items ! k)))"
    if "crypto_ok C \<and> list_all item_ok items \<and> sig_sound C c" "k < length items" for c k
    using that by (intro startItem_contract) (simp add: list_all_length)
  show "(crypto_ok C \<and> list_all item_ok items \<and> sig_sound C c') \<and>
     ((\<exists>b'. w = Busy b' \<and> engine_ok b' \<and> engineVerdict C b' = engineVerdict C b \<and> steps_left b' < steps_left b) \<or>
      w = Sending (engineVerdict C b))"
    if "crypto_ok C \<and> list_all item_ok items \<and> sig_sound C c" "engine_ok b" "runItem C b c = (w, c')" for c b w c'
    using that runItem_contract [of C c b w c'] by blast
qed

section \<open>The items of a block\<close>

definition hash_sound :: "MsgTx list \<Rightarrow> HashCache option \<Rightarrow> bool" where
  "hash_sound txs hc = (\<forall>h. hc = Some h \<longrightarrow> list_all (\<lambda>tx. \<forall>x. h (TxHash tx) = Some x \<longrightarrow> x = NewTxSigHashes tx) txs)"

lemma enumerate_upt: "enumerate 0 xs = map (\<lambda>i. (i, xs ! i)) [0..<length xs]"
  by (rule nth_equalityI) (simp_all add: nth_enumerate_eq)

lemma txItems_inputs: "map itemInput (txItems tx h) = spendingInputs [tx]"
  by (simp add: txItems_def spendingInputs_def enumerate_upt filter_map comp_def itemInput_def)

lemma txItems_ok:
  assumes "tx_small tx" "\<And>x. h = Some x \<Longrightarrow> x = NewTxSigHashes tx"
  shows "list_all item_ok (txItems tx h)"
  using assms by (auto simp: txItems_def enumerate_upt filter_map list_all_iff item_ok_def)

lemma spendingInputs_Cons: "spendingInputs (tx # txs) = spendingInputs [tx] @ spendingInputs txs"
  by (simp add: spendingInputs_def)

lemma blockItems_ok:
  assumes "blockItems fs txs hc = (items, hc')" "list_all tx_small txs" "distinct (map TxHash txs)" "hash_sound txs hc"
  shows "list_all item_ok items \<and> map itemInput items = spendingInputs txs"
  using assms
proof (induction txs arbitrary: hc items hc')
  case Nil
  then show ?case by (simp add: spendingInputs_def)
next
  case (Cons tx txs)
  define hc1 where "hc1 = (case hc of
      Some h \<Rightarrow> if segwitActive fs \<and> HasWitness tx \<and> \<not> ContainsHashes (TxHash tx) h then Some (AddSigHashes tx h) else hc
    | None \<Rightarrow> None)"
  define cached where "cached = (if segwitActive fs \<and> HasWitness tx then
      (case hc1 of Some h \<Rightarrow> GetSigHashes (TxHash tx) h | None \<Rightarrow> Some (NewTxSigHashes tx)) else None)"
  obtain its where its: "blockItems fs txs hc1 = (its, hc')" "items = txItems tx cached @ its"
    using Cons.prems(1) by (auto simp: Let_def hc1_def [symmetric] cached_def [symmetric] split: prod.splits)
  have s: "hash_sound (tx # txs) hc1"
  proof -
    have "TxHash t \<noteq> TxHash tx" if "t \<in> set txs" for t using Cons.prems(3) that by (metis distinct.simps(2) imageI list.set_map list.simps(9))
    then show ?thesis using Cons.prems(4)
      by (auto simp: hash_sound_def hc1_def AddSigHashes_def list_all_iff split: option.splits if_splits)
  qed
  then have "\<And>x. cached = Some x \<Longrightarrow> x = NewTxSigHashes tx"
    by (auto simp: cached_def GetSigHashes_def hash_sound_def split: if_splits option.splits)
  then have t: "list_all item_ok (txItems tx cached)" using Cons.prems(2) by (intro txItems_ok) simp_all
  have "hash_sound txs hc1" using s by (simp add: hash_sound_def)
  then show ?case using Cons.IH [OF its(1)] Cons.prems(2,3) its(2) t
    by (simp add: txItems_inputs spendingInputs_Cons [of tx txs])
qed

section \<open>What the validation of a block returns\<close>

definition right_verdict :: "crypto \<Rightarrow> UtxoViewpoint \<Rightarrow> ScriptFlags \<Rightarrow> MsgTx list \<Rightarrow> verdict \<Rightarrow> bool" where
  "right_verdict C view fs txs v = (case v of
     None \<Rightarrow> list_all (\<lambda>i. inputVerdict C view fs i = None) (spendingInputs txs)
   | Some e \<Rightarrow> list_ex (\<lambda>i. inputVerdict C view fs i = Some e) (spendingInputs txs))"

lemma correct_verdict:
  assumes "sv.correct items C view fs s" "map itemInput items = spendingInputs txs"
  shows "\<exists>v. returned s = Some v \<and> right_verdict C view fs txs v"
proof -
  have n: "length items = length (spendingInputs txs)" "\<And>k. k < length items \<Longrightarrow> itemInput (items ! k) = spendingInputs txs ! k"
    using assms(2) by (metis length_map, metis nth_map)
  obtain v where v: "returned s = Some v" using assms(1) by (cases "returned s") (simp_all add: sv.correct_def)
  then show ?thesis using assms(1) n(2) unfolding sv.correct_def
    by (cases v) (auto simp: right_verdict_def list_all_length list_ex_length n(1) [symmetric])
qed

lemma inevitable_mono: "inevitable R P s \<Longrightarrow> (\<And>s. P s \<Longrightarrow> Q s) \<Longrightarrow> inevitable R Q s"
  by (induction rule: inevitable.induct) (auto intro: inevitable.intros)

lemma inevitable_reached: "inevitable R P s \<Longrightarrow> \<exists>s'. R\<^sup>*\<^sup>* s s' \<and> P s'"
  by (induction rule: inevitable.induct) (blast intro: converse_rtranclp_into_rtranclp)+

lemma block_start:
  assumes "crypto_ok C" "list_all tx_small txs" "distinct (map TxHash txs)" "sig_sound C sc" "hash_sound txs hc"
    "blockItems fs txs hc = (items, hc')"
  shows "sv.inv items C view fs (Validate numCPU (length items) sc)" "map itemInput items = spendingInputs txs"
  using blockItems_ok [OF assms(6,2,3,5)] assms(1,4) sv.inv_Validate [of C items sc view fs numCPU] by auto

lemma run_inv: "(validatorStep C view fs items)\<^sup>*\<^sup>* s s' \<Longrightarrow> sv.inv items C view fs s \<Longrightarrow> sv.inv items C view fs s'"
  by (induction rule: rtranclp_induct) (use sv.step_inv in blast)+

lemma inv_verdict:
  assumes "sv.inv items C view fs s" "returned s = Some v" "map itemInput items = spendingInputs txs"
  shows "right_verdict C view fs txs v \<and> sig_sound C (sharedCache s)"
proof -
  have "sv.correct items C view fs s" using assms(1,2) by (auto simp: sv.inv_def sv.correct_def split: option.splits)
  then obtain v' where "returned s = Some v'" "right_verdict C view fs txs v'" using correct_verdict [OF _ assms(3)] by blast
  then show ?thesis using assms(1,2) by (simp add: sv.inv_def)
qed

text \<open>
  C6: Whatever the schedule, the validation of the scripts of a block ends: from its start every run
  reaches a state in which all workers have left their loops and the result is right, no run gets
  stuck before, and no run takes more than 40,005 steps for each input.
\<close>

theorem script_validation_live:
  assumes "crypto_ok C" "list_all tx_small txs" "distinct (map TxHash txs)" "sig_sound C sc" "hash_sound txs hc"
    "blockItems fs txs hc = (items, hc')"
  shows "inevitable (validatorStep C view fs items)
      (\<lambda>s. finished s \<and> (\<exists>v. returned s = Some v \<and> right_verdict C view fs txs v)) (Validate numCPU (length items) sc)
    \<and> (\<forall>m s. (validatorStep C view fs items ^^ m) (Validate numCPU (length items) sc) s \<longrightarrow> m \<le> 40005 * length items)"
proof
  show "inevitable (validatorStep C view fs items)
      (\<lambda>s. finished s \<and> (\<exists>v. returned s = Some v \<and> right_verdict C view fs txs v)) (Validate numCPU (length items) sc)"
    by (rule inevitable_mono [OF sv.inevitable_result [OF block_start(1) [OF assms]]])
      (use correct_verdict block_start(2) [OF assms] in blast)
  show "\<forall>m s. (validatorStep C view fs items ^^ m) (Validate numCPU (length items) sc) s \<longrightarrow> m \<le> 40005 * length items"
  proof (intro allI impI)
    fix m s assume "(validatorStep C view fs items ^^ m) (Validate numCPU (length items) sc) s"
    from sv.runs_bounded [OF this block_start(1) [OF assms]]
    have "m \<le> sv.potential items (Validate numCPU (length items) sc)" by simp
    also have "\<dots> \<le> 40005 * length items" using sv.potential_Validate [of items numCPU sc] by (simp add: mult.commute)
    finally show "m \<le> 40005 * length items" .
  qed
qed

text \<open>
  C12: The validation of the scripts of a block can return, and whatever it returns under any
  schedule and with any sound caches is what checking the inputs one after the other without caches
  gives: success exactly when every input passes, and otherwise the error of one of the inputs.
\<close>

theorem block_scripts_verdict:
  assumes "crypto_ok C" "list_all tx_small txs" "distinct (map TxHash txs)" "sig_sound C sc" "hash_sound txs hc"
  shows "(\<exists>r sc' hc'. checkBlockScripts C numCPU txs view fs sc hc r sc' hc') \<and>
    (\<forall>r sc' hc'. checkBlockScripts C numCPU txs view fs sc hc r sc' hc' \<longrightarrow>
      (r = Inr () \<longleftrightarrow> list_all (\<lambda>i. inputVerdict C view fs i = None) (spendingInputs txs)) \<and>
      (\<forall>e. r = Inl e \<longrightarrow> list_ex (\<lambda>i. inputVerdict C view fs i = Some e) (spendingInputs txs)) \<and>
      sig_sound C sc')"
proof -
  obtain items hc1 where it: "blockItems fs txs hc = (items, hc1)" by fastforce
  note st = block_start(1) [OF assms it, where view = view and numCPU = numCPU] block_start(2) [OF assms it]
  have ver: "right_verdict C view fs txs v \<and> sig_sound C (sharedCache s)"
    if "(validatorStep C view fs items)\<^sup>*\<^sup>* (Validate numCPU (length items) sc) s" "returned s = Some v" for s v
    using inv_verdict [OF run_inv [OF that(1) st(1)] that(2) st(2)] .
  obtain s v where "(validatorStep C view fs items)\<^sup>*\<^sup>* (Validate numCPU (length items) sc) s" "returned s = Some v"
    using inevitable_reached [OF sv.inevitable_result [OF st(1)]] by (auto simp: finished_def)
  then have "\<exists>r sc' hc'. checkBlockScripts C numCPU txs view fs sc hc r sc' hc'"
    using it by (cases v) (blast intro: checkBlockScripts.intros)+
  moreover have "(r = Inr () \<longleftrightarrow> list_all (\<lambda>i. inputVerdict C view fs i = None) (spendingInputs txs)) \<and>
      (\<forall>e. r = Inl e \<longrightarrow> list_ex (\<lambda>i. inputVerdict C view fs i = Some e) (spendingInputs txs)) \<and> sig_sound C sc'"
    if "checkBlockScripts C numCPU txs view fs sc hc r sc' hc'" for r sc' hc'
    using that
  proof cases
    case (failed items' s e)
    then have "right_verdict C view fs txs (Some e) \<and> sig_sound C sc'" using ver [of s] it by simp
    then show ?thesis using failed by (auto simp: right_verdict_def list_all_iff list_ex_iff)
  next
    case (passed items' hc2 s)
    then have "right_verdict C view fs txs None \<and> sig_sound C sc'" using ver [of s] it by simp
    then show ?thesis using passed by (simp add: right_verdict_def)
  qed
  ultimately show ?thesis by blast
qed

text \<open>When the validation of a block succeeds, every input passes.\<close>

lemma passed_inputs:
  assumes "crypto_ok C" "list_all tx_small txs" "distinct (map TxHash txs)" "sig_sound C sc" "hash_sound txs hc"
    "checkBlockScripts C numCPU txs view fs sc hc (Inr ()) sc' hc'"
  shows "list_all (\<lambda>i. inputVerdict C view fs i = None) (spendingInputs txs)"
  using assms(6)
proof cases
  case (passed items hc2 s)
  note st = block_start(1) [OF assms(1-5) passed(3), where view = view and numCPU = numCPU] block_start(2) [OF assms(1-5) passed(3)]
  show ?thesis using inv_verdict [OF run_inv [OF passed(4) st(1)] passed(5) st(2)] by (simp add: right_verdict_def)
qed

lemma nop_facts:
  "crypto_ok zeroCrypto" "list_all tx_small [nopTx]" "distinct (map TxHash [nopTx])" "sig_sound C None" "hash_sound txs None"
  by (simp_all add: zeroCrypto_def crypto_ok_def nopTx_def tx_small_def sig_sound_def hash_sound_def)

theorem script_validation_live_witness:
  "inevitable (validatorStep zeroCrypto NewUtxoViewpoint 0 (fst (blockItems 0 [nopTx] None)))
      (\<lambda>s. finished s \<and> (\<exists>v. returned s = Some v \<and> right_verdict zeroCrypto NewUtxoViewpoint 0 [nopTx] v))
      (Validate 4 (length (fst (blockItems 0 [nopTx] None))) None)
    \<and> length (fst (blockItems 0 [nopTx] None)) = 1"
  using script_validation_live [OF nop_facts, of 0 "fst (blockItems 0 [nopTx] None)" "snd (blockItems 0 [nopTx] None)" NewUtxoViewpoint 4]
  by (simp add: txItems_def nopTx_def enumerate_eq_zip)

theorem block_scripts_verdict_witness:
  "\<exists>sc' hc'. checkBlockScripts zeroCrypto 4 [nopTx] NewUtxoViewpoint 0 None None (Inl (ruleError ErrMissingTxOut)) sc' hc'"
proof -
  have i: "spendingInputs [nopTx] = [(nopTx, 0)]" by (simp add: spendingInputs_def nopTx_def)
  have v: "inputVerdict zeroCrypto NewUtxoViewpoint 0 (nopTx, 0) = Some (ruleError ErrMissingTxOut)"
    by (simp add: inputVerdict_def LookupEntry_def NewUtxoViewpoint_def)
  note b = block_scripts_verdict [OF nop_facts, of 4 NewUtxoViewpoint 0]
  obtain r sc' hc' where r: "checkBlockScripts zeroCrypto 4 [nopTx] NewUtxoViewpoint 0 None None r sc' hc'"
    using b by blast
  then have "r \<noteq> Inr ()" "\<And>e. r = Inl e \<Longrightarrow> e = ruleError ErrMissingTxOut"
    using conjunct2 [OF b, rule_format, OF r] i v by auto
  then have "r = Inl (ruleError ErrMissingTxOut)" by (cases r) auto
  then show ?thesis using r by blast
qed

end
