(* ===== verification/Chain_Connect.thy ===== *)
theory Chain_Connect
  imports Chain_ScriptVal
begin

text \<open>
  Connecting a block (\<^verbatim>\<open>checkConnectBlock\<close> in \<^verbatim>\<open>src/blockchain/validate.go\<close>, relative lock times in
  \<^verbatim>\<open>src/blockchain/chain.go\<close>, writing of a view in \<^verbatim>\<open>src/blockchain/chainio.go\<close>).  The abstract
  state is the ledger: the map of out points to coins that the database holds.  The lemmas show that
  an accepted block refines the transactions of the ledger, although outputs of the block may be in
  the view before their transaction is connected, and that the money grows by the subsidy at most.
\<close>

unbundle bit_operations_syntax

section \<open>Relative lock times\<close>

record SequenceLock =
  sl_Seconds :: int
  sl_BlockHeight :: "32 word"

text \<open>
  The lock of a single input.  The median time of an ancestor that does not exist reads an empty
  slice.
\<close>

definition inputLock :: "blockNode \<Rightarrow> UtxoViewpoint \<Rightarrow> TxIn \<Rightarrow> SequenceLock \<Rightarrow> chain_err + SequenceLock" where
  "inputLock node utxoView txIn sequenceLock =
     (case LookupEntry utxoView (PreviousOutPoint txIn) of
        None \<Rightarrow> Inl (ruleError ErrMissingTxOut)
      | Some utxo \<Rightarrow>
          let inputHeight = (if ue_blockHeight utxo = 0x7fffffff then height node + 1 else ue_blockHeight utxo);
              sequenceNum = Sequence txIn;
              relativeLock = uint (sequenceNum AND SequenceLockTimeMask) in
          if sequenceNum AND SequenceLockTimeDisabled = SequenceLockTimeDisabled then Inr sequenceLock
          else if sequenceNum AND SequenceLockTimeIsSeconds = SequenceLockTimeIsSeconds then
            let prevInputHeight = (if sint (inputHeight - 1) < 0 then 0 else inputHeight - 1) in
            (case Ancestor node prevInputHeight of
               None \<Rightarrow> Inl ChainPanic
             | Some n \<Rightarrow>
                 let timeLockSeconds = push_bit SequenceLockTimeGranularity relativeLock - 1;
                     timeLock = int64 (CalcPastMedianTime n + timeLockSeconds) in
                 Inr (if timeLock > sl_Seconds sequenceLock then sequenceLock\<lparr>sl_Seconds := timeLock\<rparr> else sequenceLock))
          else
            let blockHeight = inputHeight + word_of_int (relativeLock - 1) in
            Inr (if sint blockHeight > sint (sl_BlockHeight sequenceLock)
                 then sequenceLock\<lparr>sl_BlockHeight := blockHeight\<rparr> else sequenceLock))"

fun sequenceLoop :: "blockNode \<Rightarrow> UtxoViewpoint \<Rightarrow> TxIn list \<Rightarrow> SequenceLock \<Rightarrow> chain_err + SequenceLock" where
  "sequenceLoop node utxoView [] sequenceLock = Inr sequenceLock"
| "sequenceLoop node utxoView (txIn # ins) sequenceLock =
     bindE (inputLock node utxoView txIn sequenceLock) (\<lambda>sequenceLock. sequenceLoop node utxoView ins sequenceLock)"

definition calcSequenceLock :: "blockNode \<Rightarrow> MsgTx \<Rightarrow> UtxoViewpoint \<Rightarrow> bool \<Rightarrow> chain_err + SequenceLock" where
  "calcSequenceLock node tx utxoView mempool =
     (let sequenceLock = \<lparr>sl_Seconds = - 1, sl_BlockHeight = - 1\<rparr>;
          csvSoftforkActive = mempool;
          sequenceLockActive = (sint (Version tx) \<ge> 2 \<and> csvSoftforkActive) in
      if \<not> sequenceLockActive \<or> IsCoinBaseTx tx then Inr sequenceLock
      else sequenceLoop node utxoView (TxIns tx) sequenceLock)"

definition LockTimeToSequence :: "bool \<Rightarrow> 32 word \<Rightarrow> 32 word" where
  "LockTimeToSequence isSeconds locktime =
     (if \<not> isSeconds then locktime
      else SequenceLockTimeIsSeconds OR drop_bit SequenceLockTimeGranularity locktime)"

definition SequenceLockActive :: "SequenceLock \<Rightarrow> 32 word \<Rightarrow> int \<Rightarrow> bool" where
  "SequenceLockActive sequenceLock blockHeight medianTimePast =
     (\<not> (sl_Seconds sequenceLock \<ge> medianTimePast \<or> sint (sl_BlockHeight sequenceLock) \<ge> sint blockHeight))"

section \<open>Transactions that would be overwritten\<close>

definition block91842Hash :: bytes where
  "block91842Hash =
    [0xec, 0xca, 0xe0, 0x00, 0xe3, 0xc8, 0xe4, 0xe0, 0x93, 0x93, 0x63, 0x60, 0x43, 0x1f, 0x3b, 0x76,
    0x03, 0xc5, 0x63, 0xc1, 0xff, 0x61, 0x81, 0x39, 0x0a, 0x4d, 0x0a, 0x00, 0x00, 0x00, 0x00, 0x00]"
definition block91880Hash :: bytes where
  "block91880Hash =
    [0x21, 0xd7, 0x7c, 0xcb, 0x4c, 0x08, 0x38, 0x6a, 0x04, 0xac, 0x01, 0x96, 0xae, 0x10, 0xf6, 0xa1,
    0xd2, 0xc2, 0xa3, 0x77, 0x55, 0x8c, 0xa1, 0x90, 0xf1, 0x43, 0x07, 0x00, 0x00, 0x00, 0x00, 0x00]"

definition isBIP0030Node :: "blockNode \<Rightarrow> bool" where
  "isBIP0030Node node =
     (if height node = 91842 \<and> hash node = block91842Hash then True
      else if height node = 91880 \<and> hash node = block91880Hash then True
      else False)"

text \<open>A computation on the spent outputs (nil when they are not collected) and the view.\<close>

type_synonym 'a connectM = "(SpentTxOut list option \<times> UtxoViewpoint, chain_err, 'a) goM"

definition onView :: "(UtxoViewpoint, chain_err, 'a) goM \<Rightarrow> 'a connectM" where
  "onView m = zoomM snd (\<lambda>view s. (fst s, view)) m"

definition checkBIP0030 :: "utxo_db \<Rightarrow> MsgTx list \<Rightarrow> unit connectM" where
  "checkBIP0030 db txs =
     (let fetchSet = remdups (concat (map (\<lambda>tx. map fst (outPointsOf tx)) txs)) in
      bindM (onView (fetchUtxos db fetchSet)) (\<lambda>_.
      bindM (getM snd) (\<lambda>view.
        failIfM (list_ex (\<lambda>outpoint. case LookupEntry view outpoint of Some utxo \<Rightarrow> \<not> IsSpent utxo | None \<Rightarrow> False) fetchSet)
          (ruleError ErrOverwriteTx))))"

section \<open>Connecting a block\<close>

definition Bip16Activation :: int where "Bip16Activation = 1333238400"

fun sigOpCosts :: "bool \<Rightarrow> UtxoViewpoint \<Rightarrow> (nat \<times> MsgTx) list \<Rightarrow> int \<Rightarrow> chain_err + unit" where
  "sigOpCosts enforceBIP0016 view [] totalSigOpCost = Inr ()"
| "sigOpCosts enforceBIP0016 view ((i, tx) # txs) totalSigOpCost =
     bindE (GetSigOpCost tx (i = 0) view enforceBIP0016 False) (\<lambda>sigOpCost.
       let lastSigOpCost = totalSigOpCost; totalSigOpCost = int64 (totalSigOpCost + sigOpCost) in
       if totalSigOpCost < lastSigOpCost \<or> totalSigOpCost > MaxBlockSigOpsCost then Inl (ruleError ErrTooManySigOps)
       else sigOpCosts enforceBIP0016 view txs totalSigOpCost)"

fun connectWithFees :: "Params \<Rightarrow> 32 word \<Rightarrow> MsgTx list \<Rightarrow> 64 word \<Rightarrow> 64 word connectM" where
  "connectWithFees chainParams nextHeight [] totalFees = returnM totalFees"
| "connectWithFees chainParams nextHeight (tx # txs) totalFees =
     bindM (\<lambda>s. (CheckTransactionInputs tx nextHeight (snd s) chainParams, s)) (\<lambda>txFee.
       let lastTotalFees = totalFees; totalFees = totalFees + txFee in
       if sint totalFees < sint lastTotalFees then raiseM (ruleError ErrBadFees)
       else bindM (\<lambda>(stxos, view). connectTransaction tx nextHeight stxos view) (\<lambda>_.
         connectWithFees chainParams nextHeight txs totalFees))"

definition blockScriptFlags :: "Params \<Rightarrow> blockNode \<Rightarrow> BlockHeader \<Rightarrow> ScriptFlags" where
  "blockScriptFlags chainParams node blockHeader =
     (let scriptFlags = (if n_timestamp (nodeFields node) \<ge> Bip16Activation then ScriptBip16 else 0);
          scriptFlags = (if sint (hVersion blockHeader) \<ge> 3 \<and> sint (height node) \<ge> sint (BIP0066Height chainParams)
            then scriptFlags OR ScriptVerifyDERSignatures else scriptFlags);
          scriptFlags = (if sint (hVersion blockHeader) \<ge> 4 \<and> sint (height node) \<ge> sint (BIP0065Height chainParams)
            then scriptFlags OR ScriptVerifyCheckLockTimeVerify else scriptFlags) in
      scriptFlags OR ScriptVerifyCheckSequenceVerify)"

fun sequenceLocks :: "blockNode \<Rightarrow> UtxoViewpoint \<Rightarrow> int \<Rightarrow> MsgTx list \<Rightarrow> chain_err + unit" where
  "sequenceLocks node view medianTime [] = Inr ()"
| "sequenceLocks node view medianTime (tx # txs) =
     bindE (calcSequenceLock node tx view False) (\<lambda>sequenceLock.
       if \<not> SequenceLockActive sequenceLock (height node) medianTime then Inl (ruleError ErrUnfinalizedTx)
       else sequenceLocks node view medianTime txs)"

text \<open>
  The rules for a block on top of a view.  How the scripts of the block are checked, for which the
  workers may run in any order, is a parameter: a function of the view and the flags.
\<close>

definition checkConnectBlock :: "Params \<Rightarrow> utxo_db \<Rightarrow> (UtxoViewpoint \<Rightarrow> ScriptFlags \<Rightarrow> chain_err + unit) \<Rightarrow>
    blockNode \<Rightarrow> Block \<Rightarrow> unit connectM" where
  "checkConnectBlock chainParams db checkScripts node block =
     bindM (failIfM (hash node = GenesisHash chainParams) (ruleError ErrMissingTxOut)) (\<lambda>_.
     bindM (getM snd) (\<lambda>view.
     bindM (failIfM (bestHash view \<noteq> PrevBlock (Header (msgBlock block))) AssertError) (\<lambda>_.
     bindM (if \<not> isBIP0030Node node \<and> sint (height node) < sint (BIP0034Height chainParams)
            then checkBIP0030 db (blockTxs block) else returnM ()) (\<lambda>_.
     bindM (onView (fetchInputUtxos db block)) (\<lambda>_.
     let enforceBIP0016 = n_timestamp (nodeFields node) \<ge> Bip16Activation; transactions = blockTxs block in
     bindM (\<lambda>s. (sigOpCosts enforceBIP0016 (snd s) (enumerate 0 transactions) 0, s)) (\<lambda>_.
     bindM (connectWithFees chainParams (height node) transactions 0) (\<lambda>totalFees.
     let totalSatoshiOut = totalOut (transactions ! 0);
         expectedSatoshiOut = int64 (CalcBlockSubsidy (height node) chainParams + sint totalFees) in
     bindM (failIfM (sint totalSatoshiOut > expectedSatoshiOut) (ruleError ErrBadCoinbaseValue)) (\<lambda>_.
     let scriptFlags = blockScriptFlags chainParams node (Header (msgBlock block)) in
     (case parent node of
        None \<Rightarrow> raiseM ChainPanic
      | Some p \<Rightarrow>
          bindM (\<lambda>s. (sequenceLocks node (snd s) (CalcPastMedianTime p) transactions, s)) (\<lambda>_.
          bindM (\<lambda>s. (checkScripts (snd s) scriptFlags, s)) (\<lambda>_.
            modifyM (\<lambda>(stxos, view). (stxos, SetBestHash (hash node) view)))))))))))))"

section \<open>Writing the view to the database\<close>

type_synonym utxoSet = "OutPoint \<rightharpoonup> UtxoEntry"

text \<open>What is read back from the stored form of an entry: everything but the flags of the view.\<close>

definition storedEntry :: "UtxoEntry \<Rightarrow> UtxoEntry" where
  "storedEntry entry = entry\<lparr>ue_packedFlags := (if UtxoEntry_IsCoinBase entry then tfCoinBase else 0)\<rparr>"

definition dbPutUtxoView :: "UtxoViewpoint \<Rightarrow> utxoSet \<Rightarrow> utxoSet" where
  "dbPutUtxoView view utxos = (\<lambda>outpoint.
     case entries view outpoint of
       Some (Some entry) \<Rightarrow>
         if \<not> isModified entry then utxos outpoint
         else if IsSpent entry then None
         else Some (storedEntry entry)
     | _ \<Rightarrow> utxos outpoint)"

section \<open>The coins of the database under a view\<close>

definition setCoins :: "utxoSet \<Rightarrow> coins" where
  "setCoins utxos p = map_option stxoOf (utxos p)"

text \<open>The entries of the database have no other flag than that of a coinbase.\<close>

definition stored :: "utxoSet \<Rightarrow> bool" where
  "stored utxos = (\<forall>p e. utxos p = Some e \<longrightarrow> ue_packedFlags e = 0 \<or> ue_packedFlags e = tfCoinBase)"

definition serves :: "utxo_db \<Rightarrow> utxoSet \<Rightarrow> bool" where
  "serves db utxos = (\<forall>p. dbFetchUtxoEntry db p = Inr (utxos p))"

text \<open>An entry of the view that is not modified is as it is in the database.\<close>

definition view_inv :: "utxoSet \<Rightarrow> UtxoViewpoint \<Rightarrow> bool" where
  "view_inv utxos view = (\<forall>p e. entries view p = Some (Some e) \<longrightarrow> \<not> isModified e \<longrightarrow> utxos p = Some e)"

abbreviation under :: "utxoSet \<Rightarrow> UtxoViewpoint \<Rightarrow> coins" where
  "under utxos view \<equiv> setCoins (dbPutUtxoView view utxos)"

lemma stored_flags:
  assumes "stored utxos" "utxos p = Some e"
  shows "\<not> IsSpent e" "\<not> isModified e"
proof -
  have "ue_packedFlags e = 0 \<or> ue_packedFlags e = tfCoinBase" using assms by (simp add: stored_def)
  then show "\<not> IsSpent e" "\<not> isModified e"
    by (auto simp: IsSpent_def isModified_def tfCoinBase_def tfSpent_def tfModified_def)
qed

lemma stored_storedEntry: "ue_packedFlags (storedEntry e) = 0 \<or> ue_packedFlags (storedEntry e) = tfCoinBase"
  by (simp add: storedEntry_def)

lemma stxoOf_storedEntry: "stxoOf (storedEntry e) = stxoOf e"
  by (simp add: stxoOf_def storedEntry_def UtxoEntry_IsCoinBase_def tfCoinBase_def)

lemma stored_dbPut: "stored utxos \<Longrightarrow> stored (dbPutUtxoView view utxos)"
  using stored_storedEntry by (auto simp: stored_def dbPutUtxoView_def split: option.splits if_splits)

lemma under_eq:
  "under utxos view p = (case entries view p of
     Some (Some e) \<Rightarrow> if \<not> isModified e then map_option stxoOf (utxos p) else if IsSpent e then None else Some (stxoOf e)
   | _ \<Rightarrow> map_option stxoOf (utxos p))"
  by (auto simp: setCoins_def dbPutUtxoView_def stxoOf_storedEntry split: option.splits)

lemma coins_under:
  assumes "view_inv utxos view" "coins view p = Some c"
  shows "under utxos view p = Some c"
proof -
  obtain e where "entries view p = Some (Some e)" "\<not> IsSpent e" "c = stxoOf e"
    using assms(2) by (auto simp: coins_def LookupEntry_def split: option.splits if_splits)
  then show ?thesis using assms(1) by (auto simp: under_eq view_inv_def)
qed

lemma isModified_Spend: "\<not> IsSpent e \<Longrightarrow> isModified (Spend e)"
proof -
  have "(w OR (tfSpent OR tfModified)) AND tfModified = tfModified" for w :: "8 word"
    by (rule bit_word_eqI) (auto simp: bit_and_iff bit_or_iff bit_tfModified)
  then show "\<not> IsSpent e \<Longrightarrow> isModified (Spend e)" by (simp add: Spend_def isModified_def)
qed

lemma isModified_new [simp]:
  "isModified \<lparr>ue_amount = a, ue_pkScript = s, ue_blockHeight = h, ue_packedFlags = (if b then tfModified OR tfCoinBase else tfModified)\<rparr>"
  by (simp add: isModified_def tfModified_def tfCoinBase_def)

lemma under_setEntry:
  assumes "isModified e"
  shows "under utxos (setEntry p (Some e) view) = (under utxos view)(p := (if IsSpent e then None else Some (stxoOf e)))"
    "view_inv utxos view \<Longrightarrow> view_inv utxos (setEntry p (Some e) view)"
  using assms by (auto simp: fun_eq_iff under_eq setEntry_def view_inv_def)

lemma under_AddTxOuts:
  "under utxos (AddTxOuts tx h view) = fold (addCoin (IsCoinBaseTx tx) h) (outPointsOf tx) (under utxos view) \<and>
   (view_inv utxos view \<longrightarrow> view_inv utxos (AddTxOuts tx h view))"
proof -
  have one: "under utxos (addTxOut p t cb h v) = addCoin cb h (p, t) (under utxos v) \<and>
      (view_inv utxos v \<longrightarrow> view_inv utxos (addTxOut p t cb h v))" for p t cb v
    by (simp add: addTxOut_def addCoin_def under_setEntry stxoOf_def)
  have "under utxos (fold (\<lambda>(p, t). addTxOut p t cb h) ps v) = fold (addCoin cb h) ps (under utxos v) \<and>
      (view_inv utxos v \<longrightarrow> view_inv utxos (fold (\<lambda>(p, t). addTxOut p t cb h) ps v))" for cb ps v
  proof (induction ps arbitrary: v)
    case (Cons q ps)
    obtain p t where q: "q = (p, t)" by (cases q)
    then show ?case using Cons.IH [of "addTxOut p t cb h v"] one [of p t cb v] by simp
  qed simp
  then show ?thesis by (simp add: AddTxOuts_def)
qed

lemma under_spendInputs:
  assumes "distinct (map PreviousOutPoint ins)" "\<forall>i \<in> set ins. coins view (PreviousOutPoint i) \<noteq> None" "view_inv utxos view"
  shows "\<exists>st' view'. spendInputs ins st view = (Inr (), st', view') \<and>
    under utxos view' = under utxos view |` (- set (map PreviousOutPoint ins)) \<and> view_inv utxos view'"
  using assms
proof (induction ins arbitrary: st view)
  case (Cons i ins)
  obtain e where e: "LookupEntry view (PreviousOutPoint i) = Some e" "\<not> IsSpent e"
    using Cons.prems(2) coins_lookup [of "PreviousOutPoint i" view] by auto
  define v where "v = setEntry (PreviousOutPoint i) (Some (Spend e)) view"
  have v: "under utxos v = (under utxos view)(PreviousOutPoint i := None)" "view_inv utxos v"
    using under_setEntry [OF isModified_Spend [OF e(2)]] Cons.prems(3) by (simp_all add: v_def)
  have "PreviousOutPoint j \<noteq> PreviousOutPoint i" if "j \<in> set ins" for j
    using Cons.prems(1) imageI [OF that, of PreviousOutPoint] by (metis distinct.simps(2) list.simps(9) set_map)
  then have "\<forall>j \<in> set ins. coins v (PreviousOutPoint j) \<noteq> None"
    using Cons.prems(2) by (simp add: v_def coins_setEntry)
  from Cons.IH [OF _ this v(2), of "map_option (\<lambda>s. s @ [stxoOf e]) st"] Cons.prems(1)
  obtain st' v' where "spendInputs ins (map_option (\<lambda>s. s @ [stxoOf e]) st) v = (Inr (), st', v')"
    "under utxos v' = under utxos v |` (- set (map PreviousOutPoint ins))" "view_inv utxos v'" by auto
  then show ?case using e(1) unfolding v(1) restrict_upd_None by (simp add: v_def)
qed simp

lemma under_connectTransaction:
  assumes "distinct (inputsOf tx)" "\<forall>p \<in> set (inputsOf tx). coins view p \<noteq> None" "view_inv utxos view"
  shows "\<exists>st' view'. connectTransaction tx h st view = (Inr (), st', view') \<and>
    under utxos view' = applyTx h tx (under utxos view) \<and> view_inv utxos view'"
proof (cases "IsCoinBaseTx tx")
  case True
  then show ?thesis using under_AddTxOuts assms(3) by (simp add: connectTransaction_def applyTx_def inputsOf_def)
next
  case False
  then obtain st' v where v: "spendInputs (TxIns tx) st view = (Inr (), st', v)"
    "under utxos v = under utxos view |` (- set (inputsOf tx))" "view_inv utxos v"
    using under_spendInputs [of "TxIns tx" view utxos st] assms by (auto simp: inputsOf_def)
  then show ?thesis using False under_AddTxOuts [where tx = tx and view = v] by (simp add: connectTransaction_def applyTx_def)
qed

section \<open>Loading the inputs of a block\<close>

definition creates :: "MsgTx \<Rightarrow> OutPoint set" where
  "creates tx = {p. \<exists>t. (p, t) \<in> set (outPointsOf tx) \<and> \<not> IsUnspendable (PkScript t)}"

lemma creates_hash: "p \<in> creates tx \<Longrightarrow> Hash p = TxHash tx"
  by (auto simp: creates_def outPointsOf_def)

text \<open>
  An output that a transaction of the list creates before any of them spends it.  Such an output
  may be in the view before its transaction is connected.
\<close>

fun phantom :: "MsgTx list \<Rightarrow> OutPoint \<Rightarrow> bool" where
  "phantom [] p = False"
| "phantom (tx # txs) p = (p \<notin> set (inputsOf tx) \<and> (p \<in> creates tx \<or> phantom txs p))"

lemma phantomI:
  "j < length txs \<Longrightarrow> p \<in> creates (txs ! j) \<Longrightarrow> (\<And>m. m \<le> j \<Longrightarrow> p \<notin> set (inputsOf (txs ! m))) \<Longrightarrow> phantom txs p"
proof (induction txs arbitrary: j)
  case (Cons tx txs)
  have a: "p \<notin> set (inputsOf tx)" using Cons.prems(3) [of 0] by simp
  show ?case
  proof (cases j)
    case (Suc i)
    have "phantom txs p"
      by (rule Cons.IH [of i]) (use Cons.prems(1,2) Cons.prems(3) [of "Suc _"] Suc in auto)
    then show ?thesis using a by simp
  qed (use Cons.prems(2) a in simp)
qed simp

lemma txInFlight_nth:
  assumes "distinct (map TxHash txs)" "j < length txs"
  shows "txInFlight txs (TxHash (txs ! j)) = Some j"
proof -
  let ?ps = "map (\<lambda>(i, tx). (TxHash tx, i)) (enumerate 0 txs)"
  have "map fst ?ps = map TxHash txs" by (rule nth_equalityI) (simp_all add: nth_enumerate_eq)
  then have d: "distinct (map fst (rev ?ps))" using assms(1) by (simp only: rev_map [symmetric] distinct_rev)
  have "(TxHash (txs ! j), j) \<in> set (rev ?ps)" using assms(2) by (force simp: in_set_enumerate_eq)
  then show ?thesis unfolding txInFlight_def using d by (intro map_of_is_SomeI)
qed

lemma entries_AddTxOuts:
  "entries (AddTxOuts tx h view) p = (if p \<in> creates tx then entries (AddTxOuts tx h view) p else entries view p) \<and>
   (p \<in> creates tx \<longrightarrow> (\<exists>e. entries (AddTxOuts tx h view) p = Some (Some e) \<and> isModified e))"
proof -
  have "(if \<exists>t. (p, t) \<in> set ps \<and> \<not> IsUnspendable (PkScript t)
      then \<exists>e. entries (fold (\<lambda>(p, t). addTxOut p t cb h) ps v) p = Some (Some e) \<and> isModified e
      else entries (fold (\<lambda>(p, t). addTxOut p t cb h) ps v) p = entries v p)" for cb ps v
  proof (induction ps rule: rev_induct)
    case (snoc q ps)
    obtain p' t' where "q = (p', t')" by (cases q)
    then show ?case using snoc by (auto simp: addTxOut_def setEntry_def split: if_splits)
  qed simp
  then show ?thesis by (simp add: AddTxOuts_def creates_def)
qed

text \<open>Before a transaction is looked at, the view only holds outputs of the ones before it.\<close>

definition loaded :: "MsgTx list \<Rightarrow> nat \<Rightarrow> UtxoViewpoint \<Rightarrow> bool" where
  "loaded txs i view = (\<forall>p x. entries view p = Some x \<longrightarrow> (\<exists>j \<le> i. p \<in> creates (txs ! j)) \<and> (\<exists>e. x = Some e \<and> isModified e))"

lemma loaded_AddTxOuts: "loaded txs i view \<Longrightarrow> j \<le> i \<Longrightarrow> loaded txs i (AddTxOuts (txs ! j) h view)"
  unfolding loaded_def using entries_AddTxOuts [of "txs ! j" h view] by (metis option.inject)

lemma inputNeeds_ok:
  assumes "inputNeeds txs h i ins needed view = (needed', view')" "distinct (map TxHash txs)" "loaded txs i view" "i < length txs"
  shows "loaded txs i view' \<and> set needed \<subseteq> set needed' \<and>
    (\<forall>p \<in> PreviousOutPoint ` set ins. \<forall>j. i < j \<longrightarrow> j < length txs \<longrightarrow> p \<in> creates (txs ! j) \<longrightarrow> p \<in> set needed')"
  using assms(1,3)
proof (induction ins arbitrary: needed view)
  case (Cons x ins)
  let ?p = "PreviousOutPoint x"
  have key: "entries view ?p = None \<and> txInFlight txs (Hash ?p) = Some j" if "i < j" "j < length txs" "?p \<in> creates (txs ! j)" for j
  proof -
    have f: "txInFlight txs (TxHash (txs ! j)) = Some j" using txInFlight_nth [OF assms(2) that(2)] .
    have "entries view ?p = None"
    proof (rule ccontr)
      assume "entries view ?p \<noteq> None"
      then obtain k where "k \<le> i" "?p \<in> creates (txs ! k)" using Cons.prems(2) by (auto simp: loaded_def)
      then have "txInFlight txs (TxHash (txs ! j)) = Some k"
        using txInFlight_nth [OF assms(2), of k] assms(4) creates_hash that(3) by (metis le_less_trans)
      then show False using f \<open>k \<le> i\<close> that(1) by simp
    qed
    then show ?thesis using f creates_hash [OF that(3)] by simp
  qed
  define n1 where "n1 = (if (\<exists>j \<le> i. txInFlight txs (Hash ?p) = Some j) \<or> entries view ?p \<noteq> None then needed else List.insert ?p needed)"
  define v1 where "v1 = (case txInFlight txs (Hash ?p) of Some j \<Rightarrow> if i \<ge> j then AddTxOuts (txs ! j) h view else view | None \<Rightarrow> view)"
  have n1: "inputNeeds txs h i ins n1 v1 = (needed', view')" "loaded txs i v1" "set needed \<subseteq> set n1"
      "entries view ?p = None \<longrightarrow> (\<forall>j. txInFlight txs (Hash ?p) = Some j \<longrightarrow> \<not> j \<le> i \<longrightarrow> ?p \<in> set n1)"
    using Cons.prems loaded_AddTxOuts [OF Cons.prems(2)] by (auto simp: n1_def v1_def split: option.splits if_splits)
  have IH: "loaded txs i view' \<and> set n1 \<subseteq> set needed' \<and>
    (\<forall>p \<in> PreviousOutPoint ` set ins. \<forall>j. i < j \<longrightarrow> j < length txs \<longrightarrow> p \<in> creates (txs ! j) \<longrightarrow> p \<in> set needed')"
    using Cons.IH [OF n1(1,2)] .
  moreover have "?p \<in> set needed'" if "i < j" "j < length txs" "?p \<in> creates (txs ! j)" for j
    using key [OF that] n1(4) that(1) IH by auto
  ultimately show ?case using n1(3) by auto
qed simp

lemma blockNeeds_ok:
  assumes "blockNeeds txs h i rest needed view = (needed', view')" "distinct (map TxHash txs)" "loaded txs i view"
    "rest = drop (Suc i) txs" "i < length txs"
  shows "(\<exists>n. loaded txs n view' \<and> n < length txs) \<and> set needed \<subseteq> set needed' \<and>
    (\<forall>m j p. i < m \<longrightarrow> m \<le> j \<longrightarrow> j < length txs \<longrightarrow> p \<in> creates (txs ! j) \<longrightarrow>
      p \<in> PreviousOutPoint ` set (TxIns (txs ! m)) \<longrightarrow> p \<in> set needed')"
  using assms(1,3-5)
proof (induction rest arbitrary: i needed view)
  case Nil
  then show ?case by auto
next
  case (Cons tx rest)
  obtain n1 v1 where n1: "inputNeeds txs h i (TxIns tx) needed view = (n1, v1)" by fastforce
  then have b: "blockNeeds txs h (Suc i) rest n1 v1 = (needed', view')" using Cons.prems(1) by simp
  have tx: "tx = txs ! Suc i" "rest = drop (Suc (Suc i)) txs" "Suc i < length txs"
    using Cons.prems(3) by (metis nth_via_drop, metis drop_Suc drop_tl list.sel(3), metis drop_all leI list.distinct(1))
  note i1 = inputNeeds_ok [OF n1 assms(2) Cons.prems(2,4)]
  have l: "loaded txs (Suc i) v1" using i1 unfolding loaded_def by (meson le_SucI)
  note IH = Cons.IH [OF b l tx(2,3)]
  show ?case
  proof (intro conjI allI impI)
    fix m j p assume a: "i < m" "m \<le> j" "j < length txs" "p \<in> creates (txs ! j)" "p \<in> PreviousOutPoint ` set (TxIns (txs ! m))"
    show "p \<in> set needed'"
    proof (cases "m = Suc i")
      case True
      then have "i < j" "p \<in> PreviousOutPoint ` set (TxIns tx)" using a tx(1) by simp_all
      then have "p \<in> set n1" using a i1 by blast
      then show ?thesis using IH by blast
    next
      case False
      then have "Suc i < m" using a(1) by simp
      then show ?thesis using a IH by blast
    qed
  qed (use IH i1 in auto)
qed

lemma fetchUtxosMain_serves:
  assumes "serves db utxos"
  shows "\<exists>v. fetchUtxosMain db ps view = (Inr (), v) \<and> bestHash v = bestHash view \<and>
    entries v = (\<lambda>p. if p \<in> set ps then Some (utxos p) else entries view p)"
  using assms
proof (induction ps arbitrary: view)
  case (Cons q ps)
  then show ?case using Cons.IH [of "setEntry q (utxos q) view"] by (auto simp: serves_def fun_eq_iff setEntry_def)
qed simp

text \<open>
  On a view without entries the inputs of a block are loaded so that the coins under the view are
  those of the database, except for outputs that the block itself creates before it spends them.
\<close>

lemma fetchInputUtxos_fresh:
  assumes "blockTxs block = cb # rest" "IsCoinBaseTx cb" "distinct (map TxHash (cb # rest))" "serves db utxos" "stored utxos"
    "entries view = Map.empty"
  shows "\<exists>v. fetchInputUtxos db block view = (Inr (), v) \<and> view_inv utxos v \<and>
    (\<forall>p. \<not> phantom (cb # rest) p \<longrightarrow> under utxos v p = setCoins utxos p)"
proof -
  let ?txs = "cb # rest"
  obtain needed w where n: "blockNeeds ?txs (bHeight block) 0 rest [] view = (needed, w)" by fastforce
  have "loaded ?txs 0 view" using assms(6) by (simp add: loaded_def)
  from blockNeeds_ok [OF n assms(3) this]
  obtain k where k: "loaded ?txs k w" "k < length ?txs"
    and need: "\<And>m j p. 0 < m \<Longrightarrow> m \<le> j \<Longrightarrow> j < length ?txs \<Longrightarrow> p \<in> creates (?txs ! j) \<Longrightarrow>
      p \<in> PreviousOutPoint ` set (TxIns (?txs ! m)) \<Longrightarrow> p \<in> set needed" by auto
  obtain v where v: "fetchUtxosMain db needed w = (Inr (), v)"
    "entries v = (\<lambda>p. if p \<in> set needed then Some (utxos p) else entries w p)"
    using fetchUtxosMain_serves [OF assms(4)] by blast
  have "view_inv utxos v" using k(1) stored_flags [OF assms(5)] by (auto simp: view_inv_def v(2) loaded_def split: if_splits)
  moreover have "under utxos v p = setCoins utxos p" if np: "\<not> phantom ?txs p" for p
  proof (cases "p \<notin> set needed \<and> entries w p \<noteq> None")
    case True
    then obtain j where j: "j \<le> k" "p \<in> creates (?txs ! j)" using k(1) by (auto simp: loaded_def)
    have "phantom ?txs p"
    proof (rule phantomI [of j])
      show "p \<notin> set (inputsOf (?txs ! m))" if "m \<le> j" for m
        using need [of m j p] that j k(2) True assms(2) by (cases m) (auto simp: inputsOf_def split: if_splits)
    qed (use j k(2) in auto)
    with np show ?thesis ..
  next
    case False
    then show ?thesis using stored_flags [OF assms(5)] unfolding under_eq v(2) by (auto simp: setCoins_def split: option.splits)
  qed
  ultimately show ?thesis using n v(1) assms(1) by (simp add: fetchInputUtxos_def)
qed

section \<open>The ledger\<close>

text \<open>What a transaction leaves over of its inputs, and the rules for its inputs, in terms of coins.\<close>

definition feeOf :: "MsgTx \<Rightarrow> coins \<Rightarrow> int" where
  "feeOf tx A = (if IsCoinBaseTx tx then 0
     else sum_list (map (coinValue A) (inputsOf tx)) - sum_list (outValues tx))"

definition pays :: "Params \<Rightarrow> 32 word \<Rightarrow> MsgTx \<Rightarrow> coins \<Rightarrow> bool" where
  "pays P h tx A = (distinct (inputsOf tx) \<and> 0 \<le> feeOf tx A \<and>
     list_all (\<lambda>p. \<exists>coin. A p = Some coin \<and> spendable P h coin) (inputsOf tx))"

fun feesOf :: "32 word \<Rightarrow> MsgTx list \<Rightarrow> coins \<Rightarrow> int" where
  "feesOf h [] A = 0"
| "feesOf h (tx # txs) A = feeOf tx A + feesOf h txs (applyTx h tx A)"

fun paysAll :: "Params \<Rightarrow> 32 word \<Rightarrow> MsgTx list \<Rightarrow> coins \<Rightarrow> bool" where
  "paysAll P h [] A = True"
| "paysAll P h (tx # txs) A = (pays P h tx A \<and> paysAll P h txs (applyTx h tx A))"

lemma fold_addCoin_creates:
  assumes "\<exists>t. (p, t) \<in> set ps \<and> \<not> IsUnspendable (PkScript t)"
  shows "fold (addCoin cb h) ps A p = fold (addCoin cb h) ps B p"
  using assms
proof (induction ps arbitrary: A B rule: rev_induct)
  case (snoc q ps)
  obtain p' t' where "q = (p', t')" by (cases q)
  then show ?case using snoc by (auto simp: addCoin_def)
qed simp

lemma applyTx_agree:
  assumes "\<And>p. \<not> phantom (tx # txs) p \<Longrightarrow> A p = B p" "\<not> phantom txs p"
  shows "applyTx h tx A p = applyTx h tx B p"
proof (cases "p \<in> creates tx")
  case True
  then show ?thesis unfolding applyTx_def by (intro fold_addCoin_creates) (simp add: creates_def)
next
  case False
  then have o: "\<And>C. fold (addCoin (IsCoinBaseTx tx) h) (outPointsOf tx) C p = C p"
    by (intro fold_addCoin_other) (auto simp: creates_def)
  show ?thesis using assms(1) [of p] assms(2) False by (auto simp: applyTx_def o restrict_map_def)
qed

lemma sane_inputs: "CheckTransactionSanity tx = Inr () \<Longrightarrow> distinct (inputsOf tx)"
  by (simp add: CheckTransactionSanity_iff inputsOf_def)

text \<open>A transaction whose inputs pass on a view pays with coins of the ledger.\<close>

lemma CheckTransactionInputs_ledger:
  assumes "CheckTransactionInputs tx h view P = Inr fee" "CheckTransactionSanity tx = Inr ()" "view_inv utxos view"
    "\<And>p. p \<in> set (inputsOf tx) \<Longrightarrow> under utxos view p = A p"
  shows "pays P h tx A \<and> sint fee = feeOf tx A \<and> 0 \<le> sint fee \<and> sint fee \<le> MaxSatoshi \<and>
    (\<forall>p \<in> set (inputsOf tx). coins view p \<noteq> None)"
proof (cases "IsCoinBaseTx tx")
  case True
  then show ?thesis using assms(1,2) sane_inputs
    by (simp add: CheckTransactionInputs_def pays_def feeOf_def inputsOf_def MaxSatoshi_eq)
next
  case False
  have c: "\<forall>p \<in> set (inputsOf tx). \<exists>coin. coins view p = Some coin \<and> spendable P h coin"
    using CheckTransactionInputs_iff [OF assms(2) False, of h view P fee] assms(1) by blast
  have eq: "coins view p = A p" if "p \<in> set (inputsOf tx)" for p
    using c that coins_under [OF assms(3)] assms(4) [OF that] by fastforce
  have v: "map (coinValue (coins view)) (inputsOf tx) = map (coinValue A) (inputsOf tx)"
    by (rule map_cong) (simp_all add: coinValue_def eq)
  note fv = fee_value [OF assms(2) False assms(1), unfolded v]
  have "list_all (\<lambda>p. \<exists>coin. A p = Some coin \<and> spendable P h coin) (inputsOf tx)"
    using c eq by (auto simp: list_all_iff)
  then show ?thesis using fv c False sane_inputs [OF assms(2)] by (auto simp: pays_def feeOf_def)
qed

lemma add_fee:
  fixes a b :: "64 word"
  assumes "0 \<le> sint a" "0 \<le> sint b" "\<not> sint (a + b) < sint a"
  shows "sint (a + b) = sint a + sint b"
proof -
  have l: "sint a < 2 ^ 63" "sint b < 2 ^ 63" using sint_lt [of a] sint_lt [of b] by simp_all
  have e: "sint (a + b) = signed_take_bit 63 (sint a + sint b)" by (simp add: sint_word_add)
  show ?thesis
  proof (cases "sint a + sint b < 2 ^ 63")
    case True
    then show ?thesis unfolding e using assms by (intro signed_take_bit_int_eq_self) simp_all
  next
    case False
    have "(sint a + sint b) - 2 ^ 64 < 0" using l by simp
    moreover have "signed_take_bit 63 (sint a + sint b) = signed_take_bit 63 ((sint a + sint b) - 2 ^ 64)"
      by (simp only: signed_take_bit_eq_iff_take_bit_eq take_bit_eq_mod) (simp add: minus_mod_self2 [of _ "2 ^ 64", simplified])
    moreover have "signed_take_bit 63 ((sint a + sint b) - 2 ^ 64) = (sint a + sint b) - 2 ^ 64"
      using l False by (intro signed_take_bit_int_eq_self) simp_all
    ultimately show ?thesis using assms e by simp
  qed
qed

lemma connectWithFees_ledger:
  assumes "connectWithFees P h txs fees (st, view) = (Inr fees', st', view')" "view_inv utxos view"
    "\<And>p. \<not> phantom txs p \<Longrightarrow> under utxos view p = A p" "\<forall>tx \<in> set txs. CheckTransactionSanity tx = Inr ()" "0 \<le> sint fees"
  shows "view_inv utxos view' \<and> under utxos view' = fold (applyTx h) txs A \<and> paysAll P h txs A \<and>
    sint fees' = sint fees + feesOf h txs A"
  using assms
proof (induction txs arbitrary: fees st view A)
  case Nil
  then show ?case by (auto simp: returnM_def fun_eq_iff)
next
  case (Cons tx txs)
  obtain fee where fee: "CheckTransactionInputs tx h view P = Inr fee"
    using Cons.prems(1) by (cases "CheckTransactionInputs tx h view P") (simp_all add: bindM_apply)
  have sane: "CheckTransactionSanity tx = Inr ()" using Cons.prems(4) by simp
  have "under utxos view p = A p" if "p \<in> set (inputsOf tx)" for p using Cons.prems(3) [of p] that by simp
  note led = CheckTransactionInputs_ledger [OF fee sane Cons.prems(2) this]
  have ovf: "\<not> sint (fees + fee) < sint fees"
    using Cons.prems(1) fee by (auto simp: bindM_apply raiseM_apply Let_def split: if_splits)
  have sum: "sint (fees + fee) = sint fees + feeOf tx A" "0 \<le> sint (fees + fee)"
    using add_fee [OF Cons.prems(5) _ ovf] led Cons.prems(5) by simp_all
  obtain st1 v1 where v1: "connectTransaction tx h st view = (Inr (), st1, v1)"
      "under utxos v1 = applyTx h tx (under utxos view)" "view_inv utxos v1"
    using under_connectTransaction [OF sane_inputs [OF sane] _ Cons.prems(2), of h st] led by blast
  have rest: "connectWithFees P h txs (fees + fee) (st1, v1) = (Inr fees', st', view')"
    using Cons.prems(1) fee ovf v1(1) by (simp add: bindM_apply Let_def)
  have "under utxos v1 p = applyTx h tx A p" if "\<not> phantom txs p" for p
    unfolding v1(2) by (rule applyTx_agree [OF Cons.prems(3) that])
  from Cons.IH [OF rest v1(3) this _ sum(2)] Cons.prems(4)
  show ?case using led sum(1) by simp
qed

section \<open>The money in a ledger\<close>

definition moneyIn :: "coins \<Rightarrow> int" where
  "moneyIn A = (\<Sum>p \<in> dom A. coinValue A p)"

definition ledger_ok :: "coins \<Rightarrow> bool" where
  "ledger_ok A = (finite (dom A) \<and> (\<forall>c \<in> ran A. 0 \<le> sint (st_Amount c)))"

lemma ledger_ok_value: "ledger_ok A \<Longrightarrow> 0 \<le> coinValue A p"
  by (auto simp: ledger_ok_def coinValue_def ran_def split: option.splits)

lemma supply_upd:
  assumes "finite (dom A)"
  shows "moneyIn (A(p \<mapsto> c)) = moneyIn A - coinValue A p + sint (st_Amount c)"
proof -
  have "(\<Sum>q \<in> dom A - {p}. coinValue (A(p \<mapsto> c)) q) = (\<Sum>q \<in> dom A - {p}. coinValue A q)"
    by (rule sum.cong) (simp_all add: coinValue_def)
  then have "moneyIn (A(p \<mapsto> c)) = sint (st_Amount c) + (\<Sum>q \<in> dom A - {p}. coinValue A q)"
    using assms by (simp add: moneyIn_def sum.insert_remove coinValue_def)
  moreover have "(\<Sum>q \<in> dom A - {p}. coinValue A q) = moneyIn A - coinValue A p"
  proof (cases "p \<in> dom A")
    case True
    then show ?thesis using assms by (simp add: moneyIn_def sum_diff1)
  next
    case False
    then show ?thesis by (simp add: moneyIn_def coinValue_def domIff)
  qed
  ultimately show ?thesis by simp
qed

lemma ledger_ok_addCoin: "ledger_ok A \<Longrightarrow> 0 \<le> sint (Value t) \<Longrightarrow> ledger_ok (addCoin cb h (p, t) A)"
  by (auto simp: ledger_ok_def addCoin_def ran_def)

lemma supply_addCoin:
  assumes "ledger_ok A" "0 \<le> sint (Value t)"
  shows "moneyIn (addCoin cb h (p, t) A) \<le> moneyIn A + sint (Value t)"
  using assms supply_upd [of A p] ledger_ok_value [OF assms(1), of p]
  by (simp add: addCoin_def ledger_ok_def)

lemma supply_outputs:
  assumes "ledger_ok A" "\<forall>(p, t) \<in> set ps. 0 \<le> sint (Value t)"
  shows "ledger_ok (fold (addCoin cb h) ps A) \<and>
    moneyIn (fold (addCoin cb h) ps A) \<le> moneyIn A + sum_list (map (\<lambda>(p, t). sint (Value t)) ps)"
  using assms
proof (induction ps arbitrary: A)
  case (Cons q ps)
  obtain p t where q: "q = (p, t)" by (cases q)
  then have t: "0 \<le> sint (Value t)" using Cons.prems(2) by simp
  show ?case using Cons.IH [OF ledger_ok_addCoin [OF Cons.prems(1) t, of cb h p]] supply_addCoin [OF Cons.prems(1) t, of cb h p] Cons.prems(2) q
    by simp
qed simp

lemma supply_inputs:
  assumes "ledger_ok A" "distinct ps" "set ps \<subseteq> dom A"
  shows "ledger_ok (A |` (- set ps)) \<and> moneyIn (A |` (- set ps)) = moneyIn A - sum_list (map (coinValue A) ps)"
proof -
  have f: "finite (dom A)" using assms(1) by (simp add: ledger_ok_def)
  have "moneyIn (A |` (- set ps)) = (\<Sum>p \<in> dom A - set ps. coinValue A p)"
    unfolding moneyIn_def by (rule sum.cong) (auto simp: coinValue_def restrict_map_def dom_def)
  also have "\<dots> = moneyIn A - (\<Sum>p \<in> set ps. coinValue A p)" using f assms(3) by (simp add: moneyIn_def sum_diff)
  also have "(\<Sum>p \<in> set ps. coinValue A p) = sum_list (map (coinValue A) ps)" using assms(2) by (simp add: sum_list_distinct_conv_sum_set)
  finally have "moneyIn (A |` (- set ps)) = moneyIn A - sum_list (map (coinValue A) ps)" .
  moreover have "\<forall>c \<in> ran (A |` (- set ps)). 0 \<le> sint (st_Amount c)"
    using assms(1) by (auto simp: ledger_ok_def ran_def restrict_map_def split: if_splits)
  ultimately show ?thesis using f by (simp add: ledger_ok_def)
qed

lemma outPointsOf_values: "map (\<lambda>(p, t). sint (Value t)) (outPointsOf tx) = outValues tx"
  by (rule nth_equalityI) (simp_all add: outPointsOf_def outValues_def nth_enumerate_eq)

lemma outPointsOf_nonneg: "list_all (\<lambda>v. 0 \<le> v) (outValues tx) \<Longrightarrow> \<forall>(p, t) \<in> set (outPointsOf tx). 0 \<le> sint (Value t)"
  by (auto simp: outPointsOf_def outValues_def list_all_iff in_set_enumerate_eq)

lemma sane_nonneg: "CheckTransactionSanity tx = Inr () \<Longrightarrow> list_all (\<lambda>v. 0 \<le> v) (outValues tx)"
  by (simp add: CheckTransactionSanity_iff list_all_iff)

lemma supply_applyTx:
  assumes "ledger_ok A" "pays P h tx A" "CheckTransactionSanity tx = Inr ()"
  shows "ledger_ok (applyTx h tx A) \<and>
    moneyIn (applyTx h tx A) \<le> moneyIn A - sum_list (map (coinValue A) (inputsOf tx)) + sum_list (outValues tx)"
proof -
  have "distinct (inputsOf tx)" "set (inputsOf tx) \<subseteq> dom A" using assms(2) by (auto simp: pays_def list_all_iff)
  note i = supply_inputs [OF assms(1) this]
  note o = supply_outputs [OF conjunct1 [OF i] outPointsOf_nonneg [OF sane_nonneg [OF assms(3)]], of "IsCoinBaseTx tx" h]
  show ?thesis using i o unfolding applyTx_def outPointsOf_values by simp
qed

lemma supply_txs:
  assumes "ledger_ok A" "paysAll P h txs A" "\<forall>tx \<in> set txs. CheckTransactionSanity tx = Inr () \<and> \<not> IsCoinBaseTx tx"
  shows "ledger_ok (fold (applyTx h) txs A) \<and> moneyIn (fold (applyTx h) txs A) \<le> moneyIn A - feesOf h txs A"
  using assms
proof (induction txs arbitrary: A)
  case (Cons tx txs)
  then have tx: "pays P h tx A" "CheckTransactionSanity tx = Inr ()" "\<not> IsCoinBaseTx tx" by simp_all
  note a = supply_applyTx [OF Cons.prems(1) tx(1,2)]
  have "ledger_ok (fold (applyTx h) txs (applyTx h tx A)) \<and>
      moneyIn (fold (applyTx h) txs (applyTx h tx A)) \<le> moneyIn (applyTx h tx A) - feesOf h txs (applyTx h tx A)"
    by (rule Cons.IH) (use a Cons.prems in auto)
  then show ?case using a tx(3) by (simp add: feeOf_def)
qed simp

lemma supply_block:
  assumes "ledger_ok A" "paysAll P h (cb # txs) A" "IsCoinBaseTx cb" "CheckTransactionSanity cb = Inr ()"
    "\<forall>tx \<in> set txs. CheckTransactionSanity tx = Inr () \<and> \<not> IsCoinBaseTx tx"
  shows "ledger_ok (fold (applyTx h) (cb # txs) A) \<and>
    moneyIn (fold (applyTx h) (cb # txs) A) \<le> moneyIn A + sum_list (outValues cb) - feesOf h (cb # txs) A"
proof -
  have "pays P h cb A" "paysAll P h txs (applyTx h cb A)" using assms(2) by simp_all
  note c = supply_applyTx [OF assms(1) this(1) assms(4)] and t = supply_txs [OF _ this(2) assms(5)]
  show ?thesis using c t assms(3) by (simp add: feeOf_def inputsOf_def)
qed

lemma feesOf_nonneg: "paysAll P h txs A \<Longrightarrow> 0 \<le> feesOf h txs A"
  by (induction txs arbitrary: A) (simp_all add: pays_def)

section \<open>An accepted block\<close>

lemma checkConnectBlock_elim:
  assumes "checkConnectBlock P db checkScripts node block (st, view) = (Inr (), st', view')"
    "\<not> sint (height node) < sint (BIP0034Height P)"
  obtains st1 v0 v1 fees p where "hash node \<noteq> GenesisHash P" "bestHash view = PrevBlock (Header (msgBlock block))"
    "fetchInputUtxos db block view = (Inr (), v0)"
    "connectWithFees P (height node) (blockTxs block) 0 (st, v0) = (Inr fees, st', v1)"
    "sint (totalOut (blockTxs block ! 0)) \<le> int64 (CalcBlockSubsidy (height node) P + sint fees)"
    "parent node = Some p" "sequenceLocks node v1 (CalcPastMedianTime p) (blockTxs block) = Inr ()"
    "checkScripts v1 (blockScriptFlags P node (Header (msgBlock block))) = Inr ()" "view' = SetBestHash (hash node) v1"
proof -
  have bip: "(if \<not> isBIP0030Node node \<and> sint (height node) < sint (BIP0034Height P) then checkBIP0030 db (blockTxs block) else returnM ()) = returnM ()"
    using assms(2) by simp
  show thesis
    using assms(1) that unfolding checkConnectBlock_def bip Let_def
    by (auto simp: bindM_apply failIfM_apply getM_apply returnM_apply onView_def zoomM_apply modifyM_apply raiseM_apply
      not_less split: prod.splits sum.splits if_splits option.splits)
qed

lemma CalcBlockSubsidy_bounds: "0 \<le> CalcBlockSubsidy h P" "CalcBlockSubsidy h P \<le> baseSubsidy"
proof -
  have "drop_bit n baseSubsidy \<le> baseSubsidy" for n
  proof -
    have "baseSubsidy div 2 ^ n \<le> baseSubsidy div 1"
      by (rule zdiv_mono2) (simp_all add: baseSubsidy_def SatoshiPerBitcoin_def)
    then show ?thesis by (simp add: drop_bit_eq_div)
  qed
  moreover have "0 \<le> baseSubsidy" by (simp add: baseSubsidy_def SatoshiPerBitcoin_def)
  ultimately show "0 \<le> CalcBlockSubsidy h P" "CalcBlockSubsidy h P \<le> baseSubsidy"
    by (simp_all add: CalcBlockSubsidy_def Let_def)
qed

text \<open>A sum that wraps around is negative, and then no coinbase is small enough.\<close>

lemma expected_exact:
  assumes "0 \<le> s" "s \<le> baseSubsidy" "0 \<le> f" "f < 2 ^ 63" "0 \<le> x" "x \<le> int64 (s + f)"
  shows "x \<le> s + f"
proof (cases "s + f < 2 ^ 63")
  case True
  then show ?thesis using assms by (simp add: int64_nonneg)
next
  case False
  define m where "m = (2 :: int) ^ 64"
  have "(s + f + 2 ^ 63) mod m = (s + f + 2 ^ 63 - m) mod m" by (simp only: minus_mod_self2)
  also have "\<dots> = s + f + 2 ^ 63 - m"
    using False assms by (intro mod_pos_pos_trivial) (simp_all add: m_def baseSubsidy_def SatoshiPerBitcoin_def)
  finally have "int64 (s + f) = s + f - m" by (simp add: int64_def m_def)
  then show ?thesis using assms by (simp add: m_def baseSubsidy_def SatoshiPerBitcoin_def)
qed

text \<open>What a block that passes on top of a new view does to the coins of the database.\<close>

lemma connect_block_ledger:
  assumes "checkTransactions root size' (blockTxs block) = Inr ()" "entries view = Map.empty" "serves db utxos" "stored utxos"
    "\<not> sint (height node) < sint (BIP0034Height P)" "ledger_ok (setCoins utxos)"
    "checkConnectBlock P db checkScripts node block (st, view) = (Inr (), st', view')"
  shows "setCoins (dbPutUtxoView view' utxos) = fold (applyTx (height node)) (blockTxs block) (setCoins utxos) \<and>
    paysAll P (height node) (blockTxs block) (setCoins utxos) \<and>
    ledger_ok (setCoins (dbPutUtxoView view' utxos)) \<and>
    moneyIn (setCoins (dbPutUtxoView view' utxos)) \<le> moneyIn (setCoins utxos) + CalcBlockSubsidy (height node) P"
proof -
  obtain cb txs where b: "blockTxs block = cb # txs" using assms(1) by (cases "blockTxs block") (simp_all add: checkTransactions_def)
  have t: "IsCoinBaseTx cb" "\<forall>tx \<in> set txs. \<not> IsCoinBaseTx tx" "\<forall>tx \<in> set (cb # txs). CheckTransactionSanity tx = Inr ()"
      "distinct (map TxHash (cb # txs))"
    using assms(1) unfolding checkTransactions_iff b by (auto simp: list_all_iff)
  from assms(7,5) obtain st1 v0 v1 fees p where c: "fetchInputUtxos db block view = (Inr (), v0)"
    "connectWithFees P (height node) (cb # txs) 0 (st, v0) = (Inr fees, st', v1)"
    "sint (totalOut cb) \<le> int64 (CalcBlockSubsidy (height node) P + sint fees)" "view' = SetBestHash (hash node) v1"
    by (rule checkConnectBlock_elim) (simp add: b)
  obtain v where v: "v0 = v" "view_inv utxos v0" "\<And>p. \<not> phantom (cb # txs) p \<Longrightarrow> under utxos v0 p = setCoins utxos p"
    using fetchInputUtxos_fresh [OF b t(1,4) assms(3,4,2)] c(1) by auto
  have l: "under utxos v1 = fold (applyTx (height node)) (cb # txs) (setCoins utxos)" "paysAll P (height node) (cb # txs) (setCoins utxos)"
      "sint fees = sint (0 :: 64 word) + feesOf (height node) (cb # txs) (setCoins utxos)"
    using connectWithFees_ledger [OF c(2) v(2,3) t(3)] by auto
  have u: "dbPutUtxoView view' utxos = dbPutUtxoView v1 utxos" by (simp add: c(4) dbPutUtxoView_def SetBestHash_def)
  have f: "sint fees = feesOf (height node) (cb # txs) (setCoins utxos)" using l by simp
  have "CheckTransactionSanity cb = Inr ()" using t(3) by simp
  note o = sane_totalOut [OF this]
  have s: "sum_list (outValues cb) \<le> CalcBlockSubsidy (height node) P + sint fees"
  proof (rule expected_exact)
    show "0 \<le> sint fees" using l feesOf_nonneg f by metis
    show "sum_list (outValues cb) \<le> int64 (CalcBlockSubsidy (height node) P + sint fees)" using c(3) o by simp
    show "sint fees < 2 ^ 63" using sint_lt [of fees] by simp
  qed (use o CalcBlockSubsidy_bounds in simp_all)
  have "\<forall>tx \<in> set txs. CheckTransactionSanity tx = Inr () \<and> \<not> IsCoinBaseTx tx" using t by simp
  note sb = supply_block [OF assms(6) _ t(1) \<open>CheckTransactionSanity cb = Inr ()\<close> this, of P "height node"]
  show ?thesis using l sb s f unfolding u b by simp
qed

section \<open>Chains of accepted blocks\<close>

text \<open>
  The unspent outputs after the first blocks of a chain, each of which was connected on top of the
  ones before it: the output of the genesis block is not spendable.
\<close>

inductive ledger_chain :: "Params \<Rightarrow> nat \<Rightarrow> utxoSet \<Rightarrow> bool" for P where
  genesis: "ledger_chain P 1 Map.empty"
| connected: "ledger_chain P n utxos \<Longrightarrow> height node = of_nat n \<Longrightarrow> serves db utxos \<Longrightarrow>
    checkTransactions root size' (blockTxs block) = Inr () \<Longrightarrow> entries view = Map.empty \<Longrightarrow>
    checkConnectBlock P db checkScripts node block (st, view) = (Inr (), st', view') \<Longrightarrow>
    ledger_chain P (Suc n) (dbPutUtxoView view' utxos)"

lemma stored_empty: "stored Map.empty" "ledger_ok (setCoins Map.empty)" "moneyIn (setCoins Map.empty) = 0"
proof -
  have e: "setCoins Map.empty = Map.empty" by (simp add: fun_eq_iff setCoins_def)
  show "stored Map.empty" by (simp add: stored_def)
  show "ledger_ok (setCoins Map.empty)" "moneyIn (setCoins Map.empty) = 0" by (simp_all add: e ledger_ok_def moneyIn_def)
qed

lemma ledger_chain_money:
  assumes "ledger_chain P n utxos" "sint (BIP0034Height P) \<le> 0" "n \<le> 2 ^ 31"
  shows "stored utxos \<and> ledger_ok (setCoins utxos) \<and> moneyIn (setCoins utxos) \<le> (\<Sum>h<n. CalcBlockSubsidy (of_nat h) P)"
  using assms(1,3)
proof induction
  case genesis
  then show ?case using stored_empty CalcBlockSubsidy_bounds(1) [of 0 P] by simp
next
  case (connected n utxos node db root size' block view checkScripts st st' view')
  then have IH: "stored utxos" "ledger_ok (setCoins utxos)" "moneyIn (setCoins utxos) \<le> (\<Sum>h<n. CalcBlockSubsidy (of_nat h) P)"
    by simp_all
  have "sint (height node) = int n" using connected.prems connected.hyps(2) by (simp add: signed_of_nat signed_take_bit_int_eq_self)
  then have "\<not> sint (height node) < sint (BIP0034Height P)" using assms(2) by linarith
  from connect_block_ledger [OF connected.hyps(4,5,3) IH(1) this IH(2) connected.hyps(6)]
  have "ledger_ok (under utxos view')" "moneyIn (under utxos view') \<le> moneyIn (setCoins utxos) + CalcBlockSubsidy (of_nat n) P"
    unfolding connected.hyps(2) by blast+
  then show ?case using IH(3) stored_dbPut [OF IH(1)] by simp
qed

section \<open>Properties\<close>

text \<open>
  C8: When a block with sane transactions is accepted on top of a new view, writing the view leaves
  exactly the coins that result from applying its transactions in order to the coins of the
  database, every transaction pays with coins that were there, were mature and covered its outputs, and
  the money in the ledger grows by at most the subsidy of the block.
\<close>

theorem connect_block_no_inflation:
  assumes "checkTransactions root size' (blockTxs block) = Inr ()" "entries view = Map.empty" "serves db utxos" "stored utxos"
    "\<not> sint (height node) < sint (BIP0034Height P)" "ledger_ok (setCoins utxos)"
    "checkConnectBlock P db checkScripts node block (st, view) = (Inr (), st', view')"
  shows "setCoins (dbPutUtxoView view' utxos) = fold (applyTx (height node)) (blockTxs block) (setCoins utxos) \<and>
    paysAll P (height node) (blockTxs block) (setCoins utxos) \<and>
    moneyIn (setCoins (dbPutUtxoView view' utxos)) \<le> moneyIn (setCoins utxos) + CalcBlockSubsidy (height node) P"
  using connect_block_ledger [OF assms] by blast

text \<open>A block with only a coinbase on top of a genesis block.\<close>

definition firstCoinbase :: MsgTx where
  "firstCoinbase = \<lparr>Version = 1, TxIns = [\<lparr>PreviousOutPoint = \<lparr>Hash = nullHash, Index = 0xffffffff\<rparr>,
     SignatureScript = [0x51, 0x51], Witness = [], Sequence = 0\<rparr>], TxOuts = [\<lparr>Value = 5000000000, PkScript = [0x51]\<rparr>], LockTime = 0\<rparr>"

definition firstHeader :: "BlockHeader" where
  "firstHeader = \<lparr>hVersion = 1, PrevBlock = nullHash, MerkleRoot = nullHash, Timestamp = 7,
     hSignature = [], hPublicKey = [], Scale = 1, Reserved = 0\<rparr>"

definition firstNode :: blockNode where
  "firstNode = newBlockNode firstHeader (Some (newBlockNode firstHeader None 1)) 1"

definition firstBlock :: Block where
  "firstBlock = \<lparr>msgBlock = \<lparr>Header = firstHeader, Transactions = [firstCoinbase]\<rparr>, bHeight = 1\<rparr>"

definition emptyDb :: utxo_db where
  "emptyDb = \<lparr>dbFetchUtxoEntry = \<lambda>_. Inr None, dbFetchUtxoEntryByHash = \<lambda>_. Inr None\<rparr>"

lemma firstCoinbase_facts: "IsCoinBaseTx firstCoinbase" "CheckTransactionSanity firstCoinbase = Inr ()"
    "CountSigOps firstCoinbase = 0" "sint (totalOut firstCoinbase) = 5000000000"
proof -
  show cb: "IsCoinBaseTx firstCoinbase" by (simp add: IsCoinBaseTx_def firstCoinbase_def)
  show "CheckTransactionSanity firstCoinbase = Inr ()"
    unfolding CheckTransactionSanity_iff using cb
    by (simp add: firstCoinbase_def outValues_def MaxSatoshi_eq MsgTx_SerializeSizeStripped_def baseSize_def
      TxIn_SerializeSize_def TxOut_SerializeSize_def VarIntSerializeSize_def Let_def)
  show "CountSigOps firstCoinbase = 0" by code_simp
  show "sint (totalOut firstCoinbase) = 5000000000" by (simp add: totalOut_def firstCoinbase_def)
qed

lemma firstBlock_sane: "checkTransactions (merkle_root [TxHash firstCoinbase]) 100 (blockTxs firstBlock) = Inr ()"
  unfolding checkTransactions_iff by (simp add: firstBlock_def firstCoinbase_facts)

lemma firstNode_facts: "height firstNode = 1" "hash firstNode = BlockHash firstHeader"
    "\<exists>p. parent firstNode = Some p \<and> CalcPastMedianTime p = 7" "n_timestamp (nodeFields firstNode) = 7"
  by (simp_all add: firstNode_def newBlockNode_def CalcPastMedianTime_def medianTimeBlocks_def firstHeader_def eval_nat_numeral)

lemma firstBlock_connects:
  "\<exists>view'. checkConnectBlock mainNetLike emptyDb (\<lambda>_ _. Inr ()) firstNode firstBlock (None, NewUtxoViewpoint) = (Inr (), None, view')"
proof -
  have g: "BlockHash firstHeader \<noteq> []" using length_DoubleHash(2) unfolding BlockHash_def by (metis list.size(3) zero_neq_numeral)
  have s: "CalcBlockSubsidy 1 mainNetLike = 5000000000"
    using CalcBlockSubsidy_eq [of mainNetLike 1] by (simp add: mainNetLike_def baseSubsidy_def SatoshiPerBitcoin_def)
  obtain p where p: "parent firstNode = Some p" "CalcPastMedianTime p = 7" using firstNode_facts(3) by blast
  have sig: "GetSigOpCost firstCoinbase True v b False = Inr 0" for v b
    by (simp add: GetSigOpCost_def firstCoinbase_facts CountP2SHSigOps_def)
  have f: "fetchInputUtxos emptyDb firstBlock v = (Inr (), v)" for v by (simp add: fetchInputUtxos_def firstBlock_def)
  have c: "connectWithFees mainNetLike 1 [firstCoinbase] 0 (None, v) = (Inr 0, None, AddTxOuts firstCoinbase 1 v)" for v
    by (simp add: bindM_apply CheckTransactionInputs_def firstCoinbase_facts connectTransaction_def returnM_apply)
  have q: "sequenceLocks firstNode v 7 [firstCoinbase] = Inr ()" for v
    by (simp add: calcSequenceLock_def SequenceLockActive_def firstNode_facts Let_def)
  have b: "bestHash NewUtxoViewpoint = PrevBlock (Header (msgBlock firstBlock))" "blockTxs firstBlock = [firstCoinbase]"
    by (simp_all add: firstBlock_def firstHeader_def NewUtxoViewpoint_def)
  have m: "hash firstNode \<noteq> GenesisHash mainNetLike" "sint (height firstNode) \<ge> sint (BIP0034Height mainNetLike)"
    using g by (simp_all add: firstNode_facts mainNetLike_def)
  show ?thesis unfolding checkConnectBlock_def using m
    by (simp add: bindM_apply failIfM_apply getM_apply returnM_apply onView_def zoomM_apply modifyM_apply Let_def
      b f c p q s sig firstCoinbase_facts firstNode_facts int64_nonneg enumerate_eq_zip MaxBlockSigOpsCost_def
      del: connectWithFees.simps sequenceLocks.simps)
qed

theorem connect_block_no_inflation_witness:
  "\<exists>view'. checkConnectBlock mainNetLike emptyDb (\<lambda>_ _. Inr ()) firstNode firstBlock (None, NewUtxoViewpoint) = (Inr (), None, view') \<and>
    moneyIn (setCoins (dbPutUtxoView view' Map.empty)) \<le> 5000000000"
proof -
  obtain view' where v: "checkConnectBlock mainNetLike emptyDb (\<lambda>_ _. Inr ()) firstNode firstBlock (None, NewUtxoViewpoint) = (Inr (), None, view')"
    using firstBlock_connects by blast
  have "entries NewUtxoViewpoint = Map.empty" "serves emptyDb Map.empty" "\<not> sint (height firstNode) < sint (BIP0034Height mainNetLike)"
    by (simp_all add: firstNode_facts mainNetLike_def NewUtxoViewpoint_def emptyDb_def serves_def)
  from connect_block_no_inflation [OF firstBlock_sane this(1,2) stored_empty(1) this(3) stored_empty(2) v]
  have "moneyIn (under Map.empty view') \<le> moneyIn (setCoins Map.empty) + CalcBlockSubsidy 1 mainNetLike"
    unfolding firstNode_facts by blast
  moreover have "CalcBlockSubsidy 1 mainNetLike = 5000000000"
    using CalcBlockSubsidy_eq [of mainNetLike 1] by (simp add: mainNetLike_def baseSubsidy_def SatoshiPerBitcoin_def)
  ultimately show ?thesis using v stored_empty(3) by auto
qed

section \<open>Two rules that are not enforced\<close>

text \<open>
  Relative lock times are never enforced for blocks: their locks are computed for a chain on
  which they are not active.
\<close>

lemma sequence_locks_not_enforced:
  assumes "0 \<le> medianTime" "0 \<le> sint (height node)"
  shows "sequenceLocks node view medianTime txs = Inr ()"
  by (induction txs) (use assms in \<open>simp_all add: calcSequenceLock_def SequenceLockActive_def\<close>)

text \<open>
  Connecting relies on the sanity of transactions: a transaction that names a coin twice is paid
  for twice by it.
\<close>

definition doubleSpender :: MsgTx where
  "doubleSpender = \<lparr>Version = 1, TxIns = replicate 2 \<lparr>PreviousOutPoint = \<lparr>Hash = [], Index = 0\<rparr>,
     SignatureScript = [], Witness = [], Sequence = 0\<rparr>, TxOuts = [\<lparr>Value = 10, PkScript = []\<rparr>], LockTime = 0\<rparr>"

lemma duplicate_input_inflates:
  "CheckTransactionSanity doubleSpender \<noteq> Inr () \<and>
   (\<exists>view. connectWithFees P 4 [doubleSpender] 0 (None, oneCoinView) = (Inr 0, None, view) \<and>
      moneyIn (coins oneCoinView) = 5 \<and> moneyIn (coins view) = 10)"
proof -
  have cb: "\<not> IsCoinBaseTx doubleSpender" by (simp add: IsCoinBaseTx_def doubleSpender_def)
  have e: "LookupEntry oneCoinView \<lparr>Hash = [], Index = 0\<rparr> = Some oneCoin" by (simp add: oneCoinView_def)
  have o: "\<not> IsSpent oneCoin" "\<not> UtxoEntry_IsCoinBase oneCoin" "ue_amount oneCoin = 5"
    by (simp_all add: oneCoin_def IsSpent_def tfSpent_def UtxoEntry_IsCoinBase_def tfCoinBase_def)
  have s: "CheckTransactionSanity doubleSpender \<noteq> Inr ()"
    unfolding CheckTransactionSanity_iff by (simp add: doubleSpender_def numeral_2_eq_2)
  have i: "CheckTransactionInputs doubleSpender 4 oneCoinView P = Inr 0"
    using cb by (simp add: CheckTransactionInputs_def bindE_def doubleSpender_def numeral_2_eq_2 e o Let_def MaxSatoshi_eq totalOut_def)
  define v where "v = setEntry \<lparr>Hash = [], Index = 0\<rparr> (Some (Spend oneCoin)) oneCoinView"
  have sp: "spendInputs (TxIns doubleSpender) None oneCoinView = (Inr (), None, setEntry \<lparr>Hash = [], Index = 0\<rparr> (Some (Spend oneCoin)) v)"
    by (simp add: doubleSpender_def numeral_2_eq_2 e v_def Spend_def)
  define w where "w = AddTxOuts doubleSpender 4 (setEntry \<lparr>Hash = [], Index = 0\<rparr> (Some (Spend oneCoin)) v)"
  have c: "connectWithFees P 4 [doubleSpender] 0 (None, oneCoinView) = (Inr 0, None, w)"
    using cb by (simp add: bindM_apply i connectTransaction_def sp returnM_apply w_def)
  have outs: "outPointsOf doubleSpender = [(\<lparr>Hash = TxHash doubleSpender, Index = 0\<rparr>, \<lparr>Value = 10, PkScript = []\<rparr>)]"
    by (simp add: outPointsOf_def enumerate_eq_zip) (simp add: doubleSpender_def)
  have "coins (setEntry \<lparr>Hash = [], Index = 0\<rparr> (Some (Spend oneCoin)) v) = Map.empty"
    by (simp add: v_def coins_setEntry oneCoinView_coins)
  moreover have "\<not> IsUnspendable []" by code_simp
  ultimately have "coins w = [\<lparr>Hash = TxHash doubleSpender, Index = 0\<rparr> \<mapsto> \<lparr>st_Amount = 10, st_PkScript = [], st_Height = 4, st_IsCoinBase = False\<rparr>]"
    using cb by (simp add: w_def coins_AddTxOuts outs addCoin_def)
  then show ?thesis using s c by (intro conjI exI [of _ w]) (simp_all add: oneCoinView_coins moneyIn_def coinValue_def stxoOf_def o(3))
qed

end
