(* ===== verification/Chain_Process.thy ===== *)
theory Chain_Process
  imports Chain_Connect
begin

text \<open>
  Accepting blocks: connecting a block to the best chain (\<^verbatim>\<open>connectBlock\<close>, \<^verbatim>\<open>connectBestChain\<close> in
  \<^verbatim>\<open>src/blockchain/chain.go\<close>), accepting it (\<^verbatim>\<open>src/blockchain/accept.go\<close>), the pool of blocks whose parent
  is not known, and the entry points \<^verbatim>\<open>ProcessBlock\<close> and \<^verbatim>\<open>ProcessSyncBlock\<close> (\<^verbatim>\<open>src/blockchain/process.go\<close>).
  The state holds the index, the best chain, the buckets of the database and the pool.  The lemmas
  show that processing a block always ends, that a refused block leaves the best chain and the
  database as they were, that the database always describes the best chain, down to the unspent outputs,
  and that a connected block is never taken back.  Each is an instance of one locale: a property
  of the chain that survives the four things that can happen when a block arrives.
\<close>

unbundle bit_operations_syntax

section \<open>The state of the chain\<close>

text \<open>A block with the number of votes it received.\<close>

record ChainBlock = Block +
  bVotes :: "16 word"

abbreviation header :: "ChainBlock \<Rightarrow> BlockHeader" where "header b \<equiv> Header (msgBlock b)"
abbreviation chainTxs :: "ChainBlock \<Rightarrow> MsgTx list" where "chainTxs b \<equiv> Transactions (msgBlock b)"
abbreviation cbHash :: "ChainBlock \<Rightarrow> bytes" where "cbHash b \<equiv> BlockHash (header b)"

record BestState =
  bs_Hash :: bytes
  bs_Height :: "32 word"
  bs_BlockSize :: "64 word"
  bs_BlockWeight :: "64 word"
  bs_NumTxns :: "64 word"
  bs_TotalTxns :: "64 word"
  bs_MedianTime :: int
  bs_Signature :: bytes
  bs_PubKey :: bytes
  bs_Scale :: "16 word"
  bs_Reserved :: "16 word"
  bs_Votes :: "16 word"

record bestChainState =
  bcs_hash :: bytes
  bcs_height :: "32 word"
  bcs_totalTxns :: "64 word"
  bcs_scale :: "16 word"
  bcs_reserved :: "16 word"
  bcs_votes :: "16 word"
  bcs_signature :: bytes
  bcs_pubKey :: bytes

text \<open>
  The chain with the buckets of its database: the best state, the unspent outputs, the spend journal,
  the stored blocks and the heights of the blocks of the main chain.  The database itself does not
  fail; the rows of the block index, which are only read when the program starts, are left out.
\<close>

record BlockChain =
  bc_index :: blockIndex
  bestChain :: chainView
  utxoBucket :: utxoSet
  journalBucket :: "bytes \<rightharpoonup> SpentTxOut list"
  blockBucket :: "bytes \<rightharpoonup> MsgBlock"
  chainStateKey :: bestChainState
  hashIndexBucket :: "bytes \<rightharpoonup> 32 word"
  heightIndexBucket :: "32 word \<rightharpoonup> bytes"
  orphans :: "bytes \<rightharpoonup> ChainBlock"
  prevOrphans :: "bytes \<rightharpoonup> ChainBlock list"
  stateSnapshot :: BestState
  unknownVersionsWarned :: bool

text \<open>
  What the chain is given: the cryptography, the parameters of the network, the outcome of the
  concurrent check of scripts, the lookup of an entry by the hash of a transaction, the manager of
  the optional indexes, the adjusted time, and the pool of candidates in the order in which it is
  walked over.
\<close>

record chainEnv =
  env_crypto :: crypto
  chainParams :: Params
  scriptCheck :: "MsgTx list \<Rightarrow> UtxoViewpoint \<Rightarrow> ScriptFlags \<Rightarrow> chain_err + unit"
  entryByHash :: "utxoSet \<Rightarrow> bytes \<Rightarrow> UtxoEntry option"
  indexManager :: "(ChainBlock \<Rightarrow> SpentTxOut list \<Rightarrow> chain_err + unit) option"
  adjustedTime :: int
  candidates :: "MsgCandidate list"

type_synonym 'a chainM = "(BlockChain, chain_err, 'a) goM"

definition dbOf :: "chainEnv \<Rightarrow> BlockChain \<Rightarrow> utxo_db" where
  "dbOf E b = \<lparr>dbFetchUtxoEntry = \<lambda>p. Inr (utxoBucket b p), dbFetchUtxoEntryByHash = \<lambda>h. Inr (entryByHash E (utxoBucket b) h)\<rparr>"

definition flushToDB :: "blockIndex \<Rightarrow> blockIndex" where
  "flushToDB bi = bi\<lparr>dirty := {}\<rparr>"

definition newBestState :: "blockNode \<Rightarrow> 64 word \<Rightarrow> 64 word \<Rightarrow> 64 word \<Rightarrow> 64 word \<Rightarrow> bytes \<Rightarrow> bytes \<Rightarrow> 16 word \<Rightarrow> 16 word \<Rightarrow>
    int \<Rightarrow> 16 word \<Rightarrow> BestState" where
  "newBestState node blockSize blockWeight numTxns totalTxns signature pubKey scale reserved medianTime votes =
     \<lparr>bs_Hash = hash node, bs_Height = height node, bs_BlockSize = blockSize, bs_BlockWeight = blockWeight, bs_NumTxns = numTxns,
      bs_TotalTxns = totalTxns, bs_MedianTime = medianTime, bs_Signature = signature, bs_PubKey = pubKey, bs_Scale = scale,
      bs_Reserved = reserved, bs_Votes = votes\<rparr>"

definition dbPutBestState :: "BestState \<Rightarrow> BlockChain \<Rightarrow> BlockChain" where
  "dbPutBestState snapshot b = b\<lparr>chainStateKey :=
     \<lparr>bcs_hash = bs_Hash snapshot, bcs_height = bs_Height snapshot, bcs_totalTxns = bs_TotalTxns snapshot,
      bcs_scale = bs_Scale snapshot, bcs_reserved = bs_Reserved snapshot, bcs_votes = bs_Votes snapshot,
      bcs_signature = bs_Signature snapshot, bcs_pubKey = bs_PubKey snapshot\<rparr>\<rparr>"

definition dbPutBlockIndex :: "bytes \<Rightarrow> 32 word \<Rightarrow> BlockChain \<Rightarrow> BlockChain" where
  "dbPutBlockIndex h height' b = b\<lparr>hashIndexBucket := (hashIndexBucket b)(h \<mapsto> height'),
     heightIndexBucket := (heightIndexBucket b)(height' \<mapsto> h)\<rparr>"

definition dbStoreBlock :: "ChainBlock \<Rightarrow> BlockChain \<Rightarrow> BlockChain" where
  "dbStoreBlock block b =
     (if blockBucket b (cbHash block) \<noteq> None then b
      else b\<lparr>blockBucket := (blockBucket b)(cbHash block \<mapsto> msgBlock block)\<rparr>)"

section \<open>Warnings about unknown versions\<close>

definition vbTopBits :: "32 word" where "vbTopBits = 0x20000000"
definition vbLegacyBlockVersion :: int where "vbLegacyBlockVersion = 4"
definition unknownVerNumToCheck :: nat where "unknownVerNumToCheck = 100"
definition unknownVerWarnNum :: nat where "unknownVerWarnNum = unknownVerNumToCheck div 2"

definition isCurrent :: "chainEnv \<Rightarrow> blockNode \<Rightarrow> bool" where
  "isCurrent E t = (n_timestamp (nodeFields t) \<ge> adjustedTime E - 24 * 3600)"

text \<open>The deployments are not consulted: the expected version is the same after every block.\<close>

definition calcNextBlockVersion :: "blockNode option \<Rightarrow> 32 word" where
  "calcNextBlockVersion prevNode = vbTopBits"

fun upgradedLoop :: "nat \<Rightarrow> blockNode option \<Rightarrow> nat \<Rightarrow> nat" where
  "upgradedLoop 0 node numUpgraded = numUpgraded"
| "upgradedLoop (Suc i) None numUpgraded = numUpgraded"
| "upgradedLoop (Suc i) (Some node) numUpgraded =
     (let expectedVersion = calcNextBlockVersion (parent node) in
      upgradedLoop i (parent node)
        (if sint expectedVersion > vbLegacyBlockVersion \<and> n_version (nodeFields node) AND NOT expectedVersion \<noteq> 0
         then numUpgraded + 1 else numUpgraded))"

definition warnUnknownVersions :: "blockNode \<Rightarrow> BlockChain \<Rightarrow> BlockChain" where
  "warnUnknownVersions node b =
     (if unknownVersionsWarned b then b
      else if upgradedLoop unknownVerNumToCheck (Some node) 0 > unknownVerWarnNum then b\<lparr>unknownVersionsWarned := True\<rparr>
      else b)"

section \<open>Connecting to the best chain\<close>

text \<open>The snapshot of the state after a block, and what one database transaction writes for it.\<close>

definition blockState :: "blockNode \<Rightarrow> ChainBlock \<Rightarrow> 64 word \<Rightarrow> BestState" where
  "blockState node block curTotalTxns =
     (let numTxns = of_nat (length (chainTxs block)) in
      newBestState node (of_nat (MsgBlock_SerializeSize (msgBlock block))) (of_int (GetBlockWeight (msgBlock block))) numTxns
        (curTotalTxns + numTxns) (hSignature (header block)) (hPublicKey (header block)) (Scale (header block))
        (Reserved (header block)) (CalcPastMedianTime node) (bVotes block))"

definition dbConnect :: "chainEnv \<Rightarrow> blockNode \<Rightarrow> ChainBlock \<Rightarrow> UtxoViewpoint \<Rightarrow> SpentTxOut list \<Rightarrow> BestState \<Rightarrow>
    BlockChain \<Rightarrow> chain_err + BlockChain" where
  "dbConnect E node block view stxos state b =
     (let b = dbPutBlockIndex (cbHash block) (height node) (dbPutBestState state b);
          b = b\<lparr>utxoBucket := dbPutUtxoView view (utxoBucket b), journalBucket := (journalBucket b)(cbHash block \<mapsto> stxos)\<rparr> in
      case indexManager E of
        None \<Rightarrow> Inr b
      | Some ConnectBlock \<Rightarrow> bindE (ConnectBlock block stxos) (\<lambda>_. Inr b))"

text \<open>
  When the manager of the indexes refuses, the transaction leaves the database as it was.  Otherwise
  the tip of the best chain and the snapshot change.
\<close>

definition connectBlock :: "chainEnv \<Rightarrow> blockNode \<Rightarrow> ChainBlock \<Rightarrow> UtxoViewpoint \<Rightarrow> SpentTxOut list \<Rightarrow> unit chainM" where
  "connectBlock E node block view stxos = (\<lambda>b.
     case tip (bestChain b) of
       None \<Rightarrow> (Inl ChainPanic, b)
     | Some t \<Rightarrow>
         if PrevBlock (header block) \<noteq> hash t then (Inl AssertError, b)
         else (case countSpentOutputs (Block.truncate block) of
            Inl err \<Rightarrow> (Inl err, b)
          | Inr n \<Rightarrow>
              if length stxos \<noteq> n then (Inl AssertError, b)
              else
                let b = (if isCurrent E t then warnUnknownVersions node b else b);
                    b = b\<lparr>bc_index := flushToDB (bc_index b)\<rparr>;
                    state = blockState node block (bs_TotalTxns (stateSnapshot b)) in
                (case dbConnect E node block view stxos state b of
                   Inl err \<Rightarrow> (Inl err, b)
                 | Inr b \<Rightarrow>
                     (case setTip (Some node) (bestChain b) of
                        Inl err \<Rightarrow> (Inl err, b)
                      | Inr c \<Rightarrow> (Inr (), b\<lparr>bestChain := c, stateSnapshot := state\<rparr>)))))"

definition isRuleError :: "chain_err \<Rightarrow> bool" where
  "isRuleError err = (case err of RuleError _ \<Rightarrow> True | _ \<Rightarrow> False)"

definition markNode :: "blockNode \<Rightarrow> blockStatus \<Rightarrow> BlockChain \<Rightarrow> BlockChain" where
  "markNode node fs b = b\<lparr>bc_index := SetStatusFlags node fs (bc_index b)\<rparr>"

definition flushIndexState :: "BlockChain \<Rightarrow> BlockChain" where
  "flushIndexState b = b\<lparr>bc_index := flushToDB (bc_index b)\<rparr>"

definition connectBestChain :: "chainEnv \<Rightarrow> blockNode \<Rightarrow> ChainBlock \<Rightarrow> bool chainM" where
  "connectBestChain E node block = (\<lambda>b.
     case tip (bestChain b) of
       None \<Rightarrow> (Inl ChainPanic, b)
     | Some t \<Rightarrow>
         let parentHash = PrevBlock (header block) in
         if parentHash = hash t then
           (case countSpentOutputs (Block.truncate block) of Inl err \<Rightarrow> (Inl err, b) | Inr _ \<Rightarrow>
           (case checkConnectBlock (chainParams E) (dbOf E b) (scriptCheck E (chainTxs block)) node (Block.truncate block)
                   (Some [], SetBestHash parentHash NewUtxoViewpoint) of
              (Inl err, _) \<Rightarrow>
                if isRuleError err then (Inl err, flushIndexState (markNode node statusValidateFailed b)) else (Inl err, b)
            | (Inr _, stxos, view) \<Rightarrow>
                let b = flushIndexState (markNode node statusValid b) in
                (case connectBlock E node block view (case stxos of Some l \<Rightarrow> l | None \<Rightarrow> []) b of
                   (Inl err, b) \<Rightarrow>
                     (Inl err, flushIndexState (if isRuleError err then markNode node statusValidateFailed b else b))
                 | (Inr _, b) \<Rightarrow>
                     (Inr True, if \<not> KnownValid (NodeStatus (bc_index b) node)
                                then flushIndexState (markNode node statusValid b) else b))))
         else (Inl AssertError, b))"

section \<open>Accepting a block\<close>

definition maybeAcceptBlock :: "chainEnv \<Rightarrow> ChainBlock \<Rightarrow> bool chainM" where
  "maybeAcceptBlock E block = (\<lambda>b.
     case LookupNode (bc_index b) (PrevBlock (header block)) of
       None \<Rightarrow> (Inl (ruleError ErrPreviousBlockUnknown), b)
     | Some prevNode \<Rightarrow>
         if KnownInvalid (NodeStatus (bc_index b) prevNode) then (Inl (ruleError ErrInvalidAncestorBlock), b)
         else
           let block = block\<lparr>bHeight := height prevNode + 1\<rparr> in
           (case checkBlockContext (env_crypto E) (msgBlock block) prevNode of
              Inl err \<Rightarrow> (Inl err, b)
            | Inr _ \<Rightarrow>
                let b = dbStoreBlock block b;
                    newNode = newBlockNode (header block) (Some prevNode) (bVotes block);
                    b = b\<lparr>bc_index := flushToDB (AddNode newNode ((bc_index b)\<lparr>status := (status (bc_index b))(newNode := statusDataStored)\<rparr>))\<rparr> in
                connectBestChain E newNode block b))"

definition blockExists :: "bytes \<Rightarrow> BlockChain \<Rightarrow> bool" where
  "blockExists h b = (HaveBlock (bc_index b) h \<or> blockBucket b h \<noteq> None \<and> hashIndexBucket b h \<noteq> None)"

section \<open>Blocks without their parent\<close>

definition addOrphanBlock :: "ChainBlock \<Rightarrow> BlockChain \<Rightarrow> BlockChain" where
  "addOrphanBlock block b =
     (let prevHash = PrevBlock (header block) in
      b\<lparr>orphans := (orphans b)(cbHash block \<mapsto> block),
        prevOrphans := (prevOrphans b)(prevHash \<mapsto> (case prevOrphans b prevHash of Some l \<Rightarrow> l | None \<Rightarrow> []) @ [block])\<rparr>)"

definition removeOrphanBlock :: "ChainBlock \<Rightarrow> BlockChain \<Rightarrow> BlockChain" where
  "removeOrphanBlock orphan b =
     (let orphanHash = cbHash orphan;
          prevHash = PrevBlock (header orphan);
          left = filter (\<lambda>o'. cbHash o' \<noteq> orphanHash) (case prevOrphans b prevHash of Some l \<Rightarrow> l | None \<Rightarrow> []) in
      b\<lparr>orphans := (orphans b)(orphanHash := None),
        prevOrphans := (prevOrphans b)(prevHash := (if left = [] then None else Some left))\<rparr>)"

definition IsKnownOrphan :: "bytes \<Rightarrow> BlockChain \<Rightarrow> bool" where
  "IsKnownOrphan h b = (orphans b h \<noteq> None)"

definition HaveBlockOrOrphan :: "bytes \<Rightarrow> BlockChain \<Rightarrow> bool" where
  "HaveBlockOrOrphan h b = (blockExists h b \<or> IsKnownOrphan h b)"

text \<open>
  The loops over the orphans of one block and over the blocks that became known.  Nothing in them
  ensures that they end, so not returning is the value None.
\<close>

partial_function (option) orphanLoop :: "chainEnv \<Rightarrow> bytes \<Rightarrow> bytes list \<Rightarrow> BlockChain \<Rightarrow>
    ((chain_err + bytes list) \<times> BlockChain) option" where
  "orphanLoop E processHash processHashes b =
     (case prevOrphans b processHash of
        None \<Rightarrow> Some (Inr processHashes, b)
      | Some [] \<Rightarrow> Some (Inr processHashes, b)
      | Some (orphan # _) \<Rightarrow>
          (case maybeAcceptBlock E orphan (removeOrphanBlock orphan b) of
             (r, b') \<Rightarrow>
               (case r of
                  Inl err \<Rightarrow> Some (Inl err, b')
                | Inr _ \<Rightarrow> orphanLoop E processHash (processHashes @ [cbHash orphan]) b')))"

partial_function (option) processLoop :: "chainEnv \<Rightarrow> bytes list \<Rightarrow> BlockChain \<Rightarrow> ((chain_err + unit) \<times> BlockChain) option" where
  "processLoop E processHashes b =
     (case processHashes of
        [] \<Rightarrow> Some (Inr (), b)
      | processHash # rest \<Rightarrow>
          Option.bind (orphanLoop E processHash rest b) (\<lambda>res.
            case res of (r, b') \<Rightarrow>
              (case r of
                 Inl err \<Rightarrow> Some (Inl err, b')
               | Inr processHashes \<Rightarrow> processLoop E processHashes b')))"

definition processOrphans :: "chainEnv \<Rightarrow> bytes \<Rightarrow> BlockChain \<Rightarrow> ((chain_err + unit) \<times> BlockChain) option" where
  "processOrphans E h b = processLoop E [h] b"

section \<open>Blocks that arrive\<close>

text \<open>The results of a block tell whether it is on the main chain and whether it is an orphan.\<close>

definition acceptAndProcess :: "chainEnv \<Rightarrow> ChainBlock \<Rightarrow> BlockChain \<Rightarrow> ((chain_err + bool) \<times> BlockChain) option" where
  "acceptAndProcess E block b =
     (case maybeAcceptBlock E block b of
        (Inl err, b) \<Rightarrow> Some (Inl err, b)
      | (Inr isMainChain, b) \<Rightarrow>
          Option.bind (processOrphans E (cbHash block) b) (\<lambda>res.
            case res of
              (Inl err, b) \<Rightarrow> Some (Inl err, b)
            | (Inr _, b) \<Rightarrow> Some (Inr isMainChain, b)))"

definition ProcessBlock :: "chainEnv \<Rightarrow> ChainBlock \<Rightarrow> BlockChain \<Rightarrow> ((chain_err + bool \<times> bool) \<times> BlockChain) option" where
  "ProcessBlock E block b =
     (if blockExists (cbHash block) b then Some (Inl (ruleError ErrDuplicateBlock), b)
      else if orphans b (cbHash block) \<noteq> None then Some (Inl (ruleError ErrDuplicateBlock), b)
      else if \<not> blockExists (PrevBlock (header block)) b then Some (Inr (False, True), addOrphanBlock block b)
      else (case LookupNode (bc_index b) (PrevBlock (header block)) of
         None \<Rightarrow> Some (Inl ChainPanic, b)
       | Some node \<Rightarrow>
           let seed = DoubleHashB (n_signature (nodeFields node)) in
           (case BlockVerge (Scale (header block)) of
              None \<Rightarrow> Some (Inl ChainPanic, b)
            | Some verge \<Rightarrow>
                (case checkBlockSanity (env_crypto E) (msgBlock block) seed verge (candidates E) of
                   Inl err \<Rightarrow> Some (Inl err, b)
                 | Inr _ \<Rightarrow>
                     map_option (\<lambda>(r, b). (map_sum id (\<lambda>isMainChain. (isMainChain, False)) r, b)) (acceptAndProcess E block b)))))"

definition ProcessSyncBlock :: "chainEnv \<Rightarrow> ChainBlock \<Rightarrow> BlockChain \<Rightarrow> ((chain_err + bool) \<times> BlockChain) option" where
  "ProcessSyncBlock E block b =
     (if blockExists (cbHash block) b then Some (Inl (ruleError ErrDuplicateBlock), b)
      else if orphans b (cbHash block) \<noteq> None then Some (Inl (ruleError ErrDuplicateBlock), b)
      else if \<not> blockExists (PrevBlock (header block)) b then Some (Inr True, addOrphanBlock block b)
      else map_option (\<lambda>(r, b). (map_sum id (\<lambda>_. True) r, b)) (acceptAndProcess E block b))"

text \<open>A new chain: only the genesis block, whose output is not spendable.\<close>

definition createChainState :: "MsgBlock \<Rightarrow> chain_err + BlockChain" where
  "createChainState genesisBlock =
     (let h = Header genesisBlock; node = newBlockNode h None 1;
          numTxns = of_nat (length (Transactions genesisBlock));
          state = newBestState node (of_nat (MsgBlock_SerializeSize genesisBlock)) (of_int (GetBlockWeight genesisBlock))
            numTxns numTxns (hSignature h) (hPublicKey h) (Scale h) (Reserved h) (n_timestamp (nodeFields node)) 1 in
      map_sum id (\<lambda>c. dbPutBestState state (dbPutBlockIndex (hash node) (height node)
        \<lparr>bc_index = (addNode node newBlockIndex)\<lparr>status := (status newBlockIndex)(node := statusDataStored OR statusValid)\<rparr>,
         bestChain = c, utxoBucket = Map.empty, journalBucket = Map.empty, blockBucket = [hash node \<mapsto> genesisBlock],
         chainStateKey = \<lparr>bcs_hash = [], bcs_height = 0, bcs_totalTxns = 0, bcs_scale = 0, bcs_reserved = 0, bcs_votes = 0,
           bcs_signature = [], bcs_pubKey = []\<rparr>,
         hashIndexBucket = Map.empty, heightIndexBucket = Map.empty, orphans = Map.empty, prevOrphans = Map.empty,
         stateSnapshot = state, unknownVersionsWarned = False\<rparr>))
        (newChainView (Some node)))"

section \<open>The pool of orphans\<close>

definition orphansOf :: "BlockChain \<Rightarrow> bytes \<Rightarrow> ChainBlock list" where
  "orphansOf b h = (case prevOrphans b h of Some l \<Rightarrow> l | None \<Rightarrow> [])"

text \<open>The two indexes of the pool hold the same blocks.\<close>

definition pool_ok :: "BlockChain \<Rightarrow> bool" where
  "pool_ok b = (finite (dom (orphans b)) \<and> (\<forall>h o'. orphans b h = Some o' \<longrightarrow> cbHash o' = h) \<and>
     (\<forall>h. prevOrphans b h \<noteq> Some [] \<and> distinct (map cbHash (orphansOf b h)) \<and>
        set (orphansOf b h) = {o'. orphans b (cbHash o') = Some o' \<and> PrevBlock (header o') = h}))"

definition samePool :: "BlockChain \<Rightarrow> BlockChain \<Rightarrow> bool" where
  "samePool b b' = (orphans b' = orphans b \<and> prevOrphans b' = prevOrphans b)"

lemma samePool_pool_ok: "samePool b b' \<Longrightarrow> pool_ok b' = pool_ok b"
  by (simp add: samePool_def pool_ok_def orphansOf_def)

lemma pool_simps [simp]:
  "orphans (flushIndexState b) = orphans b" "prevOrphans (flushIndexState b) = prevOrphans b"
  "orphans (markNode n fs b) = orphans b" "prevOrphans (markNode n fs b) = prevOrphans b"
  "orphans (warnUnknownVersions n b) = orphans b" "prevOrphans (warnUnknownVersions n b) = prevOrphans b"
  "orphans (dbPutBestState st b) = orphans b" "prevOrphans (dbPutBestState st b) = prevOrphans b"
  "orphans (dbPutBlockIndex h x b) = orphans b" "prevOrphans (dbPutBlockIndex h x b) = prevOrphans b"
  "orphans (dbStoreBlock block b) = orphans b" "prevOrphans (dbStoreBlock block b) = prevOrphans b"
  by (simp_all add: flushIndexState_def markNode_def warnUnknownVersions_def dbPutBestState_def dbPutBlockIndex_def dbStoreBlock_def)

lemma dbConnect_pool: "dbConnect E node block view stxos state b = Inr b' \<Longrightarrow> samePool b b'"
  by (auto simp: dbConnect_def samePool_def Let_def bindE_Inr_iff split: option.splits)

lemma connectBlock_pool: "samePool b (snd (connectBlock E node block view stxos b))"
  using dbConnect_pool [of E node block view stxos]
  by (auto simp: connectBlock_def samePool_def Let_def split: option.splits sum.splits)

lemma connectBestChain_pool: "samePool b (snd (connectBestChain E node block b))"
proof -
  have "samePool b b2" if "connectBlock E node block view stxos (flushIndexState (markNode node statusValid b)) = (r, b2)" for view stxos r b2
    using connectBlock_pool [of "flushIndexState (markNode node statusValid b)" E node block view stxos] that by (simp add: samePool_def)
  then show ?thesis
    by (auto simp: connectBestChain_def Let_def samePool_def split: option.splits sum.splits prod.splits) 
qed

lemma maybeAcceptBlock_pool: "samePool b (snd (maybeAcceptBlock E block b))"
  using connectBestChain_pool
  by (auto simp: maybeAcceptBlock_def Let_def samePool_def split: option.splits sum.splits)

lemma remove_simps:
  "orphans (removeOrphanBlock orphan b) = (orphans b)(cbHash orphan := None)"
  "orphansOf (removeOrphanBlock orphan b) h =
     (if h = PrevBlock (header orphan) then filter (\<lambda>o'. cbHash o' \<noteq> cbHash orphan) (orphansOf b h) else orphansOf b h)"
  "prevOrphans b h \<noteq> Some [] \<Longrightarrow> prevOrphans (removeOrphanBlock orphan b) h \<noteq> Some []"
  by (simp_all add: removeOrphanBlock_def orphansOf_def Let_def)

lemma pool_remove:
  assumes "pool_ok b" "orphans b (cbHash orphan) = Some orphan"
  shows "pool_ok (removeOrphanBlock orphan b)"
    "card (dom (orphans (removeOrphanBlock orphan b))) + 1 = card (dom (orphans b))"
proof -
  let ?b = "removeOrphanBlock orphan b"
  have p: "finite (dom (orphans b))" "\<And>h o'. orphans b h = Some o' \<Longrightarrow> cbHash o' = h" "\<And>h. prevOrphans b h \<noteq> Some []"
      "\<And>h. distinct (map cbHash (orphansOf b h))"
      "\<And>h. set (orphansOf b h) = {o'. orphans b (cbHash o') = Some o' \<and> PrevBlock (header o') = h}"
    using assms(1) unfolding pool_ok_def by blast+
  have "set (orphansOf ?b h) = {o'. orphans ?b (cbHash o') = Some o' \<and> PrevBlock (header o') = h}" for h
  proof (cases "h = PrevBlock (header orphan)")
    case True
    then show ?thesis unfolding remove_simps using p(5) [of h] by auto
  next
    case False
    have "{o'. orphans b (cbHash o') = Some o' \<and> PrevBlock (header o') = h} =
        {o'. ((orphans b)(cbHash orphan := None)) (cbHash o') = Some o' \<and> PrevBlock (header o') = h}"
      using False assms(2) by (intro Collect_cong) (metis fun_upd_apply option.distinct(1) option.inject)
    then show ?thesis unfolding remove_simps using p(5) [of h] False by simp
  qed
  moreover have "distinct (map cbHash (orphansOf ?b h))" for h
    unfolding remove_simps using p(4) [of h] by (cases "h = PrevBlock (header orphan)") (simp_all add: distinct_map_filter)
  moreover have "cbHash o' = h" if "orphans ?b h = Some o'" for h o'
    using that p(2) [of h o'] by (simp add: remove_simps split: if_splits)
  moreover have "finite (dom (orphans ?b))" unfolding remove_simps using p(1) by simp
  moreover have "prevOrphans ?b h \<noteq> Some []" for h by (rule remove_simps(3) [OF p(3)])
  ultimately show "pool_ok ?b" unfolding pool_ok_def by blast
  have "cbHash orphan \<in> dom (orphans b)" using assms(2) by blast
  then show "card (dom (orphans ?b)) + 1 = card (dom (orphans b))"
    unfolding remove_simps dom_fun_upd using card.remove [OF p(1)] by simp
qed

lemma add_simps:
  "orphans (addOrphanBlock block b) = (orphans b)(cbHash block \<mapsto> block)"
  "orphansOf (addOrphanBlock block b) h =
     (if h = PrevBlock (header block) then orphansOf b h @ [block] else orphansOf b h)"
  "prevOrphans b h \<noteq> Some [] \<Longrightarrow> prevOrphans (addOrphanBlock block b) h \<noteq> Some []"
  by (simp_all add: addOrphanBlock_def orphansOf_def Let_def)

lemma pool_add:
  assumes "pool_ok b" "orphans b (cbHash block) = None"
  shows "pool_ok (addOrphanBlock block b)" "card (dom (orphans (addOrphanBlock block b))) = card (dom (orphans b)) + 1"
proof -
  let ?b = "addOrphanBlock block b"
  have p: "finite (dom (orphans b))" "\<And>h o'. orphans b h = Some o' \<Longrightarrow> cbHash o' = h" "\<And>h. prevOrphans b h \<noteq> Some []"
      "\<And>h. distinct (map cbHash (orphansOf b h))"
      "\<And>h. set (orphansOf b h) = {o'. orphans b (cbHash o') = Some o' \<and> PrevBlock (header o') = h}"
    using assms(1) unfolding pool_ok_def by blast+
  have new: "cbHash block \<notin> set (map cbHash (orphansOf b h))" for h using p(5) [of h] assms(2) by force
  have iff: "((orphans b)(cbHash block \<mapsto> block)) (cbHash o') = Some o' \<longleftrightarrow> o' = block \<or> orphans b (cbHash o') = Some o'" for o'
    using assms(2) by (cases "cbHash o' = cbHash block") (auto simp: eq_commute)
  have "set (orphansOf ?b h) = {o'. orphans ?b (cbHash o') = Some o' \<and> PrevBlock (header o') = h}" for h
    unfolding add_simps iff using p(5) [of h] by auto
  moreover have "distinct (map cbHash (orphansOf ?b h))" for h
    unfolding add_simps using p(4) [of h] new [of h] by (cases "h = PrevBlock (header block)") simp_all
  moreover have "cbHash o' = h" if "orphans ?b h = Some o'" for h o'
    using that p(2) [of h o'] by (simp add: add_simps split: if_splits)
  moreover have "finite (dom (orphans ?b))" unfolding add_simps using p(1) by simp
  moreover have "prevOrphans ?b h \<noteq> Some []" for h by (rule add_simps(3) [OF p(3)])
  ultimately show "pool_ok ?b" unfolding pool_ok_def by blast
  have "cbHash block \<notin> dom (orphans b)" using assms(2) by blast
  then show "card (dom (orphans ?b)) = card (dom (orphans b)) + 1" unfolding add_simps dom_fun_upd using p(1) by simp
qed

lemma pool_first:
  assumes "pool_ok b" "prevOrphans b h = Some (orphan # l)"
  shows "orphans b (cbHash orphan) = Some orphan" "PrevBlock (header orphan) = h"
proof -
  have "orphan \<in> set (orphansOf b h)" using assms(2) by (simp add: orphansOf_def)
  then show "orphans b (cbHash orphan) = Some orphan" "PrevBlock (header orphan) = h" using assms(1) by (auto simp: pool_ok_def)
qed

section \<open>Processing orphans ends\<close>

text \<open>An invariant that accepting an orphan keeps, with what it may use about the orphan.\<close>

definition accepts :: "chainEnv \<Rightarrow> (BlockChain \<Rightarrow> bool) \<Rightarrow> bool" where
  "accepts E I = (\<forall>b orphan. I b \<longrightarrow> pool_ok b \<longrightarrow> orphans b (cbHash orphan) = Some orphan \<longrightarrow>
     I (snd (maybeAcceptBlock E orphan (removeOrphanBlock orphan b))))"

lemma orphanLoop_ends:
  assumes "pool_ok b" "accepts E I" "I b"
  shows "\<exists>r b'. orphanLoop E h hs b = Some (r, b') \<and> pool_ok b' \<and> I b' \<and>
    (\<forall>hs'. r = Inr hs' \<longrightarrow> card (dom (orphans b')) + length hs' = card (dom (orphans b)) + length hs)"
  using assms(1,3)
proof (induction "card (dom (orphans b))" arbitrary: b hs rule: less_induct)
  case less
  show ?case
  proof (cases "prevOrphans b h")
    case None
    then show ?thesis using less.prems by (simp add: orphanLoop.simps [of E h hs b])
  next
    case (Some l)
    then obtain orphan l' where l: "prevOrphans b h = Some (orphan # l')" using less.prems(1) by (cases l) (auto simp: pool_ok_def)
    note o = pool_first [OF less.prems(1) l] and rem = pool_remove [OF less.prems(1) pool_first(1) [OF less.prems(1) l]]
    obtain r b1 where m: "maybeAcceptBlock E orphan (removeOrphanBlock orphan b) = (r, b1)" by fastforce
    then have p: "samePool (removeOrphanBlock orphan b) b1" using maybeAcceptBlock_pool [of "removeOrphanBlock orphan b" E orphan] by simp
    have b1: "pool_ok b1" "card (dom (orphans b1)) + 1 = card (dom (orphans b))" "I b1"
      using samePool_pool_ok [OF p] rem p m assms(2) less.prems o(1) unfolding samePool_def accepts_def by (simp_all, metis snd_conv)
    show ?thesis
    proof (cases r)
      case (Inl err)
      then show ?thesis using b1 by (simp add: orphanLoop.simps [of E h hs b] l m)
    next
      case (Inr _)
      have "orphanLoop E h hs b = orphanLoop E h (hs @ [cbHash orphan]) b1" using Inr by (simp add: orphanLoop.simps [of E h hs b] l m)
      then show ?thesis using less.hyps [of b1 "hs @ [cbHash orphan]"] b1 by fastforce
    qed
  qed
qed

lemma processLoop_ends:
  assumes "pool_ok b" "accepts E I" "I b"
  shows "\<exists>r b'. processLoop E hs b = Some (r, b') \<and> pool_ok b' \<and> I b'"
  using assms(1,3)
proof (induction "card (dom (orphans b)) + length hs" arbitrary: b hs rule: less_induct)
  case less
  show ?case
  proof (cases hs)
    case Nil
    then show ?thesis using less.prems by (simp add: processLoop.simps [of E "[]" b])
  next
    case (Cons h rest)
    obtain r b1 where o: "orphanLoop E h rest b = Some (r, b1)" "pool_ok b1" "I b1"
        "\<And>hs'. r = Inr hs' \<Longrightarrow> card (dom (orphans b1)) + length hs' = card (dom (orphans b)) + length rest"
      using orphanLoop_ends [OF less.prems(1) assms(2) less.prems(2), of h rest] by auto
    show ?thesis
    proof (cases r)
      case (Inl err)
      then show ?thesis using o by (simp add: Cons processLoop.simps [of E "h # rest" b])
    next
      case (Inr hs')
      have "processLoop E hs b = processLoop E hs' b1" using o(1) Inr by (simp add: Cons processLoop.simps [of E "h # rest" b])
      then show ?thesis using less.hyps [of b1 hs'] o Inr Cons by simp
    qed
  qed
qed

lemma acceptAndProcess_ends:
  assumes "pool_ok b" "accepts E I" "I (snd (maybeAcceptBlock E block b))"
  shows "\<exists>r b'. acceptAndProcess E block b = Some (r, b') \<and> pool_ok b' \<and> I b'"
proof -
  obtain r b1 where m: "maybeAcceptBlock E block b = (r, b1)" by fastforce
  have "samePool b b1" using maybeAcceptBlock_pool [of b E block] m by simp
  then have p: "pool_ok b1" using assms(1) samePool_pool_ok by blast
  have i: "I b1" using assms(3) m by simp
  show ?thesis
  proof (cases r)
    case (Inl err)
    then show ?thesis using p i m by (simp add: acceptAndProcess_def)
  next
    case (Inr x)
    obtain q b2 where "processLoop E [cbHash block] b1 = Some (q, b2)" "pool_ok b2" "I b2"
      using processLoop_ends [OF p assms(2) i] by blast
    then show ?thesis using Inr m by (cases q) (simp_all add: acceptAndProcess_def processOrphans_def)
  qed
qed

section \<open>What a block changes\<close>

abbreviation idx :: "BlockChain \<Rightarrow> bytes \<rightharpoonup> blockNode" where "idx b \<equiv> index (bc_index b)"

text \<open>The best chain with everything the database knows about it.\<close>

definition sameChain :: "BlockChain \<Rightarrow> BlockChain \<Rightarrow> bool" where
  "sameChain b b' = (bestChain b' = bestChain b \<and> utxoBucket b' = utxoBucket b \<and> journalBucket b' = journalBucket b \<and>
     chainStateKey b' = chainStateKey b \<and> hashIndexBucket b' = hashIndexBucket b \<and>
     heightIndexBucket b' = heightIndexBucket b \<and> stateSnapshot b' = stateSnapshot b)"

text \<open>The known blocks; only the status of one node may differ.\<close>

definition sameTree :: "blockNode \<Rightarrow> BlockChain \<Rightarrow> BlockChain \<Rightarrow> bool" where
  "sameTree node b b' = (idx b' = idx b \<and> blockBucket b' = blockBucket b \<and>
     (\<forall>m. m \<noteq> node \<longrightarrow> NodeStatus (bc_index b') m = NodeStatus (bc_index b) m))"

definition bestOf :: "BestState \<Rightarrow> bestChainState" where
  "bestOf st = \<lparr>bcs_hash = bs_Hash st, bcs_height = bs_Height st, bcs_totalTxns = bs_TotalTxns st,
     bcs_scale = bs_Scale st, bcs_reserved = bs_Reserved st, bcs_votes = bs_Votes st,
     bcs_signature = bs_Signature st, bcs_pubKey = bs_PubKey st\<rparr>"

text \<open>The block was connected on top of the best chain.\<close>

definition extends :: "blockNode \<Rightarrow> ChainBlock \<Rightarrow> UtxoViewpoint \<Rightarrow> BlockChain \<Rightarrow> BlockChain \<Rightarrow> bool" where
  "extends node block view b b' = (view_of (Some node) (bestChain b') \<and> utxoBucket b' = dbPutUtxoView view (utxoBucket b) \<and>
     (\<exists>stxos. journalBucket b' = (journalBucket b)(cbHash block \<mapsto> stxos)) \<and>
     chainStateKey b' = bestOf (stateSnapshot b') \<and> hashIndexBucket b' = (hashIndexBucket b)(cbHash block \<mapsto> height node) \<and>
     heightIndexBucket b' = (heightIndexBucket b)(height node \<mapsto> cbHash block) \<and>
     bs_Hash (stateSnapshot b') = hash node \<and> bs_Height (stateSnapshot b') = height node \<and>
     bs_TotalTxns (stateSnapshot b') = bs_TotalTxns (stateSnapshot b) + of_nat (length (chainTxs block)))"

lemmas same_defs = sameChain_def sameTree_def samePool_def

lemma tip_view_of: "view_of (Some t) c \<Longrightarrow> tip c = Some t"
  using last_conv_nth [of "path t"] by (simp add: view_of_def tip_def)

lemma flush_simps [simp]:
  "idx (flushIndexState b) = idx b" "NodeStatus (bc_index (flushIndexState b)) = NodeStatus (bc_index b)"
  "idx (markNode n fs b) = idx b" "index (flushToDB bi) = index bi" "NodeStatus (flushToDB bi) = NodeStatus bi"
  "NodeStatus (bc_index (markNode n fs b)) = (NodeStatus (bc_index b))(n := NodeStatus (bc_index b) n OR fs)"
  by (simp_all add: flushIndexState_def markNode_def flushToDB_def SetStatusFlags_def NodeStatus_def fun_eq_iff)

lemma same_marks:
  "sameChain b (flushIndexState c) = sameChain b c" "sameTree n b (flushIndexState c) = sameTree n b c"
  "sameChain b (markNode n fs c) = sameChain b c" "sameTree n b (markNode n fs c) = sameTree n b c"
  "extends n block view b (flushIndexState c) = extends n block view b c" "extends n block view b (markNode n fs c) = extends n block view b c"
  "extends n block view (flushIndexState b) c = extends n block view b c" "extends n block view (markNode n fs b) c = extends n block view b c"
  "sameChain (flushIndexState b) c = sameChain b c" "sameChain (markNode n fs b) c = sameChain b c"
  "sameTree n (flushIndexState b) c = sameTree n b c" "sameTree n (markNode n fs b) c = sameTree n b c"
  by (simp_all add: same_defs extends_def) (simp_all add: flushIndexState_def markNode_def)

lemma KnownValid_mark [simp]: "KnownValid (s OR statusValid)"
proof -
  have "bit ((s OR statusValid) AND statusValid) 1" by (simp add: bit_and_iff bit_or_iff statusValid_def bit_numeral_rec bit_1_iff)
  then show ?thesis unfolding KnownValid_def by fastforce
qed

lemma dbConnect_fields:
  assumes "dbConnect E node block view stxos state b = Inr b'"
  shows "bestChain b' = bestChain b" "stateSnapshot b' = stateSnapshot b" "bc_index b' = bc_index b" "blockBucket b' = blockBucket b"
    "utxoBucket b' = dbPutUtxoView view (utxoBucket b)" "journalBucket b' = (journalBucket b)(cbHash block \<mapsto> stxos)"
    "chainStateKey b' = bestOf state" "hashIndexBucket b' = (hashIndexBucket b)(cbHash block \<mapsto> height node)"
    "heightIndexBucket b' = (heightIndexBucket b)(height node \<mapsto> cbHash block)"
  using assms by (auto simp: dbConnect_def Let_def bindE_Inr_iff dbPutBestState_def dbPutBlockIndex_def bestOf_def split: option.splits)

lemma blockState_fields:
  "bs_Hash (blockState node block n) = hash node" "bs_Height (blockState node block n) = height node"
  "bs_TotalTxns (blockState node block n) = n + of_nat (length (chainTxs block))"
  by (simp_all add: blockState_def newBestState_def Let_def)

lemma connectBlock_cases:
  assumes "connectBlock E node block view stxos b = (r, b')" "view_of (Some t) (bestChain b)" "node_ok node"
    "sint (height node) < 2 ^ 31 - 1 - 1008"
  shows "sameTree node b b' \<and> NodeStatus (bc_index b') = NodeStatus (bc_index b) \<and>
    ((\<exists>err. r = Inl err) \<and> sameChain b b' \<or> r = Inr () \<and> extends node block view b b')"
proof -
  define w where "w = (if isCurrent E t then warnUnknownVersions node b else b)\<lparr>bc_index := flushToDB (bc_index b)\<rparr>"
  have w: "sameChain b w" "sameTree node b w" "NodeStatus (bc_index w) = NodeStatus (bc_index b)" "bestChain w = bestChain b"
    by (simp_all add: w_def warnUnknownVersions_def same_defs)
  have wi: "bc_index (warnUnknownVersions node b) = bc_index b" by (simp add: warnUnknownVersions_def)
  obtain c where c: "setTip (Some node) (bestChain b) = Inr c" "view_of (Some node) c" using setTip_eq [OF assms(2,3,4)] by blast
  show ?thesis
  proof (cases "PrevBlock (header block) \<noteq> hash t \<or> countSpentOutputs (Block.truncate block) \<noteq> Inr (length stxos)")
    case True
    then show ?thesis using assms(1) tip_view_of [OF assms(2)]
      by (auto simp: connectBlock_def same_defs split: sum.splits if_splits)
  next
    case False
    define state where "state = blockState node block (bs_TotalTxns (stateSnapshot w))"
    have eq: "connectBlock E node block view stxos b = (case dbConnect E node block view stxos state w of
                   Inl err \<Rightarrow> (Inl err, w)
                 | Inr b \<Rightarrow> (case setTip (Some node) (bestChain b) of
                        Inl err \<Rightarrow> (Inl err, b)
                      | Inr c \<Rightarrow> (Inr (), b\<lparr>bestChain := c, stateSnapshot := state\<rparr>)))"
      using False tip_view_of [OF assms(2)] by (cases "isCurrent E t") (simp_all add: connectBlock_def state_def w_def wi Let_def cong: sum.case_cong)
    show ?thesis
    proof (cases "dbConnect E node block view stxos state w")
      case (Inl err)
      then show ?thesis using assms(1) w unfolding eq by auto
    next
      case (Inr d)
      note f = dbConnect_fields [OF Inr]
      have b': "b' = d\<lparr>bestChain := c, stateSnapshot := state\<rparr>" "r = Inr ()" using assms(1) Inr c(1) f(1) w(4) unfolding eq by simp_all
      have s: "bs_Hash state = hash node" "bs_Height state = height node"
          "bs_TotalTxns state = bs_TotalTxns (stateSnapshot b) + of_nat (length (chainTxs block))"
        using w(1) by (simp_all add: state_def blockState_fields sameChain_def)
      show ?thesis using f s w c(2) unfolding b' by (auto simp: same_defs extends_def)
    qed
  qed
qed

definition connectView :: "ChainBlock \<Rightarrow> UtxoViewpoint" where
  "connectView block = SetBestHash (PrevBlock (header block)) NewUtxoViewpoint"

lemma connectBestChain_cases:
  assumes "connectBestChain E node block b = (r, b')" "view_of (Some t) (bestChain b)" "node_ok node"
    "sint (height node) < 2 ^ 31 - 1 - 1008"
  shows "sameTree node b b' \<and>
    ((\<exists>err. r = Inl err) \<and> sameChain b b' \<or>
     r = Inr True \<and> PrevBlock (header block) = hash t \<and> KnownValid (NodeStatus (bc_index b') node) \<and>
     (\<exists>st view. checkConnectBlock (chainParams E) (dbOf E b) (scriptCheck E (chainTxs block)) node (Block.truncate block)
         (Some [], connectView block) = (Inr (), st, view) \<and> extends node block view b b'))"
proof (cases "PrevBlock (header block) = hash t \<and> (\<exists>n. countSpentOutputs (Block.truncate block) = Inr n)")
  case False
  then show ?thesis using assms(1) tip_view_of [OF assms(2)]
    by (auto simp: connectBestChain_def same_defs Let_def split: sum.splits if_splits)
next
  case True
  let ?check = "checkConnectBlock (chainParams E) (dbOf E b) (scriptCheck E (chainTxs block)) node (Block.truncate block)
    (Some [], connectView block)"
  obtain x st view where c: "?check = (x, st, view)" by (metis prod.collapse)
  show ?thesis
  proof (cases x)
    case (Inl err)
    then have "(r, b') = (if isRuleError err then (Inl err, flushIndexState (markNode node statusValidateFailed b)) else (Inl err, b))"
      using assms(1) True tip_view_of [OF assms(2)] c by (auto simp: connectBestChain_def connectView_def Let_def)
    moreover have "sameTree node b b" "sameChain b b" by (simp_all add: same_defs)
    ultimately show ?thesis by (auto simp: same_marks split: if_splits)
  next
    case (Inr u)
    let ?b = "flushIndexState (markNode node statusValid b)"
    obtain q d where d: "connectBlock E node block view (case st of Some l \<Rightarrow> l | None \<Rightarrow> []) ?b = (q, d)" by fastforce
    have "view_of (Some t) (bestChain ?b)" using assms(2) by (simp add: flushIndexState_def markNode_def)
    note cb = connectBlock_cases [OF d this assms(3,4)]
    have v: "KnownValid (NodeStatus (bc_index d) node)" using cb by simp
    have "(r, b') = (case q of
        Inl err \<Rightarrow> (Inl err, flushIndexState (if isRuleError err then markNode node statusValidateFailed d else d))
      | Inr _ \<Rightarrow> (Inr True, if \<not> KnownValid (NodeStatus (bc_index d) node) then flushIndexState (markNode node statusValid d) else d))"
      using assms(1) True tip_view_of [OF assms(2)] c Inr d
      by (auto simp: connectBestChain_def connectView_def Let_def split: sum.splits)
    then show ?thesis using cb v c Inr True by (auto simp: same_marks split: sum.splits if_splits)
  qed
qed

text \<open>A block that is not refused at once gets its node, and its transactions are stored.\<close>

definition nodeOf :: "ChainBlock \<Rightarrow> blockNode \<Rightarrow> blockNode" where
  "nodeOf block p = newBlockNode (header block) (Some p) (bVotes block)"

definition adds :: "blockNode \<Rightarrow> ChainBlock \<Rightarrow> BlockChain \<Rightarrow> BlockChain \<Rightarrow> bool" where
  "adds node block b b' = (idx b' = (idx b)(cbHash block \<mapsto> node) \<and>
     blockBucket b' = (if blockBucket b (cbHash block) \<noteq> None then blockBucket b else (blockBucket b)(cbHash block \<mapsto> msgBlock block)) \<and>
     (\<forall>m. m \<noteq> node \<longrightarrow> NodeStatus (bc_index b') m = NodeStatus (bc_index b) m))"

lemma nodeOf_fields: "hash (nodeOf block p) = cbHash block" "height (nodeOf block p) = height p + 1" "parent (nodeOf block p) = Some p"
  "path (nodeOf block p) = path p @ [nodeOf block p]"
  by (simp_all add: nodeOf_def newBlockNode_def)

lemma maybeAcceptBlock_cases:
  assumes "maybeAcceptBlock E block b = (r, b')" "view_of (Some t) (bestChain b)"
    "\<forall>h p. idx b h = Some p \<longrightarrow> node_ok p \<and> sint (height p) < 2 ^ 31 - 1010"
  shows "samePool b b' \<and> ((\<exists>err. r = Inl err) \<and> b' = b \<or>
    (\<exists>p. idx b (PrevBlock (header block)) = Some p \<and> adds (nodeOf block p) block b b' \<and>
      ((\<exists>err. r = Inl err) \<and> sameChain b b' \<or>
       r = Inr True \<and> PrevBlock (header block) = hash t \<and> KnownValid (NodeStatus (bc_index b') (nodeOf block p)) \<and>
       (\<exists>st view B. blockTxs B = chainTxs block \<and>
         checkConnectBlock (chainParams E) (dbOf E b) (scriptCheck E (chainTxs block)) (nodeOf block p) B
         (Some [], connectView block) = (Inr (), st, view) \<and> extends (nodeOf block p) block view b b'))))"
proof -
  have pool: "samePool b b'" using maybeAcceptBlock_pool [of b E block] assms(1) by simp
  show ?thesis
  proof (cases "idx b (PrevBlock (header block))")
    case None
    then show ?thesis using assms(1) pool by (auto simp: maybeAcceptBlock_def LookupNode_def)
  next
    case (Some p)
    let ?block = "block\<lparr>bHeight := height p + 1\<rparr>"
    let ?n = "nodeOf block p"
    define b1 where "b1 = dbStoreBlock ?block b"
    define b2 where "b2 = b1\<lparr>bc_index := flushToDB (AddNode ?n ((bc_index b1)\<lparr>status := (status (bc_index b1))(?n := statusDataStored)\<rparr>))\<rparr>"
    have b2: "adds ?n block b b2" "sameChain b b2"
      by (auto simp: b2_def b1_def dbStoreBlock_def adds_def sameChain_def flushToDB_def AddNode_def addNode_def NodeStatus_def nodeOf_fields)
    have p: "node_ok p" "sint (height p) < 2 ^ 31 - 1010" using assms(3) Some by blast+
    then have n: "node_ok ?n" by (simp add: nodeOf_def newBlockNode_ok)
    have "sint (height ?n) < 2 ^ 31 - 1 - 1008" using node_ok_height [OF n] node_ok_height [OF p(1)] p(2) by (simp add: nodeOf_fields)
    note cases = connectBestChain_cases [OF _ _ n this, of E ?block b2 r b' t]
    consider "(\<exists>err. r = Inl err) \<and> b' = b" | "connectBestChain E ?n ?block b2 = (r, b')"
      using assms(1) Some
      by (auto simp: maybeAcceptBlock_def LookupNode_def b1_def b2_def nodeOf_def Let_def split: if_splits sum.splits)
    then show ?thesis
    proof cases
      case 1
      then show ?thesis using pool by blast
    next
      case 2
      have "view_of (Some t) (bestChain b2)" using assms(2) b2(2) by (simp add: sameChain_def)
      note c = cases [OF 2 this]
      have "adds ?n block b b'" using b2(1) c by (auto simp: adds_def sameTree_def)
      moreover have "sameChain b b'" if "sameChain b2 b'" using that b2(2) by (simp add: sameChain_def)
      moreover have "dbOf E b2 = dbOf E b" using b2(2) by (simp add: dbOf_def sameChain_def)
      moreover have "connectView ?block = connectView block" by (simp add: connectView_def)
      moreover have "extends ?n block view b b'" if "extends ?n ?block view b2 b'" for view
        using that b2(2) by (simp add: extends_def sameChain_def)
      moreover have "blockTxs (Block.truncate ?block) = chainTxs block" by (simp add: Block.defs)
      ultimately show ?thesis using c pool Some by (auto 0 4)
    qed
  qed
qed

section \<open>A consistent chain\<close>

definition sane :: "MsgTx list \<Rightarrow> bool" where
  "sane txs = (\<exists>root size'. checkTransactions root size' txs = Inr ())"

text \<open>
  The known blocks form a tree: the ancestors of a node are known, its transactions are stored, and
  no orphan is known.  The number bounds the length of a path, were all orphans added to it.
\<close>

definition tree_ok :: "nat \<Rightarrow> BlockChain \<Rightarrow> bool" where
  "tree_ok n b = (dom (blockBucket b) = dom (idx b) \<and> dom (orphans b) \<inter> dom (idx b) = {} \<and>
     (\<forall>h o'. orphans b h = Some o' \<longrightarrow> sane (chainTxs o')) \<and>
     (\<forall>h m. idx b h = Some m \<longrightarrow> hash m = h \<and> node_ok m \<and> length (path m) + card (dom (orphans b)) \<le> Suc n \<and>
        (\<forall>a \<in> set (path m). idx b (hash a) = Some a)))"

definition txsOf :: "BlockChain \<Rightarrow> blockNode \<Rightarrow> MsgTx list" where
  "txsOf b m = Transactions (the (blockBucket b (hash m)))"

text \<open>The coins after all transactions of some blocks.\<close>

definition replay :: "BlockChain \<Rightarrow> blockNode list \<Rightarrow> coins" where
  "replay b ms = fold (\<lambda>m. fold (applyTx (height m)) (txsOf b m)) ms Map.empty"

text \<open>
  The database describes the best chain: the state, the two indexes, the spend journal, and the
  unspent outputs, which are those that its blocks leave.
\<close>

definition best_ok :: "Params \<Rightarrow> BlockChain \<Rightarrow> blockNode \<Rightarrow> bool" where
  "best_ok P b t = (view_of (Some t) (bestChain b) \<and> idx b (hash t) = Some t \<and>
     bs_Hash (stateSnapshot b) = hash t \<and> bs_Height (stateSnapshot b) = height t \<and>
     bs_TotalTxns (stateSnapshot b) = of_nat (\<Sum>m\<leftarrow>path t. length (txsOf b m)) \<and>
     chainStateKey b = bestOf (stateSnapshot b) \<and>
     (\<forall>h x. hashIndexBucket b h = Some x \<longleftrightarrow> (\<exists>m \<in> set (path t). hash m = h \<and> height m = x)) \<and>
     (\<forall>h x. heightIndexBucket b x = Some h \<longleftrightarrow> (\<exists>m \<in> set (path t). hash m = h \<and> height m = x)) \<and>
     dom (journalBucket b) = hash ` set (tl (path t)) \<and>
     (\<forall>m \<in> set (path t). KnownValid (NodeStatus (bc_index b) m)) \<and>
     ledger_chain P (length (path t)) (utxoBucket b) \<and> setCoins (utxoBucket b) = replay b (tl (path t)))"

lemma tree_ok_mono: "tree_ok n b \<Longrightarrow> tree_ok (Suc n) b"
  unfolding tree_ok_def by (meson le_SucI)

lemma tree_ok_adds:
  assumes "tree_ok n b" "adds (nodeOf block p) block b b'" "samePool b b'" "idx b (cbHash block) = None"
    "orphans b (cbHash block) = None" "idx b (PrevBlock (header block)) = Some p" "n < 2 ^ 31 - 2000"
  shows "tree_ok (Suc n) b'" "\<And>m. idx b (hash m) = Some m \<Longrightarrow> txsOf b' m = txsOf b m" "txsOf b' (nodeOf block p) = chainTxs block"
proof -
  let ?h = "cbHash block" and ?n = "nodeOf block p"
  have t: "dom (blockBucket b) = dom (idx b)" "dom (orphans b) \<inter> dom (idx b) = {}" "\<And>h o'. orphans b h = Some o' \<Longrightarrow> sane (chainTxs o')"
    "\<And>h m. idx b h = Some m \<Longrightarrow> hash m = h \<and> node_ok m \<and> length (path m) + card (dom (orphans b)) \<le> Suc n \<and>
        (\<forall>a \<in> set (path m). idx b (hash a) = Some a)"
    using assms(1) unfolding tree_ok_def by blast+
  have i: "idx b' = (idx b)(?h \<mapsto> ?n)" using assms(2) by (simp add: adds_def)
  have "blockBucket b ?h = None" using t(1) assms(4) by (metis domIff)
  then have s: "blockBucket b' = (blockBucket b)(?h \<mapsto> msgBlock block)" using assms(2) by (simp add: adds_def)
  have o: "orphans b' = orphans b" using assms(3) by (simp add: samePool_def)
  have old: "idx b' (hash a) = Some a" if "idx b (hash a) = Some a" for a using that assms(4) by (auto simp: i)
  have p: "node_ok p" "length (path p) + card (dom (orphans b)) \<le> Suc n" "\<forall>a \<in> set (path p). idx b (hash a) = Some a"
    using t(4) [OF assms(6)] by blast+
  have "sint (height p) < 2 ^ 31 - 1" using node_ok_height [OF p(1)] p(2) assms(7) by simp
  then have n: "node_ok ?n" using p(1) by (simp add: nodeOf_def newBlockNode_ok)
  have "hash m = h \<and> node_ok m \<and> length (path m) + card (dom (orphans b')) \<le> Suc (Suc n) \<and>
      (\<forall>a \<in> set (path m). idx b' (hash a) = Some a)" if "idx b' h = Some m" for h m
  proof (cases "h = ?h")
    case True
    then have "m = ?n" using that i by simp
    then show ?thesis using True n p old by (auto simp: nodeOf_fields o i)
  next
    case False
    then have "idx b h = Some m" using that i by simp
    then show ?thesis using t(4) [of h m] old by (auto simp: o)
  qed
  moreover have "dom (blockBucket b') = dom (idx b')" "dom (orphans b') \<inter> dom (idx b') = {}"
    using t(1,2) assms(5) by (auto simp: i s o)
  ultimately show "tree_ok (Suc n) b'" using t(3) unfolding tree_ok_def o by blast
  show "txsOf b' m = txsOf b m" if "idx b (hash m) = Some m" for m using that assms(4) by (auto simp: txsOf_def s)
  show "txsOf b' ?n = chainTxs block" by (simp add: txsOf_def s nodeOf_fields)
qed

lemma replay_cong: "(\<And>m. m \<in> set ms \<Longrightarrow> txsOf b' m = txsOf b m) \<Longrightarrow> replay b' ms = replay b ms"
  unfolding replay_def by (rule fold_cong) simp_all

lemma best_ok_same:
  assumes "best_ok P b t" "sameChain b b'" "\<And>m. m \<in> set (path t) \<Longrightarrow> txsOf b' m = txsOf b m"
    "\<And>m. m \<in> set (path t) \<Longrightarrow> NodeStatus (bc_index b') m = NodeStatus (bc_index b) m" "idx b' (hash t) = Some t"
  shows "best_ok P b' t"
proof -
  have "replay b' (tl (path t)) = replay b (tl (path t))" by (rule replay_cong) (meson assms(3) list.set_sel(2) path_nonempty(1))
  moreover have "(\<Sum>m\<leftarrow>path t. length (txsOf b' m)) = (\<Sum>m\<leftarrow>path t. length (txsOf b m))" using assms(3) by (simp cong: map_cong)
  ultimately show ?thesis using assms unfolding best_ok_def sameChain_def by simp
qed

lemma extends_fields:
  assumes "extends node block view b b'"
  shows "view_of (Some node) (bestChain b')" "utxoBucket b' = dbPutUtxoView view (utxoBucket b)"
    "dom (journalBucket b') = insert (cbHash block) (dom (journalBucket b))" "chainStateKey b' = bestOf (stateSnapshot b')"
    "hashIndexBucket b' = (hashIndexBucket b)(cbHash block \<mapsto> height node)"
    "heightIndexBucket b' = (heightIndexBucket b)(height node \<mapsto> cbHash block)"
    "bs_Hash (stateSnapshot b') = hash node" "bs_Height (stateSnapshot b') = height node"
    "bs_TotalTxns (stateSnapshot b') = bs_TotalTxns (stateSnapshot b) + of_nat (length (chainTxs block))"
  using assms unfolding extends_def by auto

lemma best_ok_extends:
  assumes "best_ok P b t" "extends (nodeOf block t) block view b b'" "KnownValid (NodeStatus (bc_index b') (nodeOf block t))"
    "\<And>m. m \<in> set (path t) \<Longrightarrow> txsOf b' m = txsOf b m" "txsOf b' (nodeOf block t) = chainTxs block"
    "\<And>m. m \<in> set (path t) \<Longrightarrow> NodeStatus (bc_index b') m = NodeStatus (bc_index b) m"
    "idx b' (cbHash block) = Some (nodeOf block t)" "\<And>m. m \<in> set (path t) \<Longrightarrow> hash m \<noteq> cbHash block" "length (path t) < 2 ^ 31 - 1"
    and ledger: "ledger_chain P (Suc (length (path t))) (dbPutUtxoView view (utxoBucket b))"
      "setCoins (dbPutUtxoView view (utxoBucket b)) = fold (applyTx (height (nodeOf block t))) (chainTxs block) (setCoins (utxoBucket b))"
  shows "best_ok P b' (nodeOf block t)"
proof -
  let ?n = "nodeOf block t"
  note e = extends_fields [OF assms(2)]
  have b: "view_of (Some t) (bestChain b)" "bs_TotalTxns (stateSnapshot b) = of_nat (\<Sum>m\<leftarrow>path t. length (txsOf b m))"
      "\<And>h x. hashIndexBucket b h = Some x \<longleftrightarrow> (\<exists>m \<in> set (path t). hash m = h \<and> height m = x)"
      "\<And>h x. heightIndexBucket b x = Some h \<longleftrightarrow> (\<exists>m \<in> set (path t). hash m = h \<and> height m = x)"
      "dom (journalBucket b) = hash ` set (tl (path t))" "\<forall>m \<in> set (path t). KnownValid (NodeStatus (bc_index b) m)"
      "setCoins (utxoBucket b) = replay b (tl (path t))"
    using assms(1) unfolding best_ok_def by blast+
  have ok: "node_ok t" "node_ok ?n" using b(1) e(1) by (simp_all add: view_of_def)
  have "height m \<noteq> height ?n" if m: "m \<in> set (path t)" for m
  proof -
    obtain i where "i < length (path t)" "m = path t ! i" using m by (auto simp: in_set_conv_nth)
    then have "sint (height m) = int i" using node_ok_height [OF node_ok_nth [OF ok(1)]] path_nth by simp
    moreover have "sint (height ?n) = int (length (path t))" using node_ok_height [OF ok(2)] by (simp add: nodeOf_fields)
    ultimately show ?thesis using \<open>i < length (path t)\<close> by auto
  qed
  then have idx': "hashIndexBucket b' h = Some x \<longleftrightarrow> (\<exists>m \<in> set (path ?n). hash m = h \<and> height m = x)"
      "heightIndexBucket b' x = Some h \<longleftrightarrow> (\<exists>m \<in> set (path ?n). hash m = h \<and> height m = x)" for h x
    using assms(8) b(3,4) unfolding e(5,6) nodeOf_fields(4) by (auto simp: nodeOf_fields(1,2))
  have "replay b' (tl (path t)) = replay b (tl (path t))" by (rule replay_cong) (meson assms(4) list.set_sel(2) path_nonempty(1))
  then have r: "setCoins (utxoBucket b') = replay b' (tl (path ?n))"
    unfolding e(2) ledger(2) b(7) nodeOf_fields(4) by (simp add: replay_def assms(5))
  have s: "(\<Sum>m\<leftarrow>path t. length (txsOf b' m)) = (\<Sum>m\<leftarrow>path t. length (txsOf b m))" using assms(4) by (simp cong: map_cong)
  have "dom (journalBucket b') = hash ` set (tl (path ?n))" using e(3) b(5) by (simp add: nodeOf_fields(1,4))
  then show ?thesis
    using e(1,4,7-9) b(2,6) idx' r s assms(3,5,6,7) ledger(1) unfolding best_ok_def e(2) nodeOf_fields(4)
    by (simp add: nodeOf_fields(1))
qed

lemma tree_ok_length: "tree_ok n b \<Longrightarrow> idx b h = Some p \<Longrightarrow> length (path p) \<le> Suc n"
  unfolding tree_ok_def by (meson add_leD1)

lemma tree_ok_low:
  assumes "tree_ok n b" "n < 2 ^ 31 - 2000"
  shows "\<forall>h p. idx b h = Some p \<longrightarrow> node_ok p \<and> sint (height p) < 2 ^ 31 - 1010"
proof (intro allI impI)
  fix h p assume "idx b h = Some p"
  then have "node_ok p \<and> length (path p) + card (dom (orphans b)) \<le> Suc n" using assms(1) unfolding tree_ok_def by blast
  then show "node_ok p \<and> sint (height p) < 2 ^ 31 - 1010" using node_ok_height [of p] assms(2) by auto
qed

lemma accept_keeps:
  assumes "tree_ok n b" "best_ok P b t" "chainParams E = P" "sint (BIP0034Height P) \<le> 0" "sane (chainTxs block)"
    "idx b (cbHash block) = None" "orphans b (cbHash block) = None" "n < 2 ^ 31 - 2000" "maybeAcceptBlock E block b = (r, b')"
  shows "tree_ok (Suc n) b' \<and> (\<exists>t'. best_ok P b' t' \<and> prefix (path t) (path t'))"
proof -
  have v: "view_of (Some t) (bestChain b)" "idx b (hash t) = Some t" "ledger_chain P (length (path t)) (utxoBucket b)"
    using assms(2) by (simp_all add: best_ok_def)
  have tr: "node_ok p" "length (path p) \<le> Suc n" "\<And>a. a \<in> set (path p) \<Longrightarrow> idx b (hash a) = Some a" if "idx b h = Some p" for h p
  proof -
    have "node_ok p \<and> length (path p) + card (dom (orphans b)) \<le> Suc n \<and> (\<forall>a \<in> set (path p). idx b (hash a) = Some a)"
      using that assms(1) unfolding tree_ok_def by blast
    then show "node_ok p" "length (path p) \<le> Suc n" "\<And>a. a \<in> set (path p) \<Longrightarrow> idx b (hash a) = Some a" by auto
  qed
  have fresh: "hash m \<noteq> cbHash block" if "m \<in> set (path t)" for m using tr(3) [OF v(2) that] assms(6) by auto
  from maybeAcceptBlock_cases [OF assms(9) v(1) tree_ok_low [OF assms(1,8)]]
  consider (early) "b' = b"
    | (added) p where "samePool b b'" "idx b (PrevBlock (header block)) = Some p" "adds (nodeOf block p) block b b'" "sameChain b b'"
    | (new) p st view B where "samePool b b'" "idx b (PrevBlock (header block)) = Some p" "adds (nodeOf block p) block b b'"
        "r = Inr True" "PrevBlock (header block) = hash t" "KnownValid (NodeStatus (bc_index b') (nodeOf block p))"
        "blockTxs B = chainTxs block" "checkConnectBlock (chainParams E) (dbOf E b) (scriptCheck E (chainTxs block)) (nodeOf block p) B
         (Some [], connectView block) = (Inr (), st, view)" "extends (nodeOf block p) block view b b'"
    by blast
  then show ?thesis
  proof cases
    case early
    then show ?thesis using tree_ok_mono [OF assms(1)] assms(2) by auto
  next
    case added
    note a = tree_ok_adds [OF assms(1) added(3,1) assms(6,7) added(2) assms(8)]
    have "best_ok P b' t"
    proof (rule best_ok_same [OF assms(2) added(4)])
      fix m assume m: "m \<in> set (path t)"
      show "txsOf b' m = txsOf b m" by (rule a(2) [OF tr(3) [OF v(2) m]])
      have "m \<noteq> nodeOf block p" using fresh [OF m] nodeOf_fields(1) by metis
      then show "NodeStatus (bc_index b') m = NodeStatus (bc_index b) m" using added(3) by (simp add: adds_def)
    next
      show "idx b' (hash t) = Some t" using added(3) v(2) fresh [of t] by (simp add: adds_def)
    qed
    then show ?thesis using a(1) by blast
  next
    case new
    have p: "p = t" using new(2,5) v(2) by simp
    note a = tree_ok_adds [OF assms(1) new(3,1) assms(6,7) new(2) assms(8)]
    have h: "sint (height t) = int (length (path t)) - 1" "length (path t) \<le> Suc n"
      using node_ok_height [OF tr(1) [OF v(2)]] tr(2) [OF v(2)] by simp_all
    have hn: "height (nodeOf block t) = of_nat (length (path t))"
      using sint_inject_nat [of "height t" "length (path t) - 1"] h(1) by (simp add: nodeOf_fields of_nat_diff Suc_le_eq)
    obtain root size' where sane: "checkTransactions root size' (blockTxs B) = Inr ()" using assms(5) new(7) by (auto simp: sane_def)
    have cv: "entries (connectView block) = Map.empty" by (simp add: connectView_def SetBestHash_def NewUtxoViewpoint_def)
    have sv: "serves (dbOf E b) (utxoBucket b)" by (simp add: serves_def dbOf_def)
    have chk: "checkConnectBlock P (dbOf E b) (scriptCheck E (chainTxs block)) (nodeOf block t) B (Some [], connectView block) = (Inr (), st, view)"
      using new(8) p assms(3) by simp
    note l1 = connected [OF v(3) hn sv sane cv chk]
    have "length (path t) \<le> 2 ^ 31" using h(2) assms(8) by simp
    note lm = ledger_chain_money [OF v(3) assms(4) this]
    have "sint (height (nodeOf block t)) = int (length (path t))" unfolding hn using h(2) assms(8) by (simp add: sint_word_of_nat)
    then have "\<not> sint (height (nodeOf block t)) < sint (BIP0034Height P)" using assms(4) by linarith
    note l2 = connect_block_ledger [OF sane cv sv _ this _ chk]
    have "best_ok P b' (nodeOf block t)"
    proof (rule best_ok_extends [OF assms(2) new(9,6) [unfolded p]])
      show "txsOf b' m = txsOf b m" if "m \<in> set (path t)" for m by (rule a(2) [OF tr(3) [OF v(2) that]])
      show "txsOf b' (nodeOf block t) = chainTxs block" using a(3) p by simp
      show "NodeStatus (bc_index b') m = NodeStatus (bc_index b) m" if m: "m \<in> set (path t)" for m
      proof -
        have "m \<noteq> nodeOf block p" using fresh [OF m] nodeOf_fields(1) by metis
        then show ?thesis using new(3) by (simp add: adds_def)
      qed
      show "idx b' (cbHash block) = Some (nodeOf block t)" using new(3) p by (simp add: adds_def)
      show "ledger_chain P (Suc (length (path t))) (dbPutUtxoView view (utxoBucket b))" by (rule l1)
      show "setCoins (dbPutUtxoView view (utxoBucket b)) = fold (applyTx (height (nodeOf block t))) (chainTxs block) (setCoins (utxoBucket b))"
        using l2 lm new(7) by auto
    qed (use fresh h(2) assms(8) in simp_all)
    moreover have "prefix (path t) (path (nodeOf block t))" by (simp add: nodeOf_fields)
    ultimately show ?thesis using a(1) by blast
  qed
qed

section \<open>Invariants of the processing of blocks\<close>

text \<open>
  What a property of the chain has to be kept by, so that it survives the arrival of a block: its
  number counts the blocks that arrived.
\<close>

locale chain_property =
  fixes E :: chainEnv and I :: "nat \<Rightarrow> BlockChain \<Rightarrow> bool" and ok :: "ChainBlock \<Rightarrow> bool"
  assumes later: "I n b \<Longrightarrow> I (Suc n) b"
    and orphan: "I n b \<Longrightarrow> pool_ok b \<Longrightarrow> ok block \<Longrightarrow> \<not> blockExists (cbHash block) b \<Longrightarrow> orphans b (cbHash block) = None \<Longrightarrow>
      I (Suc n) (addOrphanBlock block b)"
    and adopt: "I n b \<Longrightarrow> pool_ok b \<Longrightarrow> orphans b (cbHash block) = Some block \<Longrightarrow>
      I n (snd (maybeAcceptBlock E block (removeOrphanBlock block b)))"
    and accept: "I n b \<Longrightarrow> pool_ok b \<Longrightarrow> ok block \<Longrightarrow> \<not> blockExists (cbHash block) b \<Longrightarrow> orphans b (cbHash block) = None \<Longrightarrow>
      I (Suc n) (snd (maybeAcceptBlock E block b))"
begin

lemma process_accepted:
  assumes "I n b" "pool_ok b" "ok block" "\<not> blockExists (cbHash block) b" "orphans b (cbHash block) = None"
  shows "\<exists>r b'. acceptAndProcess E block b = Some (r, b') \<and> pool_ok b' \<and> I (Suc n) b'"
  by (rule acceptAndProcess_ends [OF assms(2)]) (use accept [OF assms] adopt in \<open>auto simp: accepts_def\<close>)

lemma process_block:
  assumes "I n b" "pool_ok b" "ok block"
  shows "\<exists>r b'. ProcessBlock E block b = Some (r, b') \<and> pool_ok b' \<and> I (Suc n) b'"
proof (cases "blockExists (cbHash block) b \<or> orphans b (cbHash block) \<noteq> None")
  case True
  then show ?thesis using assms later by (auto simp: ProcessBlock_def)
next
  case False
  then have new: "\<not> blockExists (cbHash block) b" "orphans b (cbHash block) = None" by simp_all
  obtain r b' where p: "acceptAndProcess E block b = Some (r, b')" "pool_ok b'" "I (Suc n) b'" using process_accepted [OF assms new] by blast
  have s: "\<exists>r. ProcessBlock E block b = Some (r, b) \<or> ProcessBlock E block b = Some (r, b') \<or> ProcessBlock E block b = Some (r, addOrphanBlock block b)"
    using new p(1) by (auto simp: ProcessBlock_def Let_def split: option.splits sum.splits)
  then show ?thesis using p(2,3) assms(2) later [OF assms(1)] orphan [OF assms new] pool_add(1) [OF assms(2) new(2)] by auto
qed

lemma process_sync:
  assumes "I n b" "pool_ok b" "ok block"
  shows "\<exists>r b'. ProcessSyncBlock E block b = Some (r, b') \<and> pool_ok b' \<and> I (Suc n) b'"
proof (cases "blockExists (cbHash block) b \<or> orphans b (cbHash block) \<noteq> None")
  case True
  then show ?thesis using assms later by (auto simp: ProcessSyncBlock_def)
next
  case False
  then have new: "\<not> blockExists (cbHash block) b" "orphans b (cbHash block) = None" by simp_all
  obtain r b' where p: "acceptAndProcess E block b = Some (r, b')" "pool_ok b'" "I (Suc n) b'" using process_accepted [OF assms new] by blast
  then show ?thesis using new orphan [OF assms new] pool_add(1) [OF assms(2) new(2)] by (simp add: ProcessSyncBlock_def)
qed

end

interpretation any: chain_property E "\<lambda>_ _. True" "\<lambda>_. True" for E
  by unfold_locales simp_all

text \<open>The chain is consistent, and its best chain goes through a given node.\<close>

definition consistent :: "Params \<Rightarrow> blockNode \<Rightarrow> nat \<Rightarrow> BlockChain \<Rightarrow> bool" where
  "consistent P t0 n b = (sint (BIP0034Height P) \<le> 0 \<longrightarrow> n < 2 ^ 31 - 2000 \<longrightarrow>
     tree_ok n b \<and> (\<exists>t. best_ok P b t \<and> prefix (path t0) (path t)))"

lemma not_known: "\<not> blockExists h b \<Longrightarrow> idx b h = None"
  by (simp add: blockExists_def HaveBlock_def)

lemma pool_trees:
  "idx (addOrphanBlock block b) = idx b" "blockBucket (addOrphanBlock block b) = blockBucket b"
  "idx (removeOrphanBlock block b) = idx b" "blockBucket (removeOrphanBlock block b) = blockBucket b"
  by (simp_all add: addOrphanBlock_def removeOrphanBlock_def Let_def)

lemma tree_ok_add:
  assumes "tree_ok n b" "pool_ok b" "sane (chainTxs block)" "idx b (cbHash block) = None" "orphans b (cbHash block) = None"
  shows "tree_ok (Suc n) (addOrphanBlock block b)"
proof -
  have c: "card (dom (orphans (addOrphanBlock block b))) = Suc (card (dom (orphans b)))" using pool_add(2) [OF assms(2,5)] by simp
  have o: "orphans (addOrphanBlock block b) = (orphans b)(cbHash block \<mapsto> block)" by (rule add_simps)
  have "dom (orphans (addOrphanBlock block b)) \<inter> dom (idx b) = {}" using assms(1,4) unfolding o tree_ok_def by auto
  moreover have "sane (chainTxs o')" if "orphans (addOrphanBlock block b) h = Some o'" for h o'
    using that assms(1,3) unfolding o tree_ok_def by (auto split: if_splits)
  ultimately show ?thesis using assms(1) unfolding tree_ok_def pool_trees c by auto
qed

lemma tree_ok_remove:
  assumes "tree_ok n b" "pool_ok b" "orphans b (cbHash block) = Some block" "idx b h = Some t"
  shows "\<exists>k. n = Suc k \<and> tree_ok k (removeOrphanBlock block b)"
proof -
  have c: "card (dom (orphans b)) = Suc (card (dom (orphans (removeOrphanBlock block b))))" using pool_remove(2) [OF assms(2,3)] by simp
  have o: "orphans (removeOrphanBlock block b) = (orphans b)(cbHash block := None)" by (rule remove_simps)
  have "length (path t) + card (dom (orphans b)) \<le> Suc n" using assms(1,4) by (auto simp: tree_ok_def)
  moreover have "1 \<le> length (path t)" by (simp add: Suc_le_eq)
  ultimately obtain k where k: "n = Suc k" using c by (cases n) simp_all
  have "dom (orphans (removeOrphanBlock block b)) \<inter> dom (idx b) = {}" using assms(1) unfolding o tree_ok_def by auto
  moreover have "sane (chainTxs o')" if "orphans (removeOrphanBlock block b) h = Some o'" for h o'
    using that assms(1) unfolding o tree_ok_def by (auto split: if_splits)
  ultimately have "tree_ok k (removeOrphanBlock block b)" using assms(1) unfolding tree_ok_def pool_trees c k by auto
  then show ?thesis using k by blast
qed

lemma best_ok_pool: "best_ok P (addOrphanBlock block b) t = best_ok P b t" "best_ok P (removeOrphanBlock block b) t = best_ok P b t"
  by (simp_all add: best_ok_def addOrphanBlock_def removeOrphanBlock_def Let_def replay_def txsOf_def)

lemma accept_consistent:
  assumes "consistent P t0 n b" "chainParams E = P" "pool_ok b" "sane (chainTxs block)" "idx b (cbHash block) = None"
    "orphans b (cbHash block) = None"
  shows "consistent P t0 (Suc n) (snd (maybeAcceptBlock E block b))"
  unfolding consistent_def
proof (intro impI)
  assume a: "sint (BIP0034Height P) \<le> 0" "Suc n < 2 ^ 31 - 2000"
  then obtain t where t: "tree_ok n b" "best_ok P b t" "prefix (path t0) (path t)" using assms(1) by (auto simp: consistent_def)
  obtain r b' where m: "maybeAcceptBlock E block b = (r, b')" by fastforce
  have "n < 2 ^ 31 - 2000" using a(2) by simp
  then obtain t' where "tree_ok (Suc n) b'" "best_ok P b' t'" "prefix (path t) (path t')"
    using accept_keeps [OF t(1,2) assms(2) a(1) assms(4-6) _ m] by blast
  moreover have "prefix (path t0) (path t')" using t(3) \<open>prefix (path t) (path t')\<close> by (rule prefix_order.trans)
  ultimately show "tree_ok (Suc n) (snd (maybeAcceptBlock E block b)) \<and>
      (\<exists>t. best_ok P (snd (maybeAcceptBlock E block b)) t \<and> prefix (path t0) (path t))"
    using m by auto
qed

lemma adopt_consistent:
  assumes "consistent P t0 n b" "chainParams E = P" "pool_ok b" "orphans b (cbHash block) = Some block"
  shows "consistent P t0 n (snd (maybeAcceptBlock E block (removeOrphanBlock block b)))"
proof (cases "sint (BIP0034Height P) \<le> 0 \<and> n < 2 ^ 31 - 2000")
  case True
  then obtain t where t: "tree_ok n b" "best_ok P b t" "prefix (path t0) (path t)" using assms(1) by (auto simp: consistent_def)
  then have "idx b (hash t) = Some t" by (simp add: best_ok_def)
  then obtain k where k: "n = Suc k" "tree_ok k (removeOrphanBlock block b)" using tree_ok_remove [OF t(1) assms(3,4)] by blast
  have p: "pool_ok (removeOrphanBlock block b)" using pool_remove(1) [OF assms(3,4)] .
  have c: "consistent P t0 k (removeOrphanBlock block b)" using k(2) t(2,3) by (auto simp: consistent_def best_ok_pool)
  have "sane (chainTxs block)" "idx b (cbHash block) = None" using t(1) assms(4) by (auto simp: tree_ok_def)
  then show ?thesis unfolding k(1) by (intro accept_consistent [OF c assms(2) p]) (simp_all add: pool_trees remove_simps)
next
  case False
  then show ?thesis by (auto simp: consistent_def)
qed

lemma add_consistent:
  assumes "consistent P t0 n b" "pool_ok b" "sane (chainTxs block)" "idx b (cbHash block) = None" "orphans b (cbHash block) = None"
  shows "consistent P t0 (Suc n) (addOrphanBlock block b)"
  using assms tree_ok_add by (auto simp: consistent_def best_ok_pool)

interpretation whole: chain_property E "consistent (chainParams E) t0" "\<lambda>block. sane (chainTxs block)" for E t0
proof unfold_locales
  show "consistent (chainParams E) t0 (Suc n) b" if "consistent (chainParams E) t0 n b" for n b
    using that tree_ok_mono by (auto simp: consistent_def)
qed (simp_all add: accept_consistent adopt_consistent add_consistent not_known)

section \<open>Runs of the chain\<close>

text \<open>
  The states after blocks arrived, one after the other, at a chain that started with its genesis
  block.  What the environment does may change from block to block.  The transactions of the blocks are
  sane: for blocks that arrive in the synchronisation and for orphans, the chain itself does not
  check this.
\<close>

inductive chain_run :: "Params \<Rightarrow> MsgBlock \<Rightarrow> nat \<Rightarrow> BlockChain \<Rightarrow> bool" for P g where
  start: "createChainState g = Inr b \<Longrightarrow> chain_run P g 0 b"
| arrives: "chain_run P g n b \<Longrightarrow> chainParams E = P \<Longrightarrow> sane (chainTxs block) \<Longrightarrow> ProcessBlock E block b = Some (r, b') \<Longrightarrow>
    chain_run P g (Suc n) b'"
| synced: "chain_run P g n b \<Longrightarrow> chainParams E = P \<Longrightarrow> sane (chainTxs block) \<Longrightarrow> ProcessSyncBlock E block b = Some (r, b') \<Longrightarrow>
    chain_run P g (Suc n) b'"

lemma KnownValid_genesis: "KnownValid (statusDataStored OR statusValid)"
  by (simp add: KnownValid_mark)

lemma start_consistent:
  assumes "createChainState g = Inr b"
  shows "consistent P (newBlockNode (Header g) None 1) 0 b \<and> pool_ok b"
proof -
  define n where "n = newBlockNode (Header g) None 1"
  have n: "node_ok n" "height n = 0" "path n = [n]" by (simp_all add: n_def newBlockNode_ok) (simp_all add: n_def newBlockNode_def)
  have "view_of None \<lparr>nodes = [], cvcap = 0\<rparr>" by (simp add: view_of_def)
  then obtain c where c: "newChainView (Some n) = Inr c" and v: "view_of (Some n) c"
    using setTip_eq [of None _ n] n by (auto simp: newChainView_def)
  have b: "idx b = [hash n \<mapsto> n]" "NodeStatus (bc_index b) n = statusDataStored OR statusValid" "bestChain b = c" "utxoBucket b = Map.empty"
      "journalBucket b = Map.empty" "blockBucket b = [hash n \<mapsto> g]" "hashIndexBucket b = [hash n \<mapsto> 0]" "heightIndexBucket b = [0 \<mapsto> hash n]"
      "orphans b = Map.empty" "prevOrphans b = Map.empty" "chainStateKey b = bestOf (stateSnapshot b)" "bs_Hash (stateSnapshot b) = hash n"
      "bs_Height (stateSnapshot b) = 0" "bs_TotalTxns (stateSnapshot b) = of_nat (length (Transactions g))"
    using assms c n(2) by (auto simp: createChainState_def n_def [symmetric] Let_def dbPutBestState_def dbPutBlockIndex_def bestOf_def newBestState_def
      addNode_def newBlockIndex_def NodeStatus_def)
  have "pool_ok b" by (simp add: pool_ok_def orphansOf_def b)
  moreover have "tree_ok 0 b" by (auto simp: tree_ok_def b n split: if_splits)
  moreover have "best_ok P b n"
    using v ledger_chain.genesis [of P] stored_empty by (auto simp: best_ok_def b n txsOf_def replay_def setCoins_def fun_eq_iff KnownValid_genesis)
  ultimately show ?thesis unfolding n_def [symmetric] by (auto simp: consistent_def)
qed

lemma run_consistent: "chain_run P g n b \<Longrightarrow> consistent P (newBlockNode (Header g) None 1) n b \<and> pool_ok b"
proof (induction rule: chain_run.induct)
  case (start b)
  then show ?case using start_consistent by blast
next
  case (arrives n b E block r b')
  then show ?case using whole.process_block [of E _ n b block] by auto
next
  case (synced n b E block r b')
  then show ?case using whole.process_sync [of E _ n b block] by auto
qed

section \<open>Properties\<close>

text \<open>A chain that only has a genesis block, and an environment that refuses every signature.\<close>

definition quietEnv :: chainEnv where
  "quietEnv = \<lparr>env_crypto = zeroCrypto, chainParams = mainNetLike, scriptCheck = (\<lambda>_ _ _. Inr ()), entryByHash = (\<lambda>_ _. None),
     indexManager = None, adjustedTime = 0, candidates = []\<rparr>"

definition firstArrival :: ChainBlock where
  "firstArrival = \<lparr>msgBlock = \<lparr>Header = firstHeader, Transactions = [firstCoinbase]\<rparr>, bHeight = 0, bVotes = 1\<rparr>"

definition genesisOf :: MsgBlock where
  "genesisOf = \<lparr>Header = firstHeader, Transactions = []\<rparr>"

lemma quiet_start: "\<exists>b. createChainState g = Inr b \<and> orphans b = Map.empty"
proof -
  have "view_of None \<lparr>nodes = [], cvcap = 0\<rparr>" by (simp add: view_of_def)
  moreover have "height (newBlockNode (Header g) None 1) = 0" by (simp add: newBlockNode_def)
  ultimately obtain c where "newChainView (Some (newBlockNode (Header g) None 1)) = Inr c"
    using setTip_eq [of None "\<lparr>nodes = [], cvcap = 0\<rparr>" "newBlockNode (Header g) None 1"] newBlockNode_ok(1) by (auto simp: newChainView_def)
  then show ?thesis by (simp add: createChainState_def Let_def)
qed

lemma quiet_sane: "sane (chainTxs firstArrival)"
  using firstBlock_sane by (auto simp: sane_def firstArrival_def firstBlock_def)

lemma quiet_run: "\<exists>b. chain_run mainNetLike genesisOf 1 b"
proof -
  obtain b where b: "chain_run mainNetLike genesisOf 0 b" using quiet_start start by blast
  then obtain r b' where "ProcessSyncBlock quietEnv firstArrival b = Some (r, b')"
    using any.process_sync run_consistent by blast
  from synced [OF b _ quiet_sane this] show ?thesis by (auto simp: quietEnv_def)
qed

text \<open>
  C9: Processing a block ends: whatever the pool of orphans holds, and however many of them can be
  connected after the block, \<^verbatim>\<open>ProcessBlock\<close> and \<^verbatim>\<open>ProcessSyncBlock\<close> return, and they keep the two indexes of the pool
  in agreement.  The only assumption is this agreement, which a new chain has.
\<close>

theorem block_processing_ends:
  assumes "pool_ok b"
  shows "(\<exists>r b'. ProcessBlock E block b = Some (r, b') \<and> pool_ok b') \<and> (\<exists>r b'. ProcessSyncBlock E block b = Some (r, b') \<and> pool_ok b')"
  using any.process_block [OF _ assms] any.process_sync [OF _ assms] by simp

theorem block_processing_ends_witness:
  "\<exists>b r b'. pool_ok b \<and> orphans b (cbHash firstArrival) = Some firstArrival \<and>
    ProcessBlock quietEnv firstArrival b = Some (r, b') \<and> pool_ok b'"
proof -
  obtain b0 where b0: "createChainState genesisOf = Inr b0" "orphans b0 = Map.empty" using quiet_start by blast
  have p: "pool_ok b0" using start_consistent [OF b0(1)] by blast
  have "pool_ok (addOrphanBlock firstArrival b0)" using pool_add(1) [OF p] b0(2) by simp
  moreover have "orphans (addOrphanBlock firstArrival b0) (cbHash firstArrival) = Some firstArrival" by (simp add: add_simps)
  ultimately show ?thesis using block_processing_ends [of "addOrphanBlock firstArrival b0" quietEnv firstArrival] by blast
qed



text \<open>
  C13: A refused block changes nothing: when \<^verbatim>\<open>maybeAcceptBlock\<close> returns an error, the best chain, the unspent outputs, the journal,
  the indexes of the main chain, the best state and the pool of orphans are as before.  At most the node and
  the data of the block itself have been added to the known blocks.
\<close>

theorem rejected_block_changes_nothing:
  assumes "chain_run P g n b" "sint (BIP0034Height P) \<le> 0" "n < 2 ^ 31 - 2000" "maybeAcceptBlock E block b = (Inl err, b')"
  shows "sameChain b b' \<and> samePool b b' \<and>
    (b' = b \<or> (\<exists>p. idx b (PrevBlock (header block)) = Some p \<and> adds (nodeOf block p) block b b'))"
proof -
  from run_consistent [OF assms(1)] assms(2,3) obtain t where t: "tree_ok n b" "best_ok P b t" by (auto simp: consistent_def)
  have v: "view_of (Some t) (bestChain b)" using t(2) by (simp add: best_ok_def)
  from maybeAcceptBlock_cases [OF assms(4) v tree_ok_low [OF t(1) assms(3)]]
  show ?thesis by (auto simp: sameChain_def)
qed

theorem rejected_block_changes_nothing_witness:
  "\<exists>b err b'. chain_run mainNetLike genesisOf 0 b \<and> maybeAcceptBlock quietEnv firstArrival b = (Inl err, b') \<and> sameChain b b'"
proof -
  obtain b where b: "chain_run mainNetLike genesisOf 0 b" using quiet_start start by blast
  have "\<exists>err. checkBlockContext zeroCrypto (msgBlock firstArrival) p = Inl err" for p
    by (simp add: checkBlockContext_def checkBlockHeaderContext_def firstArrival_def firstHeader_def GetSignature_def sliceE_def)
  then obtain e where e: "\<And>p. checkBlockContext zeroCrypto (msgBlock firstArrival) p = Inl (e p)" by metis
  have "\<exists>err b'. maybeAcceptBlock quietEnv firstArrival b = (Inl err, b')"
    by (cases "LookupNode (bc_index b) (PrevBlock (header firstArrival))") (simp_all add: maybeAcceptBlock_def quietEnv_def e Let_def)
  then obtain err b' where m: "maybeAcceptBlock quietEnv firstArrival b = (Inl err, b')" by blast
  then show ?thesis using b rejected_block_changes_nothing [OF b _ _ m] by (auto simp: mainNetLike_def)
qed



section \<open>No reorganisation\<close>

text \<open>A block whose parent is known but is not the tip of the best chain is never connected.\<close>

lemma side_chain_refused:
  assumes "tip (bestChain b) = Some t" "PrevBlock (header block) \<noteq> hash t"
  shows "connectBestChain E node block b = (Inl AssertError, b)"
  using assms by (simp add: connectBestChain_def)

end
