(* ===== verification/Chain_Round.thy ===== *)
theory Chain_Round
  imports Chain_Process
begin

text \<open>
  The rounds of a node: candidates of other nodes (\<^verbatim>\<open>ProcessCandidate\<close> in \<^verbatim>\<open>src/blockchain/process.go\<close>), its own
  votes (\<^verbatim>\<open>BlockVote\<close> in \<^verbatim>\<open>src/mining/cpuminer/vote.go\<close>), the messages with candidates, votes and blocks, and the
  end of a round (\<^verbatim>\<open>voteProcess\<close>, all in \<^verbatim>\<open>src/netsync/manager.go\<close>).  The state joins the chain, the pools of votes and
  of candidates and the best candidate.  A step relation covers everything a node does with them.  The
  lemmas show what the best candidate of a round has behind it, when two nodes can choose different
  ones, and when the end of a round panics.  Each handler is one step: that they run in different
  threads is not modelled.
\<close>

unbundle bit_operations_syntax

section \<open>The state of a node\<close>

record BestLastCandidate =
  bl_Hash :: bytes
  bl_Height :: "32 word"
  bl_Header :: BlockHeader
  bl_Votes :: "16 word"

record roundState =
  rs_chain :: BlockChain
  rs_tickets :: pools
  PrevCandidatePool :: candidatePool
  CurrentCandidatePool :: candidatePool
  CurrentPointPool :: "bytes \<rightharpoonup> MsgCandidate list"
  bestCandidate :: "BestLastCandidate option"
  incrementBlock :: "32 word set"
  CurrentHeight :: "32 word"
  StartHeight :: "32 word"
  VoteBool :: bool
  Work :: bool

text \<open>
  What a step of a node is given: the environment of its chain, in which the candidates are those of
  the current pool in the order of the loop over it, the header of the genesis block, the key of the node and its
  signatures, whether sending to the peers succeeds, and the orders of the loops over the pools of
  votes and of pointers.
\<close>

record roundEnv =
  re_chain :: chainEnv
  genesisHeader :: BlockHeader
  ownKey :: bytes
  sign64 :: "bytes \<Rightarrow> bytes option"
  sendOk :: bool
  ticketOrder :: "(bytes \<times> SignAndKey list) list"
  pointOrder :: "(bytes \<times> MsgCandidate list) list"

type_synonym 'a roundM = "(roundState, chain_err, 'a) goM"

abbreviation candHash :: "MsgCandidate \<Rightarrow> bytes" where "candHash c \<equiv> BlockHash (Header c)"

definition NewBestCandidate :: "bytes \<Rightarrow> 32 word \<Rightarrow> BlockHeader \<Rightarrow> 16 word \<Rightarrow> BestLastCandidate" where
  "NewBestCandidate h height' hdr votes = \<lparr>bl_Hash = h, bl_Height = height', bl_Header = hdr, bl_Votes = votes\<rparr>"

definition SetBestCandidate :: "bytes \<Rightarrow> 32 word \<Rightarrow> BlockHeader \<Rightarrow> 16 word \<Rightarrow> roundState \<Rightarrow> roundState" where
  "SetBestCandidate h height' hdr votes s = s\<lparr>bestCandidate := Some (NewBestCandidate h height' hdr votes)\<rparr>"

definition CandidateExists :: "bytes \<Rightarrow> roundState \<Rightarrow> bool" where
  "CandidateExists h s = (CurrentCandidatePool s h \<noteq> None)"

definition PrevCandidateExists :: "bytes \<Rightarrow> roundState \<Rightarrow> bool" where
  "PrevCandidateExists h s = (PrevCandidatePool s h \<noteq> None)"

text \<open>A candidate is added to the pool and to the candidates that point to a block.\<close>

definition addCandidate :: "MsgCandidate \<Rightarrow> bytes \<Rightarrow> roundState \<Rightarrow> roundState" where
  "addCandidate candidate target s =
     s\<lparr>CurrentCandidatePool := (CurrentCandidatePool s)(candHash candidate \<mapsto> candidate),
       CurrentPointPool := (CurrentPointPool s)(target \<mapsto> (case CurrentPointPool s target of Some l \<Rightarrow> l | None \<Rightarrow> []) @ [candidate])\<rparr>"

section \<open>Candidates of other nodes\<close>

fun scaleLoop :: "nat \<Rightarrow> blockIndex \<Rightarrow> blockNode option \<Rightarrow> blockNode list" where
  "scaleLoop 0 bi node = []"
| "scaleLoop (Suc i) bi node =
     (case node of None \<Rightarrow> [] | Some n \<Rightarrow> n # scaleLoop i bi (LookupNode bi (PrevBlock (node_Header n))))"

text \<open>
  The results tell whether the node votes for the candidate and whether the candidate follows the
  rules.  Before the end of the first round there is no best candidate.
\<close>

definition ProcessCandidate :: "roundEnv \<Rightarrow> MsgCandidate \<Rightarrow> (bool \<times> bool) roundM" where
  "ProcessCandidate E candidate = (\<lambda>s.
     let blockHash = candHash candidate; b = rs_chain s in
     if CandidateExists blockHash s then (Inl (ruleError ErrDuplicateBlock), s)
     else if orphans b blockHash \<noteq> None then (Inl (ruleError ErrDuplicateBlock), s)
     else (case bestCandidate s of
        None \<Rightarrow> (Inl ChainPanic, s)
      | Some best \<Rightarrow>
          let seed = DoubleHashB (hSignature (bl_Header best));
              ns = scaleLoop PrevScaleNum (bc_index b) (LookupNode (bc_index b) (PrevBlock (bl_Header best)));
              scales = Scale (bl_Header best) # map (\<lambda>n. Scale (node_Header n)) ns;
              votes = bl_Votes best # map (\<lambda>n. n_Votes (nodeFields n)) ns in
          (case Option.bind (EstimateScale votes scales) BlockVerge of
             None \<Rightarrow> (Inl ChainPanic, s)
           | Some verge \<Rightarrow>
               (case checkCandidateSanity (env_crypto (re_chain E)) candidate seed verge (candidates (re_chain E)) of
                  Inl err \<Rightarrow> (Inl err, s)
                | Inr vb \<Rightarrow>
                    if \<not> PrevCandidateExists (PrevBlock (Header candidate)) s then (Inl (ruleError ErrDuplicateBlock), s)
                    else (Inr (vb, True), addCandidate candidate (bl_Hash best) s)))))"

section \<open>Votes\<close>

text \<open>
  The errors of the signature and of the conversions are logged only: the results are then empty or
  nil, and a nil pointer is read when the vote is recorded.
\<close>

definition BlockVote :: "roundEnv \<Rightarrow> MsgCandidate \<Rightarrow> unit roundM" where
  "BlockVote E msg = (\<lambda>s.
     let headerHash = candHash msg in
     case GetMaxVotes (CurrentCandidatePool s) (ticketOrder E) of
       None \<Rightarrow> (Inl ChainPanic, s)
     | Some (_, maxVotes) \<Rightarrow>
         if isAdvantage maxVotes headerHash (rs_tickets s) then
           let headerSign = (case sign64 E headerHash of Some sig \<Rightarrow> sig | None \<Rightarrow> []) in
           (case VotesVerge (Scale (Header msg)) of
              None \<Rightarrow> (Inl ChainPanic, s)
            | Some voteVerge \<Rightarrow>
                if weightOf headerSign \<le> voteVerge then
                  if length headerSign \<noteq> Hash64Size \<or> length (ownKey E) \<noteq> Hash33Size then (Inl ChainPanic, s)
                  else (Inr (), s\<lparr>rs_tickets := UpdateTicketPool headerHash
                         \<lparr>sk_Signature = headerSign, sk_PublicKey = ownKey E\<rparr> (rs_tickets s)\<rparr>)
                else (Inr (), s))
         else (Inr (), s))"

definition handleSign :: "roundEnv \<Rightarrow> bool \<Rightarrow> MsgSign \<Rightarrow> unit roundM" where
  "handleSign E known sign = (\<lambda>s.
     if \<not> known then (Inr (), s)
     else (case handleSignMsg (env_crypto (re_chain E)) (CurrentCandidatePool s) (map_option bl_Hash (bestCandidate s)) sign (rs_tickets s) of
        (Inl _, t) \<Rightarrow> (Inl ChainPanic, s\<lparr>rs_tickets := t\<rparr>)
      | (Inr _, t) \<Rightarrow> (Inr (), s\<lparr>rs_tickets := t\<rparr>)))"

text \<open>
  A message with a candidate.  Heights are compared in 32-bit arithmetic.  Errors of the chain are
  logged.
\<close>

definition handleCandidateMsg :: "roundEnv \<Rightarrow> bool \<Rightarrow> MsgCandidate \<Rightarrow> unit roundM" where
  "handleCandidateMsg E known candidate = (\<lambda>s.
     if \<not> known then (Inr (), s)
     else
       let bestHeight = bs_Height (stateSnapshot (rs_chain s)); height' = Height (Sigwit candidate);
           s = s\<lparr>CurrentHeight := height'\<rparr> in
       if height' - bestHeight = 2 then
         (case ProcessCandidate E candidate s of
            (Inl err, s) \<Rightarrow> (if err = ChainPanic then Inl err else Inr (), s)
          | (Inr (v, _), s) \<Rightarrow>
              if sendOk E \<and> v \<and> VoteBool s then BlockVote E candidate s else (Inr (), s))
       else if sint (height' - bestHeight) > 2 then
         if StartHeight s = height' then (Inr (), s)
         else if height' \<notin> incrementBlock s then
           (Inr (), (addCandidate candidate (PrevBlock (Header candidate)) s)\<lparr>incrementBlock := insert height' (incrementBlock s)\<rparr>)
         else (Inr (), s)
       else (Inr (), s))"

section \<open>The end of a round\<close>

definition toBlock :: "MsgCandidate \<Rightarrow> 16 word \<Rightarrow> ChainBlock" where
  "toBlock candidate votes = \<lparr>msgBlock = \<lparr>Header = Header candidate, Transactions = Transactions candidate\<rparr>, bHeight = -1, bVotes = votes\<rparr>"

text \<open>The candidate on which the next round builds: the winner, or an empty block.\<close>

definition chooseBest :: "roundEnv \<Rightarrow> bytes \<Rightarrow> 16 word \<Rightarrow> roundState \<Rightarrow> chain_err + roundState" where
  "chooseBest E blockHeaderHash votes s =
     (let genesis = genesisHeader E; genesisHash = GenesisHash (chainParams (re_chain E)) in
      if candidates (re_chain E) = [] then Inr (SetBestCandidate genesisHash 0 genesis 1 s)
      else (case CurrentCandidatePool s blockHeaderHash of
         None \<Rightarrow> Inl ChainPanic
       | Some msgCandidate \<Rightarrow>
           Inr (if IsEnough votes (Scale (Header msgCandidate))
                then SetBestCandidate blockHeaderHash (Height (Sigwit msgCandidate)) (Header msgCandidate) votes s
                else SetBestCandidate genesisHash (Height (Sigwit msgCandidate)) genesis votes s)))"

definition nextRound :: "roundState \<Rightarrow> roundState" where
  "nextRound s =
     (let s = s\<lparr>rs_tickets := SetTicketPool Map.empty (SetPrevTicketPool (ticketPool (rs_tickets s)) (rs_tickets s))\<rparr> in
      s\<lparr>PrevCandidatePool := CurrentCandidatePool s, CurrentCandidatePool := Map.empty, Work := True\<rparr>)"

text \<open>The result of ProcessBlock is ignored, but its panics are not caught.\<close>

definition writeBlock :: "roundEnv \<Rightarrow> MsgCandidate option \<Rightarrow> 16 word \<Rightarrow> roundState \<Rightarrow> ((chain_err + unit) \<times> roundState) option" where
  "writeBlock E prevCandidate votes s =
     (case prevCandidate of
        None \<Rightarrow> Some (Inr (), s)
      | Some candidate \<Rightarrow>
          map_option (\<lambda>(r, b). (if r = Inl ChainPanic then Inl ChainPanic else Inr (), s\<lparr>rs_chain := b\<rparr>))
            (ProcessBlock (re_chain E) (toBlock candidate votes) (rs_chain s)))"

definition voteProcess :: "roundEnv \<Rightarrow> roundState \<Rightarrow> ((chain_err + unit) \<times> roundState) option" where
  "voteProcess E s =
     (case GetMaxVotes (CurrentCandidatePool s) (ticketOrder E) of
        None \<Rightarrow> Some (Inl ChainPanic, s)
      | Some (blockHeaderHash, votes) \<Rightarrow>
          (case chooseBest E blockHeaderHash votes s of
             Inl err \<Rightarrow> Some (Inl err, s)
           | Inr s \<Rightarrow>
               let prevCandidate = PrevCandidatePool s (GetBestPointBlockH (pointOrder E)) in
               map_option (\<lambda>(r, s). (r, case r of Inl _ \<Rightarrow> s | Inr _ \<Rightarrow> nextRound s))
                 (writeBlock E prevCandidate votes (s\<lparr>CurrentPointPool := Map.empty\<rparr>))))"

section \<open>Blocks of the synchronisation\<close>

definition handleSyncBlockMsg :: "roundEnv \<Rightarrow> bool \<Rightarrow> 8 word \<Rightarrow> MsgCandidate \<Rightarrow> roundState \<Rightarrow> ((chain_err + unit) \<times> roundState) option" where
  "handleSyncBlockMsg E known typeParameter candidate s =
     (if \<not> known then Some (Inr (), s)
      else if typeParameter = 1 then
        map_option (\<lambda>(r, b). (if r = Inl ChainPanic then Inl ChainPanic else Inr (), s\<lparr>rs_chain := b\<rparr>))
          (ProcessSyncBlock (re_chain E) (toBlock candidate 0) (rs_chain s))
      else if typeParameter = 2 then
        Some (Inr (), s\<lparr>PrevCandidatePool := (PrevCandidatePool s)(candHash candidate \<mapsto> candidate)\<rparr>)
      else Some (Inr (), s))"

text \<open>A block that the node itself proposes.\<close>

definition proposeBlock :: "MsgCandidate \<Rightarrow> unit roundM" where
  "proposeBlock candidate = (\<lambda>s.
     case bestCandidate s of
       None \<Rightarrow> (Inl ChainPanic, s)
     | Some best \<Rightarrow> (Inr (), addCandidate candidate (bl_Hash best) s))"

text \<open>The pools at the start of the thread that processes the votes.\<close>

definition VoteHandler_init :: "BlockChain \<Rightarrow> pools \<Rightarrow> roundState" where
  "VoteHandler_init b t = \<lparr>rs_chain = b, rs_tickets = t, PrevCandidatePool = Map.empty, CurrentCandidatePool = Map.empty,
     CurrentPointPool = Map.empty, bestCandidate = None, incrementBlock = {}, CurrentHeight = 0, StartHeight = 0,
     VoteBool = False, Work = False\<rparr>"

section \<open>The states of a node\<close>

text \<open>The orders are orders of the loops over the pools of the state.\<close>

definition orders_ok :: "roundEnv \<Rightarrow> roundState \<Rightarrow> bool" where
  "orders_ok E s = (distinct (map fst (ticketOrder E)) \<and> map_of (ticketOrder E) = ticketPool (rs_tickets s) \<and>
     distinct (map fst (pointOrder E)) \<and> map_of (pointOrder E) = CurrentPointPool s \<and>
     set (candidates (re_chain E)) = ran (CurrentCandidatePool s))"

text \<open>What the node signs verifies with its key.\<close>

definition signer_ok :: "crypto \<Rightarrow> roundEnv \<Rightarrow> bool" where
  "signer_ok C E = (\<forall>h sig. sign64 E h = Some sig \<longrightarrow>
     (\<exists>key r. ParsePubKey (ownKey E) = Inr key \<and> GetSignature sig = Inr r \<and> Signature_Verify C h r key))"

definition env_ok :: "crypto \<Rightarrow> Params \<Rightarrow> roundEnv \<Rightarrow> roundState \<Rightarrow> bool" where
  "env_ok C P E s = (env_crypto (re_chain E) = C \<and> chainParams (re_chain E) = P \<and> orders_ok E s \<and> signer_ok C E)"

text \<open>
  A node receives candidates and votes, proposes and votes itself, ends rounds and receives blocks of the
  synchronisation.  It votes once for a candidate and in the round of the candidate.  Candidates that it
  takes over without a check are assumed to have sane transactions.  The number counts the blocks
  handed to the chain.
\<close>

inductive round_run :: "crypto \<Rightarrow> Params \<Rightarrow> MsgBlock \<Rightarrow> nat \<Rightarrow> roundState \<Rightarrow> bool" for C P g where
  round_start: "createChainState g = Inr b \<Longrightarrow> ticketPool t = Map.empty \<Longrightarrow> round_run C P g 0 (VoteHandler_init b t)"
| round_enabled: "round_run C P g n s \<Longrightarrow> round_run C P g n (s\<lparr>VoteBool := True\<rparr>)"
| round_candidate: "round_run C P g n s \<Longrightarrow> env_ok C P E s \<Longrightarrow>
    Height (Sigwit cand) - bs_Height (stateSnapshot (rs_chain s)) = 2 \<or> sane (Transactions cand) \<Longrightarrow>
    handleCandidateMsg E known cand s = (Inr (), s') \<Longrightarrow> round_run C P g n s'"
| round_sign: "round_run C P g n s \<Longrightarrow> env_ok C P E s \<Longrightarrow> handleSign E known sign s = (Inr (), s') \<Longrightarrow> round_run C P g n s'"
| round_proposed: "round_run C P g n s \<Longrightarrow> sane (Transactions cand) \<Longrightarrow> proposeBlock cand s = (Inr (), s') \<Longrightarrow> round_run C P g n s'"
| round_voted: "round_run C P g n s \<Longrightarrow> env_ok C P E s \<Longrightarrow> CurrentCandidatePool s (candHash cand) \<noteq> None \<Longrightarrow>
    preventRepeatSign (candHash cand) (ownKey E) (rs_tickets s) \<Longrightarrow> BlockVote E cand s = (Inr (), s') \<Longrightarrow> round_run C P g n s'"
| round_ended: "round_run C P g n s \<Longrightarrow> env_ok C P E s \<Longrightarrow> voteProcess E s = Some (Inr (), s') \<Longrightarrow> round_run C P g (Suc n) s'"
| round_synced: "round_run C P g n s \<Longrightarrow> env_ok C P E s \<Longrightarrow> sane (Transactions cand) \<Longrightarrow>
    handleSyncBlockMsg E known ty cand s = Some (Inr (), s') \<Longrightarrow> round_run C P g (Suc n) s'"

text \<open>
  Every vote of the pool is a valid one for a current candidate, and no key voted twice for it.
\<close>

definition votes_ok :: "crypto \<Rightarrow> candidatePool \<Rightarrow> pools \<Rightarrow> bool" where
  "votes_ok C cands t = (\<forall>h sks. ticketPool t h = Some sks \<longrightarrow> sks \<noteq> [] \<and> cands h \<noteq> None \<and> distinct (map sk_PublicKey sks) \<and>
     list_all (\<lambda>sk. \<exists>cand. candHash cand = h \<and> valid_vote C cand h sk) sks)"

definition sane_pool :: "candidatePool \<Rightarrow> bool" where
  "sane_pool cands = (\<forall>h c. cands h = Some c \<longrightarrow> candHash c = h \<and> sane (Transactions c))"

definition round_ok :: "crypto \<Rightarrow> roundState \<Rightarrow> bool" where
  "round_ok C s = (votes_ok C (CurrentCandidatePool s) (rs_tickets s) \<and> sane_pool (CurrentCandidatePool s) \<and> sane_pool (PrevCandidatePool s))"

lemma votes_ok_update:
  assumes "votes_ok C cands t" "cands h \<noteq> None" "preventRepeatSign h (sk_PublicKey sk) t" "candHash cand = h" "valid_vote C cand h sk"
  shows "votes_ok C cands (UpdateTicketPool h sk t)"
proof -
  have u: "ticketPool (UpdateTicketPool h sk t) = (ticketPool t)(h \<mapsto> votesFor t h @ [sk])"
    by (simp add: UpdateTicketPool_def SetTicketPool_def votesFor_def Let_def)
  have old: "distinct (map sk_PublicKey (votesFor t h))" "list_all (\<lambda>sk. \<exists>cand. candHash cand = h \<and> valid_vote C cand h sk) (votesFor t h)"
    using assms(1) by (auto simp: votes_ok_def votesFor_def split: option.splits)
  have "sk_PublicKey sk \<notin> sk_PublicKey ` set (votesFor t h)" using assms(3) by (auto simp: preventRepeatSign_def list_ex_iff)
  then have new: "votesFor t h @ [sk] \<noteq> [] \<and> cands h \<noteq> None \<and> distinct (map sk_PublicKey (votesFor t h @ [sk])) \<and>
      list_all (\<lambda>sk. \<exists>cand. candHash cand = h \<and> valid_vote C cand h sk) (votesFor t h @ [sk])"
    using old assms(2,4,5) by auto
  show ?thesis unfolding votes_ok_def u using new assms(1) unfolding votes_ok_def by simp
qed

lemma votes_ok_cands: "votes_ok C cands t \<Longrightarrow> (\<And>h. cands h \<noteq> None \<Longrightarrow> cands' h \<noteq> None) \<Longrightarrow> votes_ok C cands' t"
  unfolding votes_ok_def by blast

lemma addCandidate_simps [simp]:
  "CurrentCandidatePool (addCandidate c h s) = (CurrentCandidatePool s)(candHash c \<mapsto> c)"
  "rs_tickets (addCandidate c h s) = rs_tickets s" "PrevCandidatePool (addCandidate c h s) = PrevCandidatePool s"
  "rs_chain (addCandidate c h s) = rs_chain s" "VoteBool (addCandidate c h s) = VoteBool s"
  "bestCandidate (addCandidate c h s) = bestCandidate s"
  by (simp_all add: addCandidate_def)

lemma round_ok_add: "round_ok C s \<Longrightarrow> sane (Transactions c) \<Longrightarrow> round_ok C (addCandidate c h s)"
  using votes_ok_cands [of C "CurrentCandidatePool s" "rs_tickets s" "(CurrentCandidatePool s)(candHash c \<mapsto> c)"]
  by (auto simp: round_ok_def sane_pool_def)

lemma BlockVote_cases:
  assumes "BlockVote E cand s = (r, s')" "signer_ok C E"
  shows "s' = s \<or> (\<exists>sig. s' = s\<lparr>rs_tickets := UpdateTicketPool (candHash cand) \<lparr>sk_Signature = sig, sk_PublicKey = ownKey E\<rparr> (rs_tickets s)\<rparr> \<and>
    valid_vote C cand (candHash cand) \<lparr>sk_Signature = sig, sk_PublicKey = ownKey E\<rparr>)"
proof (cases "s' = s")
  case False
  then obtain sig v where v: "sign64 E (candHash cand) = Some sig" "VotesVerge (Scale (Header cand)) = Some v" "weightOf sig \<le> v"
      "s' = s\<lparr>rs_tickets := UpdateTicketPool (candHash cand) \<lparr>sk_Signature = sig, sk_PublicKey = ownKey E\<rparr> (rs_tickets s)\<rparr>"
    using assms(1) by (auto simp: BlockVote_def Let_def Hash64Size_def split: option.splits if_splits prod.splits)
  then show ?thesis using assms(2) by (auto simp: signer_ok_def valid_vote_def)
qed simp

lemma round_ok_BlockVote:
  assumes "round_ok C s" "BlockVote E cand s = (r, s')" "signer_ok C E" "CurrentCandidatePool s (candHash cand) \<noteq> None"
    "preventRepeatSign (candHash cand) (ownKey E) (rs_tickets s)"
  shows "round_ok C s'"
proof -
  have v: "votes_ok C (CurrentCandidatePool s) (rs_tickets s)" using assms(1) by (simp add: round_ok_def)
  from BlockVote_cases [OF assms(2,3)] show ?thesis
    using assms(1) votes_ok_update [OF v assms(4)] assms(5) by (auto simp: round_ok_def)
qed

lemma ProcessCandidate_cases:
  assumes "ProcessCandidate E cand s = (r, s')"
  shows "(\<exists>err. r = Inl err) \<and> s' = s \<or>
    (\<exists>vb best. r = Inr (vb, True) \<and> bestCandidate s = Some best \<and> s' = addCandidate cand (bl_Hash best) s \<and>
       CurrentCandidatePool s (candHash cand) = None \<and> sane (Transactions cand) \<and>
       PrevCandidatePool s (PrevBlock (Header cand)) \<noteq> None)"
proof -
  have "sane (Transactions cand)" if "checkCandidateSanity C cand seed v pool = Inr vb" for C seed v pool vb
    using that by (auto simp: checkCandidateSanity_def bindE_Inr_iff sane_def)
  then show ?thesis using assms
    by (auto simp: ProcessCandidate_def Let_def CandidateExists_def PrevCandidateExists_def split: if_splits option.splits sum.splits)
qed

lemma no_votes: "votes_ok C cands t \<Longrightarrow> cands h = None \<Longrightarrow> preventRepeatSign h key t"
  unfolding votes_ok_def preventRepeatSign_def votesFor_def by (cases "ticketPool t h") (simp, metis option.distinct(1))

lemma handleCandidateMsg_ok:
  assumes "handleCandidateMsg E known cand s = (r, s')" "round_ok C s" "signer_ok C E"
    "Height (Sigwit cand) - bs_Height (stateSnapshot (rs_chain s)) = 2 \<or> sane (Transactions cand)"
  shows "round_ok C s' \<and> rs_chain s' = rs_chain s"
proof -
  define s1 where "s1 = s\<lparr>CurrentHeight := Height (Sigwit cand)\<rparr>"
  have s1: "round_ok C s1" "rs_chain s1 = rs_chain s" using assms(2) by (simp_all add: s1_def round_ok_def)
  let ?d = "Height (Sigwit cand) - bs_Height (stateSnapshot (rs_chain s))"
  consider (known) "\<not> known" | (process) "known" "?d = 2" | (increment) "known" "?d \<noteq> 2" by blast
  then show ?thesis
  proof cases
    case known
    then show ?thesis using assms(1,2) by (simp add: handleCandidateMsg_def)
  next
    case process
    obtain q s2 where q: "ProcessCandidate E cand s1 = (q, s2)" by fastforce
    have eq: "(r, s') = (case q of Inl err \<Rightarrow> (if err = ChainPanic then Inl err else Inr (), s2)
        | Inr (v, _) \<Rightarrow> if sendOk E \<and> v \<and> VoteBool s2 then BlockVote E cand s2 else (Inr (), s2))"
      using assms(1) process q by (auto simp: handleCandidateMsg_def s1_def [symmetric] Let_def split: sum.splits)
    from ProcessCandidate_cases [OF q] show ?thesis
    proof (elim disjE conjE exE)
      fix err assume "q = Inl err" "s2 = s1"
      then show ?thesis using eq s1 by simp
    next
      fix vb best assume p: "q = Inr (vb, True)" "bestCandidate s1 = Some best" "s2 = addCandidate cand (bl_Hash best) s1"
        "CurrentCandidatePool s1 (candHash cand) = None" "sane (Transactions cand)"
      have ok: "round_ok C s2" "rs_chain s2 = rs_chain s" using round_ok_add [OF s1(1) p(5)] s1(2) by (simp_all add: p(3))
      have no: "preventRepeatSign (candHash cand) (ownKey E) (rs_tickets s2)"
        using no_votes [of C "CurrentCandidatePool s1" "rs_tickets s1"] s1(1) p(4) by (simp add: p(3) round_ok_def)
      show ?thesis
      proof (cases "sendOk E \<and> vb \<and> VoteBool s2")
        case True
        then have v: "BlockVote E cand s2 = (r, s')" using eq p(1) by simp
        have "rs_chain s' = rs_chain s2" using BlockVote_cases [OF v assms(3)] by auto
        then show ?thesis using round_ok_BlockVote [OF ok(1) v assms(3) _ no] ok(2) by (simp add: p(3))
      next
        case False
        then show ?thesis using eq p(1) ok by (auto split: if_splits)
      qed
    qed
  next
    case increment
    have a: "round_ok C (addCandidate cand (PrevBlock (Header cand)) s1)" using round_ok_add [OF s1(1)] assms(4) increment by blast
    show ?thesis
    proof (cases "sint ?d > 2 \<and> StartHeight s \<noteq> Height (Sigwit cand) \<and> Height (Sigwit cand) \<notin> incrementBlock s")
      case True
      then have "s' = (addCandidate cand (PrevBlock (Header cand)) s1)\<lparr>incrementBlock := insert (Height (Sigwit cand)) (incrementBlock s)\<rparr>"
        using assms(1) increment by (simp add: handleCandidateMsg_def s1_def Let_def)
      then show ?thesis using a s1(2) by (simp add: round_ok_def)
    next
      case False
      then have "s' = s1" using assms(1) increment by (auto simp: handleCandidateMsg_def s1_def Let_def split: if_splits)
      then show ?thesis using s1 by simp
    qed
  qed
qed

lemma handleSign_ok:
  assumes "handleSign E known sign s = (r, s')" "round_ok C s" "env_crypto (re_chain E) = C"
  shows "round_ok C s' \<and> rs_chain s' = rs_chain s"
proof (cases "known \<and> CurrentCandidatePool s (BlockHeaderHash sign) \<noteq> None")
  case True
  then obtain cand where c: "CurrentCandidatePool s (BlockHeaderHash sign) = Some cand" by blast
  obtain q t where q: "CollectVotes C sign cand (map_option bl_Hash (bestCandidate s)) (rs_tickets s) = (q, t)" by fastforce
  have s': "s' = s\<lparr>rs_tickets := t\<rparr>" using assms(1,3) True c q by (auto simp: handleSign_def handleSignMsg_def split: sum.splits)
  have ok: "votes_ok C (CurrentCandidatePool s) (rs_tickets s)" "candHash cand = BlockHeaderHash sign"
    using assms(2) c by (auto simp: round_ok_def sane_pool_def)
  have "votes_ok C (CurrentCandidatePool s) t"
    using CollectVotes_cases [OF q] votes_ok_update [OF ok(1) _ _ ok(2), of "\<lparr>sk_Signature = sSignature sign, sk_PublicKey = sPublicKey sign\<rparr>"]
      c ok(1) by auto
  then show ?thesis using assms(2) by (simp add: s' round_ok_def)
next
  case False
  then have "s' = s" using assms(1) by (auto simp: handleSign_def handleSignMsg_def split: if_splits)
  then show ?thesis using assms(2) by simp
qed

text \<open>The end of a round leaves no votes, and the candidates become those of the previous round.\<close>

lemma chooseBest_fields:
  assumes "chooseBest E h votes s = Inr s'"
  shows "rs_chain s' = rs_chain s" "rs_tickets s' = rs_tickets s" "CurrentCandidatePool s' = CurrentCandidatePool s"
    "PrevCandidatePool s' = PrevCandidatePool s"
  using assms by (auto simp: chooseBest_def SetBestCandidate_def Let_def split: if_splits option.splits)

lemma nextRound_ok: "round_ok C s \<Longrightarrow> round_ok C (nextRound s) \<and> rs_chain (nextRound s) = rs_chain s"
  by (simp add: nextRound_def round_ok_def votes_ok_def sane_pool_def SetTicketPool_def SetPrevTicketPool_def)

lemma writeBlock_ok:
  assumes "writeBlock E prev votes s = Some (r, s')" "round_ok C s" "chain_run P g m (rs_chain s)" "chainParams (re_chain E) = P"
    "\<And>c. prev = Some c \<Longrightarrow> sane (Transactions c)"
  shows "round_ok C s' \<and> (\<exists>k \<le> Suc m. chain_run P g k (rs_chain s'))"
proof (cases prev)
  case None
  then have "s' = s" using assms(1) by (simp add: writeBlock_def)
  then show ?thesis using assms(2,3) by (auto intro: exI [of _ m])
next
  case (Some c)
  then obtain q b where b: "ProcessBlock (re_chain E) (toBlock c votes) (rs_chain s) = Some (q, b)" "s' = s\<lparr>rs_chain := b\<rparr>"
    using assms(1) by (auto simp: writeBlock_def)
  have "sane (chainTxs (toBlock c votes))" using assms(5) [OF Some] by (simp add: toBlock_def)
  from arrives [OF assms(3,4) this b(1)] show ?thesis using assms(2) by (auto simp: b(2) round_ok_def intro: exI [of _ "Suc m"])
qed

lemma voteProcess_ok:
  assumes "voteProcess E s = Some (r, s')" "round_ok C s" "chain_run P g m (rs_chain s)" "chainParams (re_chain E) = P"
  shows "round_ok C s' \<and> (\<exists>k \<le> Suc m. chain_run P g k (rs_chain s'))"
proof (cases "\<exists>h votes s1. GetMaxVotes (CurrentCandidatePool s) (ticketOrder E) = Some (h, votes) \<and> chooseBest E h votes s = Inr s1")
  case False
  then have "s' = s" using assms(1) by (fastforce simp: voteProcess_def split: option.splits sum.splits prod.splits)
  then show ?thesis using assms(2,3) by (auto intro: exI [of _ m])
next
  case True
  then obtain h votes s1 where c: "GetMaxVotes (CurrentCandidatePool s) (ticketOrder E) = Some (h, votes)" "chooseBest E h votes s = Inr s1" by blast
  note f = chooseBest_fields [OF c(2)]
  let ?s = "s1\<lparr>CurrentPointPool := Map.empty\<rparr>" and ?prev = "PrevCandidatePool s1 (GetBestPointBlockH (pointOrder E))"
  obtain q s2 where w: "writeBlock E ?prev votes ?s = Some (q, s2)" "s' = (case q of Inl _ \<Rightarrow> s2 | Inr _ \<Rightarrow> nextRound s2)"
    using assms(1) c by (auto simp: voteProcess_def Let_def)
  have ok: "round_ok C ?s" "chain_run P g m (rs_chain ?s)" using assms(2,3) f by (simp_all add: round_ok_def)
  have "sane (Transactions c)" if "?prev = Some c" for c using that assms(2) f(4) by (auto simp: round_ok_def sane_pool_def)
  from writeBlock_ok [OF w(1) ok assms(4) this] show ?thesis using w(2) nextRound_ok by (auto split: sum.splits)
qed

lemma handleSyncBlockMsg_ok:
  assumes "handleSyncBlockMsg E known ty cand s = Some (r, s')" "round_ok C s" "chain_run P g m (rs_chain s)" "chainParams (re_chain E) = P"
    "sane (Transactions cand)"
  shows "round_ok C s' \<and> (\<exists>k \<le> Suc m. chain_run P g k (rs_chain s'))"
proof (cases "known \<and> ty = 1")
  case True
  then obtain q b where b: "ProcessSyncBlock (re_chain E) (toBlock cand 0) (rs_chain s) = Some (q, b)" "s' = s\<lparr>rs_chain := b\<rparr>"
    using assms(1) by (auto simp: handleSyncBlockMsg_def)
  have "sane (chainTxs (toBlock cand 0))" using assms(5) by (simp add: toBlock_def)
  from synced [OF assms(3,4) this b(1)] show ?thesis using assms(2) by (auto simp: b(2) round_ok_def intro: exI [of _ "Suc m"])
next
  case False
  then have "rs_chain s' = rs_chain s \<and> round_ok C s'"
    using assms(1,2,5) by (auto simp: handleSyncBlockMsg_def round_ok_def sane_pool_def split: if_splits)
  then show ?thesis using assms(3) by (auto intro: exI [of _ m])
qed

lemma round_run_ok: "round_run C P g n s \<Longrightarrow> round_ok C s \<and> (\<exists>m \<le> n. chain_run P g m (rs_chain s))"
proof (induction rule: round_run.induct)
  case (round_start b t)
  then show ?case using start [of g b P] by (auto simp: VoteHandler_init_def round_ok_def votes_ok_def sane_pool_def)
next
  case (round_enabled n s)
  then show ?case by (simp add: round_ok_def)
next
  case (round_candidate n s E cand known s')
  then show ?case using handleCandidateMsg_ok [of E known cand s "Inr ()" s' C] by (auto simp: env_ok_def)
next
  case (round_sign n s E known sign s')
  then show ?case using handleSign_ok [of E known sign s "Inr ()" s' C] by (auto simp: env_ok_def)
next
  case (round_proposed n s cand s')
  then show ?case using round_ok_add [of C s cand] by (auto simp: proposeBlock_def split: option.splits)
next
  case (round_voted n s E cand s')
  then have e: "signer_ok C E" by (simp add: env_ok_def)
  have "rs_chain s' = rs_chain s" using BlockVote_cases [OF round_voted.hyps(5) e] by auto
  then show ?case using round_ok_BlockVote [OF _ round_voted.hyps(5) e round_voted.hyps(3,4)] round_voted.IH by auto
next
  case (round_ended n s E s')
  then obtain m where m: "m \<le> n" "chain_run P g m (rs_chain s)" by blast
  have e: "round_ok C s" "chainParams (re_chain E) = P" using round_ended.IH round_ended.hyps(2) by (simp_all add: env_ok_def)
  from voteProcess_ok [OF round_ended.hyps(3) e(1) m(2) e(2)] m(1) show ?case by (meson Suc_le_mono le_trans)
next
  case (round_synced n s E cand known ty s')
  then obtain m where m: "m \<le> n" "chain_run P g m (rs_chain s)" by blast
  have e: "round_ok C s" "chainParams (re_chain E) = P" using round_synced.IH round_synced.hyps(2) by (simp_all add: env_ok_def)
  from handleSyncBlockMsg_ok [OF round_synced.hyps(4) e(1) m(2) e(2) round_synced.hyps(3)] m(1) show ?case by (meson Suc_le_mono le_trans)
qed

section \<open>The end of a round\<close>

definition voters :: "roundState \<Rightarrow> bytes \<Rightarrow> bytes set" where
  "voters s h = sk_PublicKey ` set (votesFor (rs_tickets s) h)"

abbreviation zeroHash :: bytes where "zeroHash \<equiv> replicate HashSize 0"

lemma order_votes:
  assumes "orders_ok E s"
  shows "(h, sks) \<in> set (ticketOrder E) \<longleftrightarrow> ticketPool (rs_tickets s) h = Some sks"
  using assms map_of_eq_Some_iff [of "ticketOrder E" h sks] by (auto simp: orders_ok_def)

lemma order_empty: "orders_ok E s \<Longrightarrow> ticketOrder E = [] \<longleftrightarrow> ticketPool (rs_tickets s) = Map.empty"
  by (auto simp: orders_ok_def)

lemma candidates_empty: "orders_ok E s \<Longrightarrow> candidates (re_chain E) = [] \<longleftrightarrow> CurrentCandidatePool s = Map.empty"
  by (auto simp: orders_ok_def ran_def) (metis empty_iff list.set(1) not_None_eq option.collapse mem_Collect_eq set_empty)

lemma card_voters:
  assumes "votes_ok C cands (rs_tickets s)"
  shows "card (voters s h) = length (votesFor (rs_tickets s) h)"
proof -
  have "distinct (map sk_PublicKey (votesFor (rs_tickets s) h))"
    using assms by (auto simp: votes_ok_def votesFor_def split: option.splits)
  then show ?thesis using distinct_card [of "map sk_PublicKey (votesFor (rs_tickets s) h)"] by (simp add: voters_def)
qed

text \<open>The loop over the votes finds a candidate with the most voters, or there are no votes.\<close>

lemma winner_cases:
  assumes "round_ok C s" "orders_ok E s"
  shows "ticketPool (rs_tickets s) = Map.empty \<and> GetMaxVotes (CurrentCandidatePool s) (ticketOrder E) = Some (zeroHash, 0) \<or>
    ticketPool (rs_tickets s) \<noteq> Map.empty \<and>
    (\<exists>h cand. GetMaxVotes (CurrentCandidatePool s) (ticketOrder E) = Some (h, of_nat (card (voters s h))) \<and>
      CurrentCandidatePool s h = Some cand \<and> (\<forall>k. card (voters s k) \<le> card (voters s h)))"
proof (cases "ticketOrder E = []")
  case True
  then show ?thesis using order_empty [OF assms(2)] by (simp add: GetMaxVotes_def)
next
  case False
  have v: "votes_ok C (CurrentCandidatePool s) (rs_tickets s)" using assms(1) by (simp add: round_ok_def)
  then have "list_all (\<lambda>(h, sks). sks \<noteq> [] \<and> CurrentCandidatePool s h \<noteq> None) (ticketOrder E)"
    using order_votes [OF assms(2)] by (auto simp: list_all_iff votes_ok_def)
  from GetMaxVotes_winner [OF False this] obtain h sks where w:
      "GetMaxVotes (CurrentCandidatePool s) (ticketOrder E) = Some (h, of_nat (length sks))" "(h, sks) \<in> set (ticketOrder E)"
      "list_all (\<lambda>(k, l). length l \<le> length sks \<and>
        (length l = length sks \<longrightarrow> candWeight (CurrentCandidatePool s) h \<le> candWeight (CurrentCandidatePool s) k)) (ticketOrder E)"
    by blast
  have h: "ticketPool (rs_tickets s) h = Some sks" using w(2) order_votes [OF assms(2)] by blast
  then obtain cand where cand: "CurrentCandidatePool s h = Some cand" using v by (auto simp: votes_ok_def)
  have l: "length sks = card (voters s h)" using card_voters [OF v] h by (simp add: votesFor_def)
  have "card (voters s k) \<le> card (voters s h)" for k
  proof (cases "ticketPool (rs_tickets s) k")
    case None
    then show ?thesis by (simp add: voters_def votesFor_def)
  next
    case (Some l)
    then have "length l \<le> length sks" using w(3) order_votes [OF assms(2)] by (auto simp: list_all_iff)
    then show ?thesis using Some card_voters [OF v, of k] l by (simp add: votesFor_def)
  qed
  then show ?thesis using w(1) cand l h by auto
qed

lemma writeBlock_total:
  assumes "pool_ok (rs_chain s)"
  shows "\<exists>r s'. writeBlock E prev votes s = Some (r, s') \<and> bestCandidate s' = bestCandidate s \<and>
    (r = Inr () \<or> r = Inl ChainPanic \<and> (\<exists>c b. prev = Some c \<and> ProcessBlock (re_chain E) (toBlock c votes) (rs_chain s) = Some (Inl ChainPanic, b))) \<and>
    (\<forall>c b. prev = Some c \<longrightarrow> ProcessBlock (re_chain E) (toBlock c votes) (rs_chain s) = Some (Inl ChainPanic, b) \<longrightarrow> r = Inl ChainPanic)"
proof (cases prev)
  case (Some c)
  obtain r b where "ProcessBlock (re_chain E) (toBlock c votes) (rs_chain s) = Some (r, b)" using any.process_block [OF _ assms] by blast
  then show ?thesis using Some by (cases "r = Inl ChainPanic") (auto simp: writeBlock_def)
qed (simp add: writeBlock_def)

lemma bestCandidate_nextRound: "bestCandidate (nextRound s) = bestCandidate s"
  by (simp add: nextRound_def Let_def)


lemma voters_valid:
  assumes "votes_ok C cands (rs_tickets s)" "k \<in> voters s h"
  shows "\<exists>cand sk. candHash cand = h \<and> sk_PublicKey sk = k \<and> valid_vote C cand h sk"
proof -
  obtain sk where sk: "sk \<in> set (votesFor (rs_tickets s) h)" "sk_PublicKey sk = k" using assms(2) by (auto simp: voters_def)
  then obtain sks where "ticketPool (rs_tickets s) h = Some sks" "sk \<in> set sks" by (cases "ticketPool (rs_tickets s) h") (auto simp: votesFor_def)
  then show ?thesis using assms(1) sk(2) unfolding votes_ok_def list_all_iff by blast
qed

lemma best_candidate_cases:
  assumes "round_ok C s" "orders_ok E s" "chainParams (re_chain E) = P" "voteProcess E s = Some (Inr (), s')"
  shows "\<exists>bc. bestCandidate s' = Some bc \<and>
    (bl_Hash bc = GenesisHash P \<and> bl_Header bc = genesisHeader E \<or>
     (\<exists>cand. CurrentCandidatePool s (bl_Hash bc) = Some cand \<and> bl_Header bc = Header cand \<and> bl_Height bc = Height (Sigwit cand) \<and>
       IsEnough (bl_Votes bc) (Scale (Header cand)) \<and> bl_Votes bc = of_nat (card (voters s (bl_Hash bc))) \<and>
       (\<forall>h. card (voters s h) \<le> card (voters s (bl_Hash bc)))))"
proof -
  obtain h votes s1 where m: "GetMaxVotes (CurrentCandidatePool s) (ticketOrder E) = Some (h, votes)" "chooseBest E h votes s = Inr s1"
    using assms(4) by (auto simp: voteProcess_def split: option.splits sum.splits prod.splits)
  obtain s2 where w: "writeBlock E (PrevCandidatePool s1 (GetBestPointBlockH (pointOrder E))) votes (s1\<lparr>CurrentPointPool := Map.empty\<rparr>) = Some (Inr (), s2)"
      "s' = nextRound s2"
    using assms(4) m by (auto simp: voteProcess_def Let_def split: sum.splits)
  have "bestCandidate s2 = bestCandidate s1" using w(1) by (auto simp: writeBlock_def split: option.splits)
  then have b: "bestCandidate s' = bestCandidate s1" using w(2) bestCandidate_nextRound by simp
  have z: "candHash c = zeroHash" if "CurrentCandidatePool s zeroHash = Some c" for c using that assms(1) by (simp add: round_ok_def sane_pool_def)
  show ?thesis
  proof (cases "ticketPool (rs_tickets s) = Map.empty")
    case True
    then have v: "h = zeroHash" "votes = 0" "\<And>k. voters s k = {}" using winner_cases [OF assms(1,2)] m(1) by (auto simp: voters_def votesFor_def)
    then show ?thesis using m(2) b assms(3)
      by (auto simp: chooseBest_def SetBestCandidate_def NewBestCandidate_def Let_def split: if_splits option.splits)
  next
    case False
    then obtain cand where "votes = of_nat (card (voters s h))" "CurrentCandidatePool s h = Some cand" "\<forall>k. card (voters s k) \<le> card (voters s h)"
      using winner_cases [OF assms(1,2)] m(1) by auto
    then show ?thesis using m(2) b assms(3)
      by (auto simp: chooseBest_def SetBestCandidate_def NewBestCandidate_def Let_def split: if_splits)
  qed
qed

text \<open>
  C7: After a round the best candidate, on which the next round builds, is the empty block, or it is a
  candidate of the round with enough votes and no fewer than any other, where every vote is from a different key and each key
  has signed the block with a weight within the threshold.
\<close>

theorem best_candidate_has_quorum:
  assumes "round_run C P g n s" "env_ok C P E s" "voteProcess E s = Some (Inr (), s')"
  shows "\<exists>bc. bestCandidate s' = Some bc \<and>
    (bl_Hash bc = GenesisHash P \<and> bl_Header bc = genesisHeader E \<or>
     (\<exists>cand. CurrentCandidatePool s (bl_Hash bc) = Some cand \<and> bl_Header bc = Header cand \<and> bl_Height bc = Height (Sigwit cand) \<and>
       IsEnough (of_nat (card (voters s (bl_Hash bc)))) (Scale (Header cand)) \<and>
       (\<forall>h. card (voters s h) \<le> card (voters s (bl_Hash bc))) \<and>
       (\<forall>k \<in> voters s (bl_Hash bc). \<exists>c sk. candHash c = bl_Hash bc \<and> sk_PublicKey sk = k \<and> valid_vote C c (bl_Hash bc) sk)))"
proof -
  have ok: "round_ok C s" "orders_ok E s" "chainParams (re_chain E) = P" "votes_ok C (CurrentCandidatePool s) (rs_tickets s)"
    using round_run_ok [OF assms(1)] assms(2) by (simp_all add: env_ok_def round_ok_def)
  from best_candidate_cases [OF ok(1-3) assms(3)] voters_valid [OF ok(4)] show ?thesis by metis
qed


section \<open>A round with eight voters\<close>

definition curvePoints :: "PublicKey list" where
  "curvePoints = [\<lparr>keyX = x, keyY = y\<rparr>.
     x \<leftarrow> [0x79be667ef9dcbbac55a06295ce870b07029bfcdb2dce28d959f2815b16f81798, 0xbcace2e99da01887ab0102b696902325872844067f15e98da7bba04400b88fcb],
     y \<leftarrow> [0x483ada7726a3c4655da4fbfc0e1108a8fd17b448a68554199c47d08ffb10d4b8, 0xb7c52588d95c3b9aa25b0403f1eef75702e84bb7597aabe663b82f6f04ef2777]]"

definition eightKeys :: "bytes list" where
  "eightKeys = map SerializeUncompressed curvePoints @ map SerializeHybrid curvePoints"

lemma on_curve: "x * x * x + 7 = y * y + curve_P * k \<Longrightarrow> IsOnCurve x y"
  unfolding IsOnCurve_def by (simp only: mod_mult_self2)

lemma curvePoints_valid: "list_all valid_key curvePoints"
proof -
  have "IsOnCurve 0x79be667ef9dcbbac55a06295ce870b07029bfcdb2dce28d959f2815b16f81798 0x483ada7726a3c4655da4fbfc0e1108a8fd17b448a68554199c47d08ffb10d4b8"
    by (rule on_curve [of _ _ "0x1b888e01a06e974017a28a5b4da436169761c9730b7aeedf75fc60f6a33cfc7792fe74711f025d590b10e57f1b3a7ce38ffc4c885c515894b45c19c9f413e5e9"])
      (simp add: curve_P_def)
  moreover have "IsOnCurve 0x79be667ef9dcbbac55a06295ce870b07029bfcdb2dce28d959f2815b16f81798 0xb7c52588d95c3b9aa25b0403f1eef75702e84bb7597aabe663b82f6f04ef2777"
    by (rule on_curve [of _ _ "0x1b888e01a06e974017a28a5b4da436169761c9730b7aeedf75fc60f6a33cfc772374295f6c49e623c65add77375c8e358a2bb519a95c00c7ecebbaeaea35932a"])
      (simp add: curve_P_def)
  moreover have "IsOnCurve 0xbcace2e99da01887ab0102b696902325872844067f15e98da7bba04400b88fcb 0x483ada7726a3c4655da4fbfc0e1108a8fd17b448a68554199c47d08ffb10d4b8"
    by (rule on_curve [of _ _ "0x667c78e9f0d1363a4b6e5c23b35fe189702b167e74a3c74adccee5670884918ce4e79c3f28c3c348df983468533f0f07ee40045f77ea2be0c948ca9746ec2ce6"])
      (simp add: curve_P_def)
  moreover have "IsOnCurve 0xbcace2e99da01887ab0102b696902325872844067f15e98da7bba04400b88fcb 0xb7c52588d95c3b9aa25b0403f1eef75702e84bb7597aabe663b82f6f04ef2777"
    by (rule on_curve [of _ _ "0x667c78e9f0d1363a4b6e5c23b35fe189702b167e74a3c74adccee5670884918c755d512d760b4c139ae22c606f612059e86f6cf0c4f4d41401d86bb83d0dda27"])
      (simp add: curve_P_def)
  ultimately show ?thesis unfolding curvePoints_def by (simp add: valid_key_def) (simp add: curve_P_def)
qed

lemma eightKeys_ok: "distinct eightKeys" "length eightKeys = 8" "k \<in> set eightKeys \<Longrightarrow> \<exists>key. ParsePubKey k = Inr key"
proof -
  have p: "ParsePubKey (SerializeUncompressed k) = Inr k" "ParsePubKey (SerializeHybrid k) = Inr k" if "k \<in> set curvePoints" for k
    using that curvePoints_valid parse_serialized by (auto simp: list_all_iff)
  have "inj_on SerializeUncompressed (set curvePoints)" "inj_on SerializeHybrid (set curvePoints)"
    using p by (metis inj_onI sum.inject(2))+
  moreover have "distinct curvePoints" by (simp add: curvePoints_def)
  moreover have "hd (SerializeUncompressed k) = 4" "hd (SerializeHybrid k) \<noteq> 4" for k
    by (simp_all add: SerializeUncompressed_def SerializeHybrid_def paddedAppend_def pubkeyUncompressed_def pubkeyHybrid_def Let_def)
  then have "SerializeUncompressed k \<noteq> SerializeHybrid k'" for k k' by metis
  ultimately show "distinct eightKeys" by (auto simp: eightKeys_def distinct_map)
  show "length eightKeys = 8" by (simp add: eightKeys_def curvePoints_def)
  show "\<exists>key. ParsePubKey k = Inr key" if "k \<in> set eightKeys" using that p by (auto simp: eightKeys_def)
qed

definition roundCandidate :: MsgCandidate where
  "roundCandidate = \<lparr>Header = firstHeader\<lparr>Scale := 12\<rparr>, Transactions = [firstCoinbase], Sigwit = \<lparr>Height = 1\<rparr>\<rparr>"

definition voteEnv :: "MsgCandidate list \<Rightarrow> (bytes \<times> SignAndKey list) list \<Rightarrow> (bytes \<times> MsgCandidate list) list \<Rightarrow> roundEnv" where
  "voteEnv cs ts ps = \<lparr>re_chain = quietEnv\<lparr>env_crypto := anyVote, candidates := cs\<rparr>, genesisHeader = firstHeader, ownKey = [],
     sign64 = (\<lambda>_. None), sendOk = False, ticketOrder = ts, pointOrder = ps\<rparr>"

lemma voteEnv_ok:
  assumes "distinct (map fst ts)" "map_of ts = ticketPool (rs_tickets s)" "distinct (map fst ps)" "map_of ps = CurrentPointPool s"
    "set cs = ran (CurrentCandidatePool s)"
  shows "env_ok anyVote mainNetLike (voteEnv cs ts ps) s"
  using assms by (simp add: env_ok_def voteEnv_def quietEnv_def orders_ok_def signer_ok_def)

text \<open>The first round has no candidates; in the second one the node has proposed one.\<close>

definition proposed :: "roundState \<Rightarrow> bool" where
  "proposed s = (round_run anyVote mainNetLike genesisOf 1 s \<and> CurrentCandidatePool s = [candHash roundCandidate \<mapsto> roundCandidate] \<and>
     PrevCandidatePool s = Map.empty \<and> CurrentPointPool s = [[] \<mapsto> [roundCandidate]] \<and>
     (\<forall>k. k \<noteq> candHash roundCandidate \<longrightarrow> ticketPool (rs_tickets s) k = None))"

lemma proposed_exists: "\<exists>s. proposed s \<and> voters s (candHash roundCandidate) = {}"
proof -
  obtain b where b: "createChainState genesisOf = Inr b" using quiet_start by blast
  define t0 where "t0 = \<lparr>ticketPool = Map.empty, prevTicketPool = Map.empty\<rparr>"
  define s0 where "s0 = VoteHandler_init b t0"
  define s1 where "s1 = nextRound ((SetBestCandidate [] 0 firstHeader 1 s0)\<lparr>CurrentPointPool := Map.empty\<rparr>)"
  have r0: "round_run anyVote mainNetLike genesisOf 0 s0" unfolding s0_def by (rule round_start [OF b]) (simp add: t0_def)
  have "voteProcess (voteEnv [] [] []) s0 = Some (Inr (), s1)"
    by (simp add: voteProcess_def GetMaxVotes_def chooseBest_def voteEnv_def quietEnv_def mainNetLike_def writeBlock_def s1_def s0_def
        VoteHandler_init_def SetBestCandidate_def)
  moreover have "env_ok anyVote mainNetLike (voteEnv [] [] []) s0"
    by (rule voteEnv_ok) (simp_all add: s0_def VoteHandler_init_def t0_def)
  ultimately have r1: "round_run anyVote mainNetLike genesisOf 1 s1" using round_ended [OF r0] by simp
  have f: "bestCandidate s1 = Some (NewBestCandidate [] 0 firstHeader 1)" "CurrentCandidatePool s1 = Map.empty" "PrevCandidatePool s1 = Map.empty"
      "CurrentPointPool s1 = Map.empty" "ticketPool (rs_tickets s1) = Map.empty"
    by (simp_all add: s1_def s0_def VoteHandler_init_def SetBestCandidate_def nextRound_def SetTicketPool_def SetPrevTicketPool_def)
  define s2 where "s2 = addCandidate roundCandidate [] s1"
  have "proposeBlock roundCandidate s1 = (Inr (), s2)" by (simp add: proposeBlock_def f s2_def NewBestCandidate_def)
  moreover have "sane (Transactions roundCandidate)" using quiet_sane by (simp add: roundCandidate_def firstArrival_def)
  ultimately have "round_run anyVote mainNetLike genesisOf 1 s2" using round_proposed [OF r1] by blast
  then have "proposed s2" using f by (simp add: proposed_def s2_def) (simp add: addCandidate_def f)
  moreover have "voters s2 (candHash roundCandidate) = {}" by (simp add: voters_def votesFor_def s2_def f)
  ultimately show ?thesis by blast
qed

lemma proposed_voteEnv:
  assumes "proposed s"
  shows "\<exists>ts. env_ok anyVote mainNetLike (voteEnv [roundCandidate] ts [([], [roundCandidate])]) s"
proof -
  let ?h = "candHash roundCandidate"
  have p: "CurrentCandidatePool s = [?h \<mapsto> roundCandidate]" "CurrentPointPool s = [[] \<mapsto> [roundCandidate]]"
      "\<And>k. k \<noteq> ?h \<Longrightarrow> ticketPool (rs_tickets s) k = None"
    using assms by (simp_all add: proposed_def)
  define ts where "ts = (case ticketPool (rs_tickets s) ?h of Some l \<Rightarrow> [(?h, l)] | None \<Rightarrow> [])"
  have "map_of ts k = ticketPool (rs_tickets s) k" for k using p(3) [of k] by (cases "k = ?h") (auto simp: ts_def split: option.splits)
  then have "map_of ts = ticketPool (rs_tickets s)" by blast
  then have "env_ok anyVote mainNetLike (voteEnv [roundCandidate] ts [([], [roundCandidate])]) s"
    by (intro voteEnv_ok) (auto simp: ts_def p ran_def split: option.splits)
  then show ?thesis by blast
qed

lemma sign_one:
  assumes "proposed s" "ParsePubKey k = Inr key" "k \<notin> voters s (candHash roundCandidate)"
  shows "\<exists>s'. proposed s' \<and> voters s' (candHash roundCandidate) = insert k (voters s (candHash roundCandidate))"
proof -
  let ?h = "candHash roundCandidate"
  obtain ts where e: "env_ok anyVote mainNetLike (voteEnv [roundCandidate] ts [([], [roundCandidate])]) s" using proposed_voteEnv [OF assms(1)] by blast
  define sign where "sign = \<lparr>BlockHeaderHash = ?h, sSignature = replicate 64 0, sPublicKey = k\<rparr>"
  define t where "t = UpdateTicketPool ?h \<lparr>sk_Signature = replicate 64 0, sk_PublicKey = k\<rparr> (rs_tickets s)"
  obtain v where v: "VotesVerge 12 = Some v" by (simp add: VotesVerge_Some)
  have w: "weightOf b \<le> v" for b
  proof -
    have "weightOf b < 256 ^ 32" using SetBytes_bound [of "DoubleHashB b"] by (simp only: weightOf_def length_DoubleHash)
    moreover have "v = (2 ^ 256 * 300) div 12" using v by (simp add: VotesVerge_Some)
    ultimately show ?thesis by simp
  qed
  have sc: "Scale (Header roundCandidate) = 12" by (simp add: roundCandidate_def)
  have "preventRepeatSign ?h k (rs_tickets s)" using assms(3) by (auto simp: preventRepeatSign_def voters_def list_ex_iff)
  then have "handleSign (voteEnv [roundCandidate] ts [([], [roundCandidate])]) True sign s = (Inr (), s\<lparr>rs_tickets := t\<rparr>)"
    using assms(1,2) w v sc
    by (simp add: handleSign_def handleSignMsg_def CollectVotes_def proposed_def sign_def t_def voteEnv_def GetSignature_def sliceE_def
        Signature_Verify_def anyVote_def)
  from round_sign [OF _ e this] assms(1) have "round_run anyVote mainNetLike genesisOf 1 (s\<lparr>rs_tickets := t\<rparr>)" by (simp add: proposed_def)
  moreover have u: "ticketPool t = (ticketPool (rs_tickets s))(?h \<mapsto> votesFor (rs_tickets s) ?h @ [\<lparr>sk_Signature = replicate 64 0, sk_PublicKey = k\<rparr>])"
    by (simp add: t_def UpdateTicketPool_def SetTicketPool_def votesFor_def Let_def)
  ultimately have "proposed (s\<lparr>rs_tickets := t\<rparr>)" using assms(1) by (simp add: proposed_def)
  moreover have "voters (s\<lparr>rs_tickets := t\<rparr>) ?h = insert k (voters s ?h)" by (simp add: voters_def votesFor_def [of t] u)
  ultimately show ?thesis by blast
qed

lemma sign_many:
  assumes "proposed s" "\<forall>k \<in> set ks. \<exists>key. ParsePubKey k = Inr key" "distinct ks" "voters s (candHash roundCandidate) \<inter> set ks = {}"
  shows "\<exists>s'. proposed s' \<and> voters s' (candHash roundCandidate) = voters s (candHash roundCandidate) \<union> set ks"
  using assms
proof (induction ks arbitrary: s)
  case Nil
  then show ?case by (intro exI [of _ s]) simp
next
  case (Cons k ks)
  let ?h = "candHash roundCandidate"
  obtain key where key: "ParsePubKey k = Inr key" using Cons.prems(2) by (meson list.set_intros(1))
  have "k \<notin> voters s ?h" using Cons.prems(4) by (meson disjoint_iff list.set_intros(1))
  from sign_one [OF Cons.prems(1) key this] obtain s1 where s1: "proposed s1" "voters s1 ?h = insert k (voters s ?h)" by blast
  have "voters s1 ?h \<inter> set ks = {}" using Cons.prems(3,4) unfolding s1(2) by (simp add: disjoint_iff)
  moreover have "\<forall>k \<in> set ks. \<exists>key. ParsePubKey k = Inr key" "distinct ks" using Cons.prems(2,3) by simp_all
  ultimately obtain s2 where "proposed s2" "voters s2 ?h = voters s1 ?h \<union> set ks" using Cons.IH [OF s1(1)] by blast
  then show ?case unfolding s1(2) by (intro exI [of _ s2]) (simp add: Un_commute)
qed

lemma eight_voters:
  "\<exists>s ts s' bc. round_run anyVote mainNetLike genesisOf 1 s \<and> env_ok anyVote mainNetLike (voteEnv [roundCandidate] ts [([], [roundCandidate])]) s \<and>
     voteProcess (voteEnv [roundCandidate] ts [([], [roundCandidate])]) s = Some (Inr (), s') \<and> bestCandidate s' = Some bc \<and>
     bl_Hash bc = candHash roundCandidate \<and> Scale (bl_Header bc) = 12 \<and> card (voters s (bl_Hash bc)) = 8"
proof -
  let ?h = "candHash roundCandidate"
  obtain s where s: "proposed s" "voters s ?h = set eightKeys"
    using proposed_exists sign_many eightKeys_ok by (metis inf_bot_left sup_bot_left)
  obtain ts where e: "env_ok anyVote mainNetLike (voteEnv [roundCandidate] ts [([], [roundCandidate])]) s" (is "env_ok _ _ ?E s")
    using proposed_voteEnv [OF s(1)] by blast
  have r: "round_run anyVote mainNetLike genesisOf 1 s" using s(1) by (simp add: proposed_def)
  have eight: "card (voters s ?h) = 8" using s(2) eightKeys_ok(1,2) distinct_card by metis
  have only: "k = ?h" if "CurrentCandidatePool s k = Some c" for k c using that s(1) by (auto simp: proposed_def split: if_splits)
  have "round_ok anyVote s" "orders_ok ?E s" using round_run_ok [OF r] e by (simp_all add: env_ok_def)
  from winner_cases [OF this] have m: "GetMaxVotes (CurrentCandidatePool s) (ticketOrder ?E) = Some (?h, 8)"
    using eight only by (auto simp: voters_def votesFor_def)
  have c: "CurrentCandidatePool s ?h = Some roundCandidate" "PrevCandidatePool s = Map.empty" using s(1) by (simp_all add: proposed_def)
  define bc where "bc = NewBestCandidate ?h (Height (Sigwit roundCandidate)) (Header roundCandidate) 8"
  have "IsEnough 8 (Scale (Header roundCandidate))" by (simp add: IsEnough_def IdealVoteNum_def roundCandidate_def)
  then have "chooseBest ?E ?h 8 s = Inr (s\<lparr>bestCandidate := Some bc\<rparr>)"
    using c by (simp add: chooseBest_def SetBestCandidate_def bc_def voteEnv_def)
  then have "voteProcess ?E s = Some (Inr (), nextRound (s\<lparr>bestCandidate := Some bc, CurrentPointPool := Map.empty\<rparr>))"
    using m c by (simp add: voteProcess_def writeBlock_def)
  moreover have "bestCandidate (nextRound (s\<lparr>bestCandidate := Some bc, CurrentPointPool := Map.empty\<rparr>)) = Some bc"
    by (simp add: bestCandidate_nextRound)
  moreover have "bl_Hash bc = ?h" "Scale (bl_Header bc) = 12" by (simp_all add: bc_def NewBestCandidate_def roundCandidate_def)
  ultimately show ?thesis using r e eight by metis
qed


theorem best_candidate_has_quorum_witness:
  "\<exists>s E s' bc. round_run anyVote mainNetLike genesisOf 1 s \<and> voteProcess E s = Some (Inr (), s') \<and> bestCandidate s' = Some bc \<and>
     IsEnough (of_nat (card (voters s (bl_Hash bc)))) 12 \<and> card (voters s (bl_Hash bc)) = 8"
proof -
  obtain s ts s' bc where e: "round_run anyVote mainNetLike genesisOf 1 s" "env_ok anyVote mainNetLike (voteEnv [roundCandidate] ts [([], [roundCandidate])]) s"
     "voteProcess (voteEnv [roundCandidate] ts [([], [roundCandidate])]) s = Some (Inr (), s')" "bestCandidate s' = Some bc"
     "bl_Hash bc = candHash roundCandidate" "Scale (bl_Header bc) = 12" "card (voters s (bl_Hash bc)) = 8"
    using eight_voters by blast
  have "bl_Hash bc \<noteq> GenesisHash mainNetLike" by (simp add: e(5) mainNetLike_def roundCandidate_def BlockHash_def flip: length_0_conv)
  then have "IsEnough (of_nat (card (voters s (bl_Hash bc)))) (Scale (bl_Header bc))"
    using best_candidate_has_quorum [OF e(1-3)] e(4) by auto
  then show ?thesis using e by metis
qed


section \<open>Candidates and pointers\<close>

text \<open>
  Before the end of its first round a node has no best candidate, and a candidate of a peer makes it
  read a nil pointer.
\<close>

lemma candidate_before_first_round:
  assumes "bestCandidate s = None" "CurrentCandidatePool s (candHash c) = None" "orphans (rs_chain s) (candHash c) = None"
  shows "ProcessCandidate E c s = (Inl ChainPanic, s)"
  using assms by (simp add: ProcessCandidate_def CandidateExists_def)

text \<open>An accepted candidate counts as one that points to the node's own best candidate, whichever block it builds on.\<close>

lemma points_to_own_best:
  assumes "ProcessCandidate E c s = (Inr (v, ok), s')" "bestCandidate s = Some best"
  shows "CurrentPointPool s' (bl_Hash best) = Some ((case CurrentPointPool s (bl_Hash best) of Some l \<Rightarrow> l | None \<Rightarrow> []) @ [c]) \<and>
    (\<forall>h. h \<noteq> bl_Hash best \<longrightarrow> CurrentPointPool s' h = CurrentPointPool s h)"
  using ProcessCandidate_cases [OF assms(1)] assms(2) by (auto simp: addCandidate_def)

end
