(* ===== verification/Spec2Isabelle.thy ===== *)
theory Spec2Isabelle
  imports Chain_Round
begin

unbundle bit_operations_syntax

text \<open>Verification of the wire formats, the script engine and the key encodings.\<close>





end
